(* ===== verification/Prelude.thy ===== *)
theory Prelude
  imports Main "HOL-Library.Word"
begin

text \<open>
  Shared vocabulary of the development: byte strings with the operations of
  \<^verbatim>\<open>std::string_view\<close> that the sources use (\<open>find\<close>, \<open>substr\<close>, \<open>front\<close>), the
  arithmetic of \<^verbatim>\<open>std::size_t\<close> (64 bits, wrapping), and the generic lemmas on lists
  and searches that the component theories rest on.

  A \<^verbatim>\<open>char\<close> of the program is the type \<^typ>\<open>char\<close> (eight bits), \<open>byte c\<close> is its value as
  an \<^verbatim>\<open>unsigned char\<close>. A position or size is a \<^typ>\<open>nat\<close>; where a sum of sizes can exceed
  64 bits the definitions use \<open>szadd\<close>, which wraps. \<^verbatim>\<open>npos\<close> is \<^term>\<open>None\<close>.
\<close>

section \<open>Types and collections\<close>

type_synonym size_t = nat
type_synonym u64 = "64 word"
type_synonym u32 = "32 word"

named_theorems find_simps \<open>characterisations of the string searches\<close>
named_theorems step_defs \<open>the definitions that make up one iteration of a loop\<close>
named_theorems run_simps \<open>the definitions with which a run on a concrete input is evaluated\<close>

abbreviation byte :: "char \<Rightarrow> nat" where
  "byte c \<equiv> of_char c"

abbreviation CR :: char where "CR \<equiv> CHR 0x0D"
abbreviation LF :: char where "LF \<equiv> CHR 0x0A"
abbreviation HT :: char where "HT \<equiv> CHR 0x09"
abbreviation SP :: char where "SP \<equiv> CHR 0x20"

definition kCRLF :: string where
  "kCRLF = [CR, LF]"

lemma length_kCRLF [simp]: "length kCRLF = 2"
  by (simp add: kCRLF_def)

lemma kCRLF_not_Nil [simp]: "kCRLF \<noteq> []"
  by (simp add: kCRLF_def)

definition szadd :: "size_t \<Rightarrow> size_t \<Rightarrow> size_t" where
  "szadd a b = (a + b) mod 2 ^ 64"

lemma szadd_id [simp]: "a + b < 2 ^ 64 \<Longrightarrow> szadd a b = a + b"
  by (simp add: szadd_def)

definition szsub :: "size_t \<Rightarrow> size_t \<Rightarrow> size_t" where
  "szsub a b = (if b \<le> a then a - b else a + 2 ^ 64 - b)"

definition szmul :: "size_t \<Rightarrow> size_t \<Rightarrow> size_t" where
  "szmul a b = (a * b) mod 2 ^ 64"

lemma szsub_id [simp]: "b \<le> a \<Longrightarrow> szsub a b = a - b"
  by (simp add: szsub_def)

lemma szmul_id [simp]: "a * b < 2 ^ 64 \<Longrightarrow> szmul a b = a * b"
  by (simp add: szmul_def)

section \<open>Searching a string\<close>

text \<open>\<open>find_char c s\<close> is \<^verbatim>\<open>s.find(c)\<close>, \<open>rfind_char\<close> is \<^verbatim>\<open>s.rfind(c)\<close>, \<open>find_char_from\<close> is
  \<^verbatim>\<open>s.find(c, pos)\<close> and \<open>find_str pat s\<close> is \<^verbatim>\<open>s.find(pat)\<close>.\<close>

primrec find_char :: "char \<Rightarrow> string \<Rightarrow> size_t option" where
  "find_char c [] = None"
| "find_char c (x # xs) = (if x = c then Some 0 else map_option Suc (find_char c xs))"

definition find_char_from :: "char \<Rightarrow> string \<Rightarrow> size_t \<Rightarrow> size_t option" where
  "find_char_from c s pos = map_option (\<lambda>i. i + pos) (find_char c (drop pos s))"

definition rfind_char :: "char \<Rightarrow> string \<Rightarrow> size_t option" where
  "rfind_char c s = map_option (\<lambda>i. length s - 1 - i) (find_char c (rev s))"

fun find_str :: "string \<Rightarrow> string \<Rightarrow> size_t option" where
  "find_str pat [] = (if pat = [] then Some 0 else None)"
| "find_str pat (x # xs) =
     (if take (length pat) (x # xs) = pat then Some 0 else map_option Suc (find_str pat xs))"

text \<open>\<open>upto_pos n s\<close> is \<^verbatim>\<open>s.substr(0, n)\<close>, where \<^verbatim>\<open>npos\<close> keeps the whole string.\<close>

fun upto_pos :: "size_t option \<Rightarrow> string \<Rightarrow> string" where
  "upto_pos None s = s"
| "upto_pos (Some n) s = take n s"

text \<open>The members of a list separated by \<open>c\<close>: the reference for the loops that cut a
  value at each comma or a path at each slash.\<close>

fun split_on :: "char \<Rightarrow> string \<Rightarrow> string list" where
  "split_on c [] = [[]]"
| "split_on c (x # xs) =
     (if x = c then [] # split_on c xs
      else (case split_on c xs of [] \<Rightarrow> [[x]] | y # ys \<Rightarrow> (x # y) # ys))"

subsection \<open>Characterisations\<close>

lemma find_char_None [find_simps]: "find_char c s = None \<longleftrightarrow> c \<notin> set s"
  by (induction s) auto

lemma find_char_Some [find_simps]:
  "find_char c s = Some i \<longleftrightarrow> i < length s \<and> s ! i = c \<and> c \<notin> set (take i s)"
proof (induction s arbitrary: i)
  case Nil
  then show ?case by simp
next
  case (Cons x s)
  then show ?case by (cases i) auto
qed

lemma find_char_less: "find_char c s = Some i \<Longrightarrow> i < length s"
  by (simp add: find_char_Some)

lemma find_char_append_notin:
  "c \<notin> set xs \<Longrightarrow> find_char c (xs @ ys) = map_option (\<lambda>i. i + length xs) (find_char c ys)"
  by (induction xs) (auto simp: option.map_comp o_def option.map_ident)

lemma find_char_at: "c \<notin> set xs \<Longrightarrow> find_char c (xs @ c # ys) = Some (length xs)"
  by (simp add: find_char_append_notin)

lemma find_char_from_le:
  "find_char_from c s pos = Some i \<Longrightarrow> pos \<le> i \<and> i < length s"
  by (auto simp: find_char_from_def dest: find_char_less)

lemma find_str_Some [find_simps]:
  "find_str pat s = Some i \<longleftrightarrow>
     i + length pat \<le> length s \<and> take (length pat) (drop i s) = pat \<and>
     (\<forall>j < i. take (length pat) (drop j s) \<noteq> pat)"
proof (induction s arbitrary: i)
  case Nil
  then show ?case by auto
next
  case (Cons x s)
  show ?case
  proof (cases i)
    case 0
    then show ?thesis
      by (auto simp: min_def dest: arg_cong [where f = length] split: if_splits)
  next
    case (Suc k)
    have "find_str pat (x # s) = Some i \<longleftrightarrow>
            take (length pat) (x # s) \<noteq> pat \<and> find_str pat s = Some k"
      by (auto simp: Suc)
    also have "\<dots> \<longleftrightarrow> i + length pat \<le> length (x # s) \<and>
        take (length pat) (drop i (x # s)) = pat \<and>
        (\<forall>j < i. take (length pat) (drop j (x # s)) \<noteq> pat)"
      unfolding Cons.IH Suc by (auto simp: All_less_Suc2)
    finally show ?thesis .
  qed
qed

lemma find_str_None [find_simps]:
  "pat \<noteq> [] \<Longrightarrow> find_str pat s = None \<longleftrightarrow> (\<forall>j. take (length pat) (drop j s) \<noteq> pat)"
proof (induction s)
  case Nil
  then show ?case by simp
next
  case (Cons x s)
  have "(\<forall>j. take (length pat) (drop j (x # s)) \<noteq> pat) \<longleftrightarrow>
      take (length pat) (x # s) \<noteq> pat \<and> (\<forall>j. take (length pat) (drop j s) \<noteq> pat)"
    by (metis drop0 drop_Suc_Cons not0_implies_Suc)
  then show ?case using Cons by auto
qed

lemma find_str_bound: "find_str pat s = Some i \<Longrightarrow> i + length pat \<le> length s"
  by (simp add: find_str_Some)

lemma find_str_take: "find_str pat s = Some i \<Longrightarrow> take (length pat) (drop i s) = pat"
  by (simp add: find_str_Some)

text \<open>A match inside the data received so far is still the first match when more data arrive,
  and a match that was not there before straddles or follows the old end.\<close>

lemma find_str_append_Some:
  assumes "find_str pat s = Some i"
  shows "find_str pat (s @ t) = Some i"
proof -
  have *: "take (length pat) (drop j (s @ t)) = take (length pat) (drop j s)" if "j \<le> i" for j
    using that find_str_bound [OF assms] by simp
  show ?thesis
    using assms by (auto simp: find_str_Some * simp del: drop_append take_append)
qed

lemma find_str_append_None:
  assumes "find_str pat s = None" and "find_str pat (s @ t) = Some i" and "pat \<noteq> []"
  shows "length s < i + length pat"
proof (rule ccontr)
  assume "\<not> length s < i + length pat"
  then have "take (length pat) (drop i (s @ t)) = take (length pat) (drop i s)" by simp
  then show False
    using assms find_str_None [of pat s] find_str_take [OF assms(2)] by auto
qed

text \<open>A line without CR is found at its terminator.\<close>

lemma find_str_line:
  "CR \<notin> set line \<Longrightarrow> find_str kCRLF (line @ CR # LF # rest) = Some (length line)"
  by (induction line) (auto simp: kCRLF_def)

section \<open>Splitting at a separator\<close>

lemma split_on_not_Nil [simp]: "split_on c s \<noteq> []"
  by (cases s) (auto split: list.splits)

lemma split_on_notin: "c \<notin> set s \<Longrightarrow> split_on c s = [s]"
  by (induction s) auto

lemma split_on_append: "c \<notin> set xs \<Longrightarrow> split_on c (xs @ c # ys) = xs # split_on c ys"
  by (induction xs) auto

lemma split_on_find:
  "split_on c s = (case find_char c s of
       None \<Rightarrow> [s]
     | Some i \<Rightarrow> take i s # split_on c (drop (Suc i) s))"
proof (cases "find_char c s")
  case None
  then have "c \<notin> set s" by (simp add: find_char_None)
  with None show ?thesis by (simp add: split_on_notin)
next
  case (Some i)
  then have "s = take i s @ c # drop (Suc i) s" and "c \<notin> set (take i s)"
    by (auto simp: find_char_Some id_take_nth_drop)
  then have "split_on c s = take i s # split_on c (drop (Suc i) s)"
    by (metis split_on_append)
  with Some show ?thesis by simp
qed

lemma split_on_members: "x \<in> set (split_on c s) \<Longrightarrow> c \<notin> set x \<and> set x \<subseteq> set s"
  by (induction s arbitrary: x) (fastforce split: if_splits list.splits)+

section \<open>Lists\<close>

lemma dropWhile_takeWhile_decomp:
  "\<exists>pre. s = pre @ dropWhile P s \<and> (\<forall>x \<in> set pre. P x)"
  by (metis set_takeWhileD takeWhile_dropWhile_id)

lemma sum_list_length_filter_le:
  "sum_list (map f (filter P xs)) \<le> sum_list (map (f :: 'a \<Rightarrow> nat) xs)"
  by (induction xs) auto

fun intercalate :: "string \<Rightarrow> string list \<Rightarrow> string" where
  "intercalate sep [] = []"
| "intercalate sep [m] = m"
| "intercalate sep (m # n # ms) = m @ sep @ intercalate sep (n # ms)"

lemma intercalate_snoc:
  "intercalate sep (ms @ [m]) = (if ms = [] then m else intercalate sep ms @ sep @ m)"
  by (induction ms rule: induct_list012) auto

lemma intercalate_Nil: "list_all (\<lambda>m. m \<noteq> []) ms \<Longrightarrow> intercalate sep ms = [] \<longleftrightarrow> ms = []"
  by (induction ms rule: induct_list012) auto

declare kCRLF_def [run_simps] szadd_def [run_simps] find_char_from_def [run_simps] Let_def [run_simps]

section \<open>Numbers as text\<close>

text \<open>\<open>to_chars base n\<close> is what \<^verbatim>\<open>std::to_chars\<close> writes for an unsigned \<open>n\<close> (lower-case digits, no
  leading zero) and \<open>to_string\<close> is \<^verbatim>\<open>std::to_string\<close>. \<open>digit_value\<close> reads a digit back.\<close>

definition digit_char :: "nat \<Rightarrow> char" where
  "digit_char d = char_of (if d < 10 then 48 + d else 87 + d)"

function to_chars :: "nat \<Rightarrow> nat \<Rightarrow> string" where
  "to_chars base n =
     (if n < base \<or> base < 2 then [digit_char n]
      else to_chars base (n div base) @ [digit_char (n mod base)])"
  by pat_completeness auto
termination
  by (relation "measure (\<lambda>(base, n). n)") auto

declare to_chars.simps [simp del]

definition to_string :: "int \<Rightarrow> string" where
  "to_string i = (if i < 0 then CHR ''-'' # to_chars 10 (nat (- i)) else to_chars 10 (nat i))"

definition digits_value :: "nat \<Rightarrow> nat list \<Rightarrow> nat" where
  "digits_value base ds = foldl (\<lambda>a d. a * base + d) 0 ds"

fun to_digits :: "nat \<Rightarrow> nat \<Rightarrow> nat list" where
  "to_digits base n =
     (if n < base \<or> base < 2 then [n] else to_digits base (n div base) @ [n mod base])"

declare to_digits.simps [simp del]

lemma to_chars_digits: "to_chars base n = map digit_char (to_digits base n)"
proof (induction base n rule: to_chars.induct)
  case (1 base n)
  show ?case
  proof (cases "n < base \<or> base < 2")
    case True
    then show ?thesis by (simp add: to_chars.simps [of base n] to_digits.simps [of base n])
  next
    case False
    then show ?thesis
      using 1 by (simp add: to_chars.simps [of base n] to_digits.simps [of base n])
  qed
qed

lemma digits_value_to_digits: "2 \<le> base \<Longrightarrow> digits_value base (to_digits base n) = n"
proof (induction base n rule: to_digits.induct)
  case (1 base n)
  show ?case
  proof (cases "n < base")
    case True
    then show ?thesis by (simp add: to_digits.simps [of base n] digits_value_def)
  next
    case False
    then show ?thesis using 1 by (simp add: to_digits.simps [of base n] digits_value_def)
  qed
qed

lemma to_digits_less: "2 \<le> base \<Longrightarrow> d \<in> set (to_digits base n) \<Longrightarrow> d < base"
proof (induction base n rule: to_digits.induct)
  case (1 base n)
  show ?case
  proof (cases "n < base")
    case True
    with 1 show ?thesis by (simp add: to_digits.simps [of base n])
  next
    case False
    with 1 show ?thesis by (auto simp: to_digits.simps [of base n])
  qed
qed

lemma to_digits_not_Nil [simp]: "to_digits base n \<noteq> []"
  by (subst to_digits.simps) simp

lemma length_to_digits: "2 \<le> base \<Longrightarrow> n < base ^ Suc k \<Longrightarrow> length (to_digits base n) \<le> Suc k"
proof (induction k arbitrary: n)
  case 0
  then show ?case by (simp add: to_digits.simps [of base n])
next
  case (Suc k)
  show ?case
  proof (cases "n < base")
    case True
    then show ?thesis by (simp add: to_digits.simps [of base n])
  next
    case False
    have "n div base < base ^ Suc k"
      using Suc.prems by (simp add: less_mult_imp_div_less mult.commute)
    with Suc.IH Suc.prems False show ?thesis by (simp add: to_digits.simps [of base n])
  qed
qed

lemma byte_digit_char: "d < 16 \<Longrightarrow> byte (digit_char d) = (if d < 10 then 48 + d else 87 + d)"
  by (simp add: digit_char_def)

lemma digit_char_nth [run_simps]: "d < 16 \<Longrightarrow> digit_char d = ''0123456789abcdef'' ! d"
proof -
  assume "d < 16"
  then have "d \<in> set [0..<16]" by simp
  moreover have "list_all (\<lambda>d. digit_char d = ''0123456789abcdef'' ! d) [0..<16]" by code_simp
  ultimately show ?thesis by (simp only: list_all_iff)
qed

end
