(* ===== verification/Header_List.thy ===== *)
theory Header_List
  imports Prelude
begin

text \<open>
  The header list of \<^verbatim>\<open>src/src/http/headers.hpp\<close> and \<^verbatim>\<open>src/src/http/headers.cpp\<close>: the ASCII helpers
  \<open>iequals\<close>, \<open>is_token\<close> and \<open>trim_ows\<close>, and the class \<^verbatim>\<open>Headers\<close>, an insertion-ordered list
  of fields searched without regard to case. A pointer to a field is its index in the list.
  The locale \<open>header_map\<close> is the contract the parser, the serialiser and the handlers use;
  it is interpreted on the operations of the class at the end.
\<close>

section \<open>ASCII helpers\<close>

definition ascii_lower :: "char \<Rightarrow> char" where
  "ascii_lower c =
     (if 65 \<le> byte c \<and> byte c \<le> 90 then char_of (byte c + (97 - 65)) else c)"

definition iequals :: "string \<Rightarrow> string \<Rightarrow> bool" where
  "iequals a b \<longleftrightarrow> length a = length b \<and> list_all2 (\<lambda>x y. ascii_lower x = ascii_lower y) a b"

definition is_tchar :: "char \<Rightarrow> bool" where
  "is_tchar c \<longleftrightarrow>
     (48 \<le> byte c \<and> byte c \<le> 57) \<or> (97 \<le> byte c \<and> byte c \<le> 122) \<or>
     (65 \<le> byte c \<and> byte c \<le> 90) \<or>
     c \<in> {CHR ''!'', CHR ''#'', CHR ''$'', CHR ''%'', CHR ''&'', CHR 0x27, CHR ''*'', CHR ''+'',
          CHR ''-'', CHR ''.'', CHR ''^'', CHR ''_'', CHR 0x60, CHR ''|'', CHR ''~''}"

definition is_token :: "string \<Rightarrow> bool" where
  "is_token s \<longleftrightarrow> s \<noteq> [] \<and> list_all is_tchar s"

definition is_ows :: "char \<Rightarrow> bool" where
  "is_ows c \<longleftrightarrow> c = SP \<or> c = HT"

definition trim_ows :: "string \<Rightarrow> string" where
  "trim_ows s = rev (dropWhile is_ows (rev (dropWhile is_ows s)))"

section \<open>The class Headers\<close>

type_synonym Field = "string \<times> string"

datatype (plugins del: size) Headers = Headers (field_list: "Field list")

instantiation Headers :: size
begin

definition size_Headers :: "Headers \<Rightarrow> nat" where
  "size_Headers h = length (field_list h)"

instance ..

end

definition no_headers :: Headers where
  "no_headers = Headers []"

fun find_field :: "Field list \<Rightarrow> string \<Rightarrow> size_t option" where
  "find_field [] name = None"
| "find_field (f # fs) name =
     (if iequals (fst f) name then Some 0 else map_option Suc (find_field fs name))"

definition h_find :: "Headers \<Rightarrow> string \<Rightarrow> size_t option" where
  "h_find h name = find_field (field_list h) name"

definition h_set :: "Headers \<Rightarrow> string \<Rightarrow> string \<Rightarrow> Headers" where
  "h_set h name v =
     (case h_find h name of
        Some i \<Rightarrow> Headers ((field_list h)[i := (fst (field_list h ! i), v)])
      | None \<Rightarrow> Headers (field_list h @ [(name, v)]))"

definition h_add :: "Headers \<Rightarrow> string \<Rightarrow> string \<Rightarrow> Headers" where
  "h_add h name v =
     (case h_find h name of
        Some i \<Rightarrow>
          Headers ((field_list h)[i := (fst (field_list h ! i), snd (field_list h ! i) @ '', '' @ v)])
      | None \<Rightarrow> Headers (field_list h @ [(name, v)]))"

definition h_get :: "Headers \<Rightarrow> string \<Rightarrow> string option" where
  "h_get h name = map_option (\<lambda>i. snd (field_list h ! i)) (h_find h name)"

definition h_has :: "Headers \<Rightarrow> string \<Rightarrow> bool" where
  "h_has h name \<longleftrightarrow> h_find h name \<noteq> None"

definition h_remove :: "Headers \<Rightarrow> string \<Rightarrow> Headers \<times> bool" where
  "h_remove h name =
     (case h_find h name of
        None \<Rightarrow> (h, False)
      | Some i \<Rightarrow> (Headers (take i (field_list h) @ drop (Suc i) (field_list h)), True))"

function has_token_loop :: "string \<Rightarrow> string \<Rightarrow> bool" where
  "has_token_loop rest token =
     (let comma = find_char CHR '','' rest in
      if iequals (trim_ows (upto_pos comma rest)) token then True
      else (case comma of
              None \<Rightarrow> False
            | Some i \<Rightarrow> has_token_loop (drop (i + 1) rest) token))"
  by pat_completeness auto
termination
  by (relation "measure (\<lambda>(rest, token). length rest)") (auto dest!: find_char_less [OF sym])

declare has_token_loop.simps [simp del]

definition has_token :: "Headers \<Rightarrow> string \<Rightarrow> string \<Rightarrow> bool" where
  "has_token h name token =
     (case h_get h name of None \<Rightarrow> False | Some v \<Rightarrow> has_token_loop v token)"

lemmas header_defs [run_simps] =
  ascii_lower_def iequals_def is_tchar_def is_token_def is_ows_def trim_ows_def no_headers_def
  h_find_def h_set_def h_add_def h_get_def h_has_def h_remove_def has_token_def

section \<open>Lemmas on the helpers\<close>

definition key :: "string \<Rightarrow> string" where
  "key s = map ascii_lower s"

lemma iequals_key: "iequals a b \<longleftrightarrow> key a = key b"
  by (auto simp: iequals_def key_def list_all2_conv_all_nth list_eq_iff_nth_eq)

lemma iequals_refl [simp]: "iequals a a"
  by (simp add: iequals_key)

lemma key_Nil [simp]: "key [] = []"
  by (simp add: key_def)

lemma is_tchar_visible: "is_tchar c \<Longrightarrow> 33 \<le> byte c \<and> byte c \<le> 126"
  by (auto simp: is_tchar_def)

lemma is_tchar_not_special:
  "is_tchar c \<Longrightarrow> c \<noteq> SP \<and> c \<noteq> HT \<and> c \<noteq> CR \<and> c \<noteq> LF \<and> c \<noteq> CHR '':''"
  by (auto simp: is_tchar_def)

lemma is_token_not_special:
  "is_token s \<Longrightarrow> SP \<notin> set s \<and> HT \<notin> set s \<and> CR \<notin> set s \<and> LF \<notin> set s \<and> CHR '':'' \<notin> set s"
  by (fastforce simp: is_token_def list_all_iff dest: is_tchar_not_special)

lemma trim_ows_parts:
  "\<exists>pre post. s = pre @ trim_ows s @ post \<and> (\<forall>c \<in> set pre \<union> set post. is_ows c)"
proof -
  let ?u = "dropWhile is_ows s" and ?w = "takeWhile is_ows (rev (dropWhile is_ows s))"
  have "rev ?u = ?w @ rev (trim_ows s)"
    by (simp add: trim_ows_def)
  then have "?u = trim_ows s @ rev ?w"
    by (metis rev_append rev_rev_ident)
  then have "s = takeWhile is_ows s @ trim_ows s @ rev ?w"
    by (metis takeWhile_dropWhile_id)
  moreover have "\<forall>c \<in> set (takeWhile is_ows s) \<union> set (rev ?w). is_ows c"
    by (auto dest: set_takeWhileD)
  ultimately show ?thesis by blast
qed

lemma trim_ows_ends:
  "trim_ows s \<noteq> [] \<Longrightarrow> \<not> is_ows (hd (trim_ows s)) \<and> \<not> is_ows (last (trim_ows s))"
proof -
  assume ne: "trim_ows s \<noteq> []"
  let ?u = "dropWhile is_ows s"
  have "last (trim_ows s) = hd (dropWhile is_ows (rev ?u))"
    by (simp add: trim_ows_def last_rev)
  moreover have "\<not> is_ows (hd (dropWhile is_ows (rev ?u)))"
    using ne by (intro hd_dropWhile) (auto simp: trim_ows_def)
  moreover have "hd (trim_ows s) = hd ?u"
  proof -
    obtain post where "rev ?u = post @ rev (trim_ows s)"
      using dropWhile_takeWhile_decomp [of "rev ?u" is_ows] by (auto simp: trim_ows_def)
    then have "?u = trim_ows s @ rev post"
      by (metis rev_append rev_rev_ident)
    with ne show ?thesis by (metis hd_append2)
  qed
  moreover have "\<not> is_ows (hd ?u)"
    using ne by (intro hd_dropWhile) (auto simp: trim_ows_def dest: set_dropWhileD)
  ultimately show ?thesis by simp
qed

lemma set_trim_ows: "set (trim_ows s) \<subseteq> set s"
  by (auto simp: trim_ows_def dest!: set_dropWhileD)

lemma length_trim_ows: "length (trim_ows s) \<le> length s"
  unfolding trim_ows_def
  by (metis length_dropWhile_le length_rev order_trans)

lemma trim_ows_id:
  "s = [] \<or> (\<not> is_ows (hd s) \<and> \<not> is_ows (last s)) \<Longrightarrow> trim_ows s = s"
proof (cases "s = []")
  case False
  assume "s = [] \<or> (\<not> is_ows (hd s) \<and> \<not> is_ows (last s))"
  with False have "dropWhile is_ows s = s" and "dropWhile is_ows (rev s) = rev s"
    by (simp_all add: dropWhile_eq_self_iff hd_rev)
  then show ?thesis by (simp add: trim_ows_def)
qed (simp add: trim_ows_def)

lemma trim_ows_SP [simp]: "trim_ows (SP # s) = trim_ows s"
  by (simp add: trim_ows_def is_ows_def)

lemma has_token_loop_iff:
  "has_token_loop v token \<longleftrightarrow>
     (\<exists>m \<in> set (split_on CHR '','' v). iequals (trim_ows m) token)"
proof (induction "length v" arbitrary: v rule: less_induct)
  case less
  show ?case
  proof (cases "find_char CHR '','' v")
    case None
    then show ?thesis
      by (subst has_token_loop.simps, subst split_on_find) simp
  next
    case (Some i)
    then have "length (drop (Suc i) v) < length v"
      by (auto dest: find_char_less)
    then have "has_token_loop (drop (Suc i) v) token \<longleftrightarrow>
        (\<exists>m \<in> set (split_on CHR '','' (drop (Suc i) v)). iequals (trim_ows m) token)"
      by (rule less)
    with Some show ?thesis
      by (subst has_token_loop.simps, subst split_on_find) simp
  qed
qed

section \<open>The contract of a header map\<close>

text \<open>The values received for a name, and one comma-separated value made of them.\<close>

definition values_of :: "string \<Rightarrow> Field list \<Rightarrow> string list" where
  "values_of m fs = map snd (filter (\<lambda>f. key (fst f) = key m) fs)"

fun fold_values :: "string list \<Rightarrow> string option" where
  "fold_values [] = None"
| "fold_values (v # vs) =
     Some (case fold_values vs of None \<Rightarrow> v | Some w \<Rightarrow> v @ '', '' @ w)"

text \<open>
  What the rest of the program relies on: a lookup ignores case, \<open>put\<close> replaces,
  \<open>append\<close> folds a repeated name into one comma-separated value, \<open>del\<close> removes the
  name, and no operation touches any other name.
\<close>

locale header_map =
  fixes empty :: 'h
    and get :: "'h \<Rightarrow> string \<Rightarrow> string option"
    and put :: "'h \<Rightarrow> string \<Rightarrow> string \<Rightarrow> 'h"
    and append :: "'h \<Rightarrow> string \<Rightarrow> string \<Rightarrow> 'h"
    and del :: "'h \<Rightarrow> string \<Rightarrow> 'h"
    and invar :: "'h \<Rightarrow> bool"
  assumes get_empty: "get empty n = None"
    and get_put: "get (put h n v) m = (if key n = key m then Some v else get h m)"
    and get_append:
      "get (append h n v) m =
         (if key n = key m
          then Some (case get h n of None \<Rightarrow> v | Some w \<Rightarrow> w @ '', '' @ v) else get h m)"
    and get_del: "invar h \<Longrightarrow> get (del h n) m = (if key n = key m then None else get h m)"
    and get_key: "key n = key m \<Longrightarrow> get h n = get h m"
    and invar_empty: "invar empty"
    and invar_put: "invar h \<Longrightarrow> invar (put h n v)"
    and invar_append: "invar h \<Longrightarrow> invar (append h n v)"
    and invar_del: "invar h \<Longrightarrow> invar (del h n)"
begin

lemma put_twice: "get (put (put h n v) n' w) m = get (put h n w) m" if "key n' = key n"
  using that by (simp add: get_put)

lemma put_commute:
  "key n \<noteq> key n' \<Longrightarrow> get (put (put h n v) n' w) m = get (put (put h n' w) n v) m"
  by (auto simp: get_put)

lemma del_put: "invar h \<Longrightarrow> get (del (put h n v) n) m = get (del h n) m"
  by (simp add: get_del get_put invar_put)

definition append_all :: "'h \<Rightarrow> Field list \<Rightarrow> 'h" where
  "append_all h fs = foldl (\<lambda>h f. append h (fst f) (snd f)) h fs"

lemma get_append_all:
  "get (append_all h fs) m =
     (case (get h m, fold_values (values_of m fs)) of
        (None, r) \<Rightarrow> r
      | (Some w, None) \<Rightarrow> Some w
      | (Some w, Some r) \<Rightarrow> Some (w @ '', '' @ r))"
proof (induction fs arbitrary: h)
  case Nil
  then show ?case by (simp add: append_all_def values_of_def split: option.split)
next
  case (Cons f fs)
  have "append_all h (f # fs) = append_all (append h (fst f) (snd f)) fs"
    by (simp add: append_all_def)
  then show ?case
    using get_key [of "fst f" m h]
    by (auto simp: Cons.IH get_append values_of_def split: option.split)
qed

lemma get_received:
  "get (append_all empty fs) m = fold_values (values_of m fs)"
  by (simp add: get_append_all get_empty)

lemma invar_append_all: "invar h \<Longrightarrow> invar (append_all h fs)"
  by (induction fs arbitrary: h) (simp_all add: append_all_def invar_append)

end

section \<open>The class meets the contract\<close>

fun put_field :: "(string \<Rightarrow> string) \<Rightarrow> string \<Rightarrow> string \<Rightarrow> Field list \<Rightarrow> Field list" where
  "put_field g n v [] = [(n, v)]"
| "put_field g n v (f # fs) =
     (if iequals (fst f) n then (fst f, g (snd f)) # fs else f # put_field g n v fs)"

fun del_field :: "string \<Rightarrow> Field list \<Rightarrow> Field list" where
  "del_field n [] = []"
| "del_field n (f # fs) = (if iequals (fst f) n then fs else f # del_field n fs)"

fun get_field :: "string \<Rightarrow> Field list \<Rightarrow> string option" where
  "get_field n [] = None"
| "get_field n (f # fs) = (if iequals (fst f) n then Some (snd f) else get_field n fs)"

definition distinct_names :: "Headers \<Rightarrow> bool" where
  "distinct_names h \<longleftrightarrow> distinct (map (key \<circ> fst) (field_list h))"

lemma find_field_update:
  "(case find_field fs n of
      Some i \<Rightarrow> fs[i := (fst (fs ! i), g (snd (fs ! i)))]
    | None \<Rightarrow> fs @ [(n, v)]) = put_field g n v fs"
  by (induction fs) (auto split: option.splits)

lemma find_field_remove:
  "(case find_field fs n of
      Some i \<Rightarrow> take i fs @ drop (Suc i) fs
    | None \<Rightarrow> fs) = del_field n fs"
  by (induction fs) (auto split: option.splits)

lemma find_field_get: "map_option (\<lambda>i. snd (fs ! i)) (find_field fs n) = get_field n fs"
  by (induction fs) (auto simp: option.map_comp o_def)

lemma h_set_fields: "h_set h n v = Headers (put_field (\<lambda>_. v) n v (field_list h))"
  using find_field_update [where fs = "field_list h" and n = n and g = "\<lambda>_. v" and v = v]
  by (auto simp: h_set_def h_find_def split: option.splits)

lemma h_add_fields: "h_add h n v = Headers (put_field (\<lambda>w. w @ '', '' @ v) n v (field_list h))"
  using find_field_update [where fs = "field_list h" and n = n and v = v
      and g = "\<lambda>w. w @ '', '' @ v"]
  by (auto simp: h_add_def h_find_def split: option.splits)

lemma h_get_fields: "h_get h n = get_field n (field_list h)"
  by (simp add: h_get_def h_find_def find_field_get)

lemma h_remove_fields: "fst (h_remove h n) = Headers (del_field n (field_list h))"
  using find_field_remove [of "field_list h" n]
  by (auto simp: h_remove_def h_find_def split: option.splits)

lemma h_has_get: "h_has h n \<longleftrightarrow> h_get h n \<noteq> None"
  by (simp add: h_has_def h_get_def)

lemma field_list_no_headers [simp]: "field_list no_headers = []"
  by (simp add: no_headers_def)

lemma get_field_key: "key n = key m \<Longrightarrow> get_field n fs = get_field m fs"
  by (induction fs) (auto simp: iequals_key)

lemma get_field_None: "get_field n fs = None \<longleftrightarrow> key n \<notin> (key \<circ> fst) ` set fs"
  by (induction fs) (auto simp: iequals_key)

lemma get_put_field:
  "get_field m (put_field g n v fs) =
     (if key n = key m then Some (case get_field n fs of None \<Rightarrow> v | Some w \<Rightarrow> g w)
      else get_field m fs)"
  by (induction fs) (auto simp: iequals_key)

lemma names_put_field:
  "(key \<circ> fst) ` set (put_field g n v fs) = insert (key n) ((key \<circ> fst) ` set fs)"
  by (induction fs) (auto simp: iequals_key)

lemma distinct_put_field:
  "distinct (map (key \<circ> fst) fs) \<Longrightarrow> distinct (map (key \<circ> fst) (put_field g n v fs))"
proof (induction fs)
  case (Cons f fs)
  show ?case
  proof (cases "iequals (fst f) n")
    case False
    moreover have "(key \<circ> fst) f \<notin> (key \<circ> fst) ` set (put_field g n v fs)"
      using Cons.prems False unfolding names_put_field by (auto simp: iequals_key)
    ultimately show ?thesis using Cons by simp
  qed (use Cons in simp)
qed simp

lemma set_del_field: "set (del_field n fs) \<subseteq> set fs"
  by (induction fs) auto

lemma distinct_del_field:
  "distinct (map (key \<circ> fst) fs) \<Longrightarrow> distinct (map (key \<circ> fst) (del_field n fs))"
  by (induction fs) (auto dest: set_del_field [THEN subsetD])

lemma get_del_field:
  "distinct (map (key \<circ> fst) fs) \<Longrightarrow>
     get_field m (del_field n fs) = (if key n = key m then None else get_field m fs)"
proof (induction fs)
  case (Cons f fs)
  show ?case
  proof (cases "iequals (fst f) n")
    case True
    with Cons.prems have "get_field m fs = None" if "key n = key m"
      using that by (simp add: get_field_None iequals_key image_comp)
    with True show ?thesis by (auto simp: iequals_key)
  qed (use Cons in \<open>auto simp: iequals_key\<close>)
qed simp

lemma h_get_set: "h_get (h_set h n v) m = (if key n = key m then Some v else h_get h m)"
  by (cases "get_field n (field_list h)") (simp_all add: h_get_fields h_set_fields get_put_field)

lemma h_get_add:
  "h_get (h_add h n v) m = (if key n = key m
     then Some (case h_get h n of None \<Rightarrow> v | Some w \<Rightarrow> w @ '', '' @ v) else h_get h m)"
  by (simp add: h_get_fields h_add_fields get_put_field split: option.split)

lemma h_get_key: "key n = key m \<Longrightarrow> h_get h n = h_get h m"
  unfolding h_get_fields by (rule get_field_key)

lemma h_get_empty: "h_get no_headers n = None"
  by (simp add: h_get_fields)

lemma h_get_remove:
  "distinct_names h \<Longrightarrow>
     h_get (fst (h_remove h n)) m = (if key n = key m then None else h_get h m)"
  by (simp add: h_get_fields h_remove_fields get_del_field distinct_names_def)

lemma distinct_names_ops:
  "distinct_names no_headers"
  "distinct_names h \<Longrightarrow> distinct_names (h_set h n v)"
  "distinct_names h \<Longrightarrow> distinct_names (h_add h n v)"
  "distinct_names h \<Longrightarrow> distinct_names (fst (h_remove h n))"
  by (simp_all add: distinct_names_def h_set_fields h_add_fields h_remove_fields
      distinct_put_field distinct_del_field)

interpretation hm: header_map no_headers h_get h_set h_add "\<lambda>h n. fst (h_remove h n)" distinct_names
  by (unfold_locales; (rule h_get_empty h_get_set h_get_add h_get_remove h_get_key
      distinct_names_ops; assumption?))

section \<open>Properties\<close>

text \<open>The three operations of the class that change it, and what each does to a map from
  lower-case names to values.\<close>

datatype HeaderOp = SetOp string string | AddOp string string | RemoveOp string

fun apply_op :: "Headers \<Rightarrow> HeaderOp \<Rightarrow> Headers" where
  "apply_op h (SetOp n v) = h_set h n v"
| "apply_op h (AddOp n v) = h_add h n v"
| "apply_op h (RemoveOp n) = fst (h_remove h n)"

fun spec_op :: "(string \<rightharpoonup> string) \<Rightarrow> HeaderOp \<Rightarrow> (string \<rightharpoonup> string)" where
  "spec_op m (SetOp n v) = m(key n \<mapsto> v)"
| "spec_op m (AddOp n v) =
     m(key n \<mapsto> (case m (key n) of None \<Rightarrow> v | Some w \<Rightarrow> w @ '', '' @ v))"
| "spec_op m (RemoveOp n) = m(key n := None)"

lemma apply_op_refines:
  assumes "distinct_names h" and "\<And>n. h_get h n = m (key n)"
  shows "distinct_names (apply_op h opn) \<and> (\<forall>n. h_get (apply_op h opn) n = spec_op m opn (key n))"
  using assms by (cases opn) (auto simp: h_get_set h_get_add h_get_remove distinct_names_ops)

lemma apply_ops_refine:
  assumes "distinct_names h" and "\<And>n. h_get h n = m (key n)"
  shows "distinct_names (foldl apply_op h ops) \<and>
    (\<forall>n. h_get (foldl apply_op h ops) n = foldl spec_op m ops (key n))"
  using assms
proof (induction ops arbitrary: h m)
  case (Cons opn ops)
  from apply_op_refines [OF Cons.prems, of opn] show ?case by (simp add: Cons.IH)
qed simp

text \<open>C36: The header list implements a map from case-folded names to values. After any sequence
  of calls of \<^verbatim>\<open>set\<close>, \<^verbatim>\<open>add\<close> and \<^verbatim>\<open>remove\<close> a lookup answers what the map does, names stay
  unique up to case, and \<^verbatim>\<open>remove\<close> reports whether the name was present.\<close>

theorem headers_refine_map:
  "(let h = foldl apply_op no_headers ops; m = foldl spec_op Map.empty ops in
      h_get h n = m (key n) \<and> h_has h n = (m (key n) \<noteq> None) \<and>
      snd (h_remove h n) = (m (key n) \<noteq> None) \<and> distinct_names h)"
proof -
  let ?h = "foldl apply_op no_headers ops" and ?m = "foldl spec_op Map.empty ops"
  have ref: "distinct_names ?h" "h_get ?h n = ?m (key n)"
    using apply_ops_refine [of no_headers Map.empty ops] by (simp_all add: h_get_empty distinct_names_ops)
  moreover have "snd (h_remove ?h n) = h_has ?h n"
    by (simp add: h_remove_def h_has_def split: option.split)
  ultimately show ?thesis by (simp add: Let_def h_has_get)
qed

text \<open>A field received on several lines is one comma-separated value, in the order of the
  lines, and is found under any spelling of its name.\<close>

theorem repeated_fields_fold:
  "h_get (foldl (\<lambda>h f. h_add h (fst f) (snd f)) no_headers fs) n = fold_values (values_of n fs)"
  using hm.get_received [of fs n] by (simp add: hm.append_all_def)

text \<open>\<^verbatim>\<open>has_token\<close> holds exactly when the named field is present and one of the members of its
  comma-separated value is the token, up to case and surrounding blanks.\<close>

theorem has_token_members:
  "has_token h n t \<longleftrightarrow>
     (\<exists>v m. h_get h n = Some v \<and> m \<in> set (split_on CHR '','' v) \<and> key (trim_ows m) = key t)"
  by (auto simp: has_token_def has_token_loop_iff iequals_key split: option.split)

end
