(* ===== verification/Request_Parser.thy ===== *)
theory Request_Parser
  imports Header_List
begin

text \<open>
  The incremental request parser of \<^verbatim>\<open>src/src/http/request_parser.hpp\<close> and
  \<^verbatim>\<open>src/src/http/request_parser.cpp\<close>: the definitions, in the order of the source. A member
  function that changes the parser takes it and returns the changed one; one that reports
  success returns the parser with a \<^typ>\<open>bool\<close>. One turn of the loop of \<^verbatim>\<open>feed\<close> is a function
  of the state it dispatches on and of the unread input; it answers \<open>Continue\<close> or \<open>Return\<close>
  with the number of bytes that turn adds to \<open>consumed\<close>.
\<close>

unbundle bit_operations_syntax

section \<open>Data\<close>

record Request =
  req_method :: string
  target :: string
  path :: string
  query :: string
  version_major :: int
  version_minor :: int
  req_headers :: Headers
  req_trailers :: Headers
  req_body :: string
  expect_continue :: bool

definition empty_request :: Request where
  "empty_request =
     \<lparr>req_method = [], target = [], path = [], query = [], version_major = 1, version_minor = 1,
      req_headers = no_headers, req_trailers = no_headers, req_body = [],
      expect_continue = False\<rparr>"

datatype ParseError =
    NoError | BadRequest | UriTooLong | HeaderFieldsTooLarge | PayloadTooLarge
  | NotImplemented | VersionNotSupported

record ParserLimits =
  max_request_line :: size_t
  max_header_bytes :: size_t
  max_header_count :: size_t
  max_body_bytes :: size_t
  max_chunk_line :: size_t

definition default_limits :: ParserLimits where
  "default_limits =
     \<lparr>max_request_line = 8 * 1024, max_header_bytes = 16 * 1024, max_header_count = 100,
      max_body_bytes = 8 * 1024 * 1024, max_chunk_line = 1024\<rparr>"

datatype State =
    RequestLine | InHeaders | Body | ChunkSize | ChunkData | ChunkDataEnd | InTrailers
  | Done | Error

record RequestParser =
  limits :: ParserLimits
  state :: State
  req :: Request
  error :: ParseError
  error_detail :: string
  header_bytes :: size_t
  header_count :: size_t
  remaining :: size_t

definition new_parser :: "ParserLimits \<Rightarrow> RequestParser" where
  "new_parser lim =
     \<lparr>limits = lim, state = RequestLine, req = empty_request, error = NoError,
      error_detail = [], header_bytes = 0, header_count = 0, remaining = 0\<rparr>"

definition parser_done :: "RequestParser \<Rightarrow> bool" where
  "parser_done p \<longleftrightarrow> state p = Done"

definition failed :: "RequestParser \<Rightarrow> bool" where
  "failed p \<longleftrightarrow> state p = Error"

definition started :: "RequestParser \<Rightarrow> bool" where
  "started p \<longleftrightarrow> state p \<noteq> RequestLine"

definition headers_complete :: "RequestParser \<Rightarrow> bool" where
  "headers_complete p \<longleftrightarrow> state p \<noteq> RequestLine \<and> state p \<noteq> InHeaders \<and> state p \<noteq> Error"

section \<open>Lexical helpers\<close>

definition is_digit :: "char \<Rightarrow> bool" where
  "is_digit c \<longleftrightarrow> 48 \<le> byte c \<and> byte c \<le> 57"

definition hex_value :: "char \<Rightarrow> int" where
  "hex_value c =
     (if 48 \<le> byte c \<and> byte c \<le> 57 then int (byte c) - 48
      else if 97 \<le> byte c \<and> byte c \<le> 102 then int (byte c) - 97 + 10
      else if 65 \<le> byte c \<and> byte c \<le> 70 then int (byte c) - 65 + 10
      else -1)"

fun decimal_loop :: "string \<Rightarrow> u64 \<Rightarrow> u64 option" where
  "decimal_loop [] v = Some v"
| "decimal_loop (c # cs) v =
     (if \<not> is_digit c then None
      else decimal_loop cs (v * 10 + word_of_int (int (byte c) - 48)))"

definition parse_decimal :: "string \<Rightarrow> size_t option" where
  "parse_decimal s =
     (if s = [] \<or> length s > 19 then None else map_option unat (decimal_loop s 0))"

function content_length_loop :: "string \<Rightarrow> bool \<Rightarrow> size_t \<Rightarrow> size_t option" where
  "content_length_loop v first out =
     (let comma = find_char CHR '','' v in
      case parse_decimal (trim_ows (upto_pos comma v)) of
        None \<Rightarrow> None
      | Some n \<Rightarrow>
          if \<not> first \<and> n \<noteq> out then None
          else (case comma of
                  None \<Rightarrow> Some n
                | Some i \<Rightarrow> content_length_loop (drop (i + 1) v) False n))"
  by pat_completeness auto
termination
  by (relation "measure (\<lambda>(v, first, out). length v)") (auto dest!: find_char_less [OF sym])

declare content_length_loop.simps [simp del]

definition parse_content_length :: "string \<Rightarrow> size_t option" where
  "parse_content_length v = content_length_loop v True 0"

definition valid_target :: "string \<Rightarrow> bool" where
  "valid_target t \<longleftrightarrow> t \<noteq> [] \<and> list_all (\<lambda>c. \<not> (byte c \<le> 0x20 \<or> byte c = 0x7F)) t"

definition starts_with_icase :: "string \<Rightarrow> string \<Rightarrow> bool" where
  "starts_with_icase s pre \<longleftrightarrow> length s \<ge> length pre \<and> iequals (take (length pre) s) pre"

section \<open>Requests and errors\<close>

definition is_http10 :: "Request \<Rightarrow> bool" where
  "is_http10 r \<longleftrightarrow> version_major r = 1 \<and> version_minor r = 0"

definition keep_alive :: "Request \<Rightarrow> bool" where
  "keep_alive r =
     (if has_token (req_headers r) ''Connection'' ''close'' then False
      else if version_minor r = 0 then has_token (req_headers r) ''Connection'' ''keep-alive''
      else True)"

fun status_for :: "ParseError \<Rightarrow> int" where
  "status_for NoError = 200"
| "status_for BadRequest = 400"
| "status_for UriTooLong = 414"
| "status_for HeaderFieldsTooLarge = 431"
| "status_for PayloadTooLarge = 413"
| "status_for NotImplemented = 501"
| "status_for VersionNotSupported = 505"

fun error_name :: "ParseError \<Rightarrow> string" where
  "error_name NoError = ''none''"
| "error_name BadRequest = ''bad_request''"
| "error_name UriTooLong = ''uri_too_long''"
| "error_name HeaderFieldsTooLarge = ''header_fields_too_large''"
| "error_name PayloadTooLarge = ''payload_too_large''"
| "error_name NotImplemented = ''not_implemented''"
| "error_name VersionNotSupported = ''version_not_supported''"

definition reset :: "RequestParser \<Rightarrow> RequestParser" where
  "reset p = p\<lparr>state := RequestLine, req := empty_request, error := NoError,
     error_detail := [], header_bytes := 0, header_count := 0, remaining := 0\<rparr>"

definition take_request :: "RequestParser \<Rightarrow> Request \<times> RequestParser" where
  "take_request p = (req p, reset p)"

definition fail :: "RequestParser \<Rightarrow> ParseError \<Rightarrow> string \<Rightarrow> RequestParser" where
  "fail p e detail = p\<lparr>state := Error, error := e, error_detail := detail\<rparr>"

section \<open>The units of a message\<close>

definition path_and_query :: "string \<Rightarrow> string \<Rightarrow> string option" where
  "path_and_query meth tgt =
     (if starts_with_icase tgt ''http://'' \<or> starts_with_icase tgt ''https://'' then
        let authority = (case find_str ''//'' tgt of Some i \<Rightarrow> i + 2 | None \<Rightarrow> 1) in
        case find_char_from CHR ''/'' tgt authority of
          None \<Rightarrow> Some ''/''
        | Some slash \<Rightarrow> Some (drop slash tgt)
      else if hd tgt \<noteq> CHR ''/'' \<and> \<not> (tgt = ''*'' \<and> meth = ''OPTIONS'') then None
      else Some tgt)"

definition well_formed_version :: "string \<Rightarrow> bool" where
  "well_formed_version v \<longleftrightarrow>
     length v = 8 \<and> take 5 v = ''HTTP/'' \<and> is_digit (v ! 5) \<and> v ! 6 = CHR ''.'' \<and> is_digit (v ! 7)"

definition parse_request_line :: "RequestParser \<Rightarrow> string \<Rightarrow> RequestParser \<times> bool" where
  "parse_request_line p line =
     (let sp1 = find_char SP line;
          sp2 = (case sp1 of None \<Rightarrow> None | Some i \<Rightarrow> find_char_from SP line (i + 1));
          third = (case sp2 of None \<Rightarrow> None | Some j \<Rightarrow> find_char_from SP line (j + 1))
      in if sp2 = None \<or> third \<noteq> None
         then (fail p BadRequest ''request-line must have exactly three parts'', False)
         else
           let i = the sp1; j = the sp2;
               meth = take i line;
               tgt = take (j - i - 1) (drop (i + 1) line);
               version = drop (j + 1) line
           in if \<not> is_token meth then (fail p BadRequest ''invalid method'', False)
              else if \<not> valid_target tgt then (fail p BadRequest ''invalid request-target'', False)
              else if \<not> well_formed_version version
                then (fail p BadRequest ''malformed HTTP-version'', False)
              else
                let major = int (byte (version ! 5)) - 48; minor = int (byte (version ! 7)) - 48
                in if major \<noteq> 1 \<or> minor > 1
                   then (fail p VersionNotSupported
                           ''only HTTP/1.0 and HTTP/1.1 are supported'', False)
                   else (case path_and_query meth tgt of
                       None \<Rightarrow> (fail p BadRequest ''unsupported request-target form'', False)
                     | Some pq \<Rightarrow>
                         let qmark = find_char CHR ''?'' pq
                         in (p\<lparr>req := (req p)\<lparr>req_method := meth, target := tgt,
                                 path := upto_pos qmark pq,
                                 query := (case qmark of None \<Rightarrow> [] | Some q \<Rightarrow> drop (q + 1) pq),
                                 version_major := major, version_minor := minor\<rparr>\<rparr>, True)))"

definition bad_value_char :: "char \<Rightarrow> bool" where
  "bad_value_char c \<longleftrightarrow> (byte c < 0x20 \<and> c \<noteq> HT) \<or> byte c = 0x7F"

text \<open>The flag \<open>into_headers\<close> is the address test \<^verbatim>\<open>&into == &req_.headers\<close>.\<close>

definition add_field :: "RequestParser \<Rightarrow> bool \<Rightarrow> string \<Rightarrow> string \<Rightarrow> RequestParser" where
  "add_field p into_headers name v =
     (if into_headers then p\<lparr>req := (req p)\<lparr>req_headers := h_add (req_headers (req p)) name v\<rparr>\<rparr>
      else p\<lparr>req := (req p)\<lparr>req_trailers := h_add (req_trailers (req p)) name v\<rparr>\<rparr>)"

definition parse_field_line :: "RequestParser \<Rightarrow> bool \<Rightarrow> string \<Rightarrow> RequestParser \<times> bool" where
  "parse_field_line p into_headers line =
     (case find_char CHR '':'' line of
        None \<Rightarrow> (fail p BadRequest (''header line without '' @ [CHR 0x27, CHR '':'', CHR 0x27]), False)
      | Some colon \<Rightarrow>
          let name = take colon line in
          if \<not> is_token name then (fail p BadRequest ''invalid header field name'', False)
          else
            let v = trim_ows (drop (colon + 1) line) in
            if list_ex bad_value_char v
            then (fail p BadRequest ''control character in header value'', False)
            else if into_headers \<and> iequals name ''Host'' \<and> h_has (req_headers (req p)) ''Host''
            then (fail p BadRequest ''duplicate Host header'', False)
            else (add_field p into_headers name v, True))"

definition set_expect :: "RequestParser \<Rightarrow> RequestParser" where
  "set_expect p =
     p\<lparr>req := (req p)\<lparr>expect_continue :=
        (case h_get (req_headers (req p)) ''Expect'' of
           None \<Rightarrow> False
         | Some expect \<Rightarrow> iequals (trim_ows expect) ''100-continue'' \<and> state p \<noteq> Done)\<rparr>\<rparr>"

definition finish_headers :: "RequestParser \<Rightarrow> RequestParser \<times> bool" where
  "finish_headers p =
     (let h = req_headers (req p) in
      if version_minor (req p) = 1 \<and> \<not> h_has h ''Host''
      then (fail p BadRequest ''HTTP/1.1 request without Host'', False)
      else
        (case (h_get h ''Transfer-Encoding'', h_get h ''Content-Length'') of
           (Some te, Some cl) \<Rightarrow>
             (fail p BadRequest ''both Transfer-Encoding and Content-Length'', False)
         | (Some te, None) \<Rightarrow>
             if is_http10 (req p)
             then (fail p BadRequest ''Transfer-Encoding in an HTTP/1.0 request'', False)
             else if \<not> iequals (trim_ows te) ''chunked''
             then (fail p NotImplemented ''unsupported transfer-coding'', False)
             else (set_expect (p\<lparr>state := ChunkSize\<rparr>), True)
         | (None, Some cl) \<Rightarrow>
             (case parse_content_length cl of
                None \<Rightarrow> (fail p BadRequest ''invalid Content-Length'', False)
              | Some len \<Rightarrow>
                  if len > max_body_bytes (limits p)
                  then (fail p PayloadTooLarge ''body exceeds limit'', False)
                  else (set_expect (p\<lparr>remaining := len,
                          state := (if len \<noteq> 0 then Body else Done)\<rparr>), True))
         | (None, None) \<Rightarrow> (set_expect (p\<lparr>state := Done\<rparr>), True)))"

fun hex_loop :: "string \<Rightarrow> u64 \<Rightarrow> u64 option" where
  "hex_loop [] v = Some v"
| "hex_loop (c # cs) v =
     (if hex_value c < 0 then None
      else hex_loop cs (push_bit 4 v OR word_of_int (hex_value c)))"

definition parse_chunk_size :: "RequestParser \<Rightarrow> string \<Rightarrow> RequestParser \<times> bool" where
  "parse_chunk_size p line =
     (let digits = trim_ows (upto_pos (find_char CHR '';'' line) line) in
      if digits = [] \<or> length digits > 16 then (fail p BadRequest ''invalid chunk size'', False)
      else (case hex_loop digits 0 of
          None \<Rightarrow> (fail p BadRequest ''invalid chunk size'', False)
        | Some w \<Rightarrow>
            let sz = unat w in
            if sz = 0 then (p\<lparr>state := InTrailers\<rparr>, True)
            else if sz > max_body_bytes (limits p) \<or>
                 szadd (length (req_body (req p))) sz > max_body_bytes (limits p)
            then (fail p PayloadTooLarge ''body exceeds limit'', False)
            else (p\<lparr>remaining := sz, state := ChunkData\<rparr>, True)))"

section \<open>The loop of feed\<close>

datatype Turn = Return RequestParser size_t | Continue RequestParser size_t

definition turn_request_line :: "RequestParser \<Rightarrow> string \<Rightarrow> Turn" where
  "turn_request_line p rest =
     (case find_str kCRLF rest of
        None \<Rightarrow>
          if length rest > szadd (max_request_line (limits p)) 1
          then Return (fail p UriTooLong ''request-line too long'') 0 else Return p 0
      | Some eol \<Rightarrow>
          if eol = 0 then Continue p (length kCRLF)
          else if eol > max_request_line (limits p)
          then Return (fail p UriTooLong ''request-line too long'') 0
          else (case parse_request_line p (take eol rest) of
                  (p', False) \<Rightarrow> Return p' 0
                | (p', True) \<Rightarrow> Continue (p'\<lparr>state := InHeaders\<rparr>) (eol + length kCRLF)))"

definition turn_field_line :: "RequestParser \<Rightarrow> string \<Rightarrow> Turn" where
  "turn_field_line p rest =
     (case find_str kCRLF rest of
        None \<Rightarrow>
          if szadd (szadd (header_bytes p) (length rest)) 1 > max_header_bytes (limits p)
          then Return (fail p HeaderFieldsTooLarge ''header section too large'') 0 else Return p 0
      | Some eol \<Rightarrow>
          let line_len = eol + length kCRLF in
          if szadd (header_bytes p) line_len > max_header_bytes (limits p)
          then Return (fail p HeaderFieldsTooLarge ''header section too large'') 0
          else
            let p1 = p\<lparr>header_bytes := szadd (header_bytes p) line_len\<rparr> in
            if eol = 0 then
              (if state p1 = InTrailers then Continue (p1\<lparr>state := Done\<rparr>) line_len
               else (case finish_headers p1 of
                       (p2, False) \<Rightarrow> Return p2 line_len
                     | (p2, True) \<Rightarrow> Continue p2 line_len))
            else
              let p2 = p1\<lparr>header_count := szadd (header_count p1) 1\<rparr> in
              if header_count p2 > max_header_count (limits p2)
              then Return (fail p2 HeaderFieldsTooLarge ''too many header fields'') line_len
              else (case parse_field_line p2 (state p2 = InHeaders) (take eol rest) of
                      (p3, False) \<Rightarrow> Return p3 line_len
                    | (p3, True) \<Rightarrow> Continue p3 line_len))"

definition turn_body :: "RequestParser \<Rightarrow> string \<Rightarrow> Turn" where
  "turn_body p rest =
     (if rest = [] then Return p 0
      else
        let n = min (length rest) (remaining p);
            p1 = p\<lparr>req := (req p)\<lparr>req_body := req_body (req p) @ take n rest\<rparr>,
                   remaining := remaining p - n\<rparr>
        in Continue (if remaining p1 = 0
                     then p1\<lparr>state := (if state p1 = Body then Done else ChunkDataEnd)\<rparr>
                     else p1) n)"

definition turn_chunk_data_end :: "RequestParser \<Rightarrow> string \<Rightarrow> Turn" where
  "turn_chunk_data_end p rest =
     (if length rest < length kCRLF then Return p 0
      else if take (length kCRLF) rest \<noteq> kCRLF
      then Return (fail p BadRequest ''missing CRLF after chunk data'') 0
      else Continue (p\<lparr>state := ChunkSize\<rparr>) (length kCRLF))"

definition turn_chunk_size :: "RequestParser \<Rightarrow> string \<Rightarrow> Turn" where
  "turn_chunk_size p rest =
     (case find_str kCRLF rest of
        None \<Rightarrow>
          if length rest > szadd (max_chunk_line (limits p)) 1
          then Return (fail p BadRequest ''chunk-size line too long'') 0 else Return p 0
      | Some eol \<Rightarrow>
          if eol > max_chunk_line (limits p)
          then Return (fail p BadRequest ''chunk-size line too long'') 0
          else (case parse_chunk_size p (take eol rest) of
                  (p', False) \<Rightarrow> Return p' 0
                | (p', True) \<Rightarrow> Continue p' (eol + length kCRLF)))"

definition turn :: "RequestParser \<Rightarrow> string \<Rightarrow> Turn" where
  "turn p rest =
     (case state p of
        RequestLine \<Rightarrow> turn_request_line p rest
      | InHeaders \<Rightarrow> turn_field_line p rest
      | InTrailers \<Rightarrow> turn_field_line p rest
      | Body \<Rightarrow> turn_body p rest
      | ChunkData \<Rightarrow> turn_body p rest
      | ChunkDataEnd \<Rightarrow> turn_chunk_data_end p rest
      | ChunkSize \<Rightarrow> turn_chunk_size p rest
      | Done \<Rightarrow> Return p 0
      | Error \<Rightarrow> Return p 0)"

lemmas turn_defs [step_defs] =
  turn_def turn_request_line_def turn_field_line_def turn_body_def turn_chunk_data_end_def
  turn_chunk_size_def

lemmas parser_defs [run_simps] =
  empty_request_def default_limits_def new_parser_def parser_done_def failed_def is_digit_def
  hex_value_def parse_decimal_def content_length_loop.simps parse_content_length_def
  valid_target_def starts_with_icase_def is_http10_def keep_alive_def reset_def take_request_def
  fail_def path_and_query_def well_formed_version_def parse_request_line_def bad_value_char_def
  add_field_def parse_field_line_def set_expect_def finish_headers_def parse_chunk_size_def turn_defs

subsection \<open>Every turn that continues makes progress\<close>

definition in_body :: "RequestParser \<Rightarrow> bool" where
  "in_body p \<longleftrightarrow> state p = Body \<or> state p = ChunkData"

lemma state_fail [simp]: "state (fail p e d) = Error" "error (fail p e d) = e"
  "limits (fail p e d) = limits p" "req (fail p e d) = req p"
  "header_bytes (fail p e d) = header_bytes p" "header_count (fail p e d) = header_count p"
  "remaining (fail p e d) = remaining p" "error_detail (fail p e d) = d"
  by (simp_all add: fail_def)

lemma set_expect_simps [simp]:
  "limits (set_expect p) = limits p" "state (set_expect p) = state p"
  "error (set_expect p) = error p" "error_detail (set_expect p) = error_detail p"
  "header_bytes (set_expect p) = header_bytes p" "header_count (set_expect p) = header_count p"
  "remaining (set_expect p) = remaining p"
  "req_headers (req (set_expect p)) = req_headers (req p)"
  "req_trailers (req (set_expect p)) = req_trailers (req p)"
  "req_body (req (set_expect p)) = req_body (req p)"
  "req_method (req (set_expect p)) = req_method (req p)" "target (req (set_expect p)) = target (req p)"
  "path (req (set_expect p)) = path (req p)" "query (req (set_expect p)) = query (req p)"
  "version_major (req (set_expect p)) = version_major (req p)"
  "version_minor (req (set_expect p)) = version_minor (req p)"
  by (simp_all add: set_expect_def)

lemma add_field_simps [simp]:
  "limits (add_field p b n v) = limits p" "state (add_field p b n v) = state p"
  "error (add_field p b n v) = error p" "error_detail (add_field p b n v) = error_detail p"
  "header_bytes (add_field p b n v) = header_bytes p"
  "header_count (add_field p b n v) = header_count p"
  "remaining (add_field p b n v) = remaining p"
  "req_body (req (add_field p b n v)) = req_body (req p)"
  "req_method (req (add_field p b n v)) = req_method (req p)"
  "target (req (add_field p b n v)) = target (req p)"
  "path (req (add_field p b n v)) = path (req p)" "query (req (add_field p b n v)) = query (req p)"
  "version_major (req (add_field p b n v)) = version_major (req p)"
  "version_minor (req (add_field p b n v)) = version_minor (req p)"
  "expect_continue (req (add_field p b n v)) = expect_continue (req p)"
  by (simp_all add: add_field_def)

lemma turn_body_Continue:
  assumes "turn_body p rest = Continue p' n"
  shows "n = min (length rest) (remaining p)" "rest \<noteq> []"
    "n = 0 \<Longrightarrow> \<not> in_body p'"
  using assms by (auto simp: turn_body_def Let_def in_body_def split: if_splits)

lemma turn_line_Continue:
  assumes "turn p rest = Continue p' n" and "\<not> in_body p"
  shows "2 \<le> n \<and> n \<le> length rest"
  using assms
  by (auto simp: turn_defs in_body_def Let_def
      split: State.splits option.splits if_splits prod.splits bool.splits dest!: find_str_bound)

lemma turn_Continue_le: "turn p rest = Continue p' n \<Longrightarrow> n \<le> length rest"
proof (cases "in_body p")
  case True
  moreover assume "turn p rest = Continue p' n"
  ultimately have "turn_body p rest = Continue p' n"
    by (auto simp: turn_def in_body_def)
  then show ?thesis using turn_body_Continue(1) [of p rest p' n] by simp
qed (use turn_line_Continue in blast)

definition turn_measure :: "RequestParser \<Rightarrow> nat \<Rightarrow> nat" where
  "turn_measure p len = 2 * len + (if in_body p then 1 else 0)"

lemma turn_Continue_progress:
  assumes "turn p rest = Continue p' n"
  shows "turn_measure p' (length rest - n) < turn_measure p (length rest)"
proof (cases "in_body p")
  case True
  with assms have b: "turn_body p rest = Continue p' n"
    by (auto simp: turn_def in_body_def)
  show ?thesis
    using turn_body_Continue [OF b] True by (cases "n = 0") (auto simp: turn_measure_def)
next
  case False
  then show ?thesis
    using turn_line_Continue [OF assms] by (auto simp: turn_measure_def)
qed

function feed_loop :: "RequestParser \<Rightarrow> string \<Rightarrow> size_t \<Rightarrow> RequestParser \<times> size_t" where
  "feed_loop p data consumed =
     (case turn p (drop consumed data) of
        Return p' n \<Rightarrow> (p', consumed + n)
      | Continue p' n \<Rightarrow> feed_loop p' data (consumed + n))"
  by pat_completeness auto
termination
  by (relation "measure (\<lambda>(p, data, consumed). turn_measure p (length data - consumed))")
    (auto dest!: turn_Continue_progress)

declare feed_loop.simps [simp del]

definition feed :: "RequestParser \<Rightarrow> string \<Rightarrow> RequestParser \<times> size_t" where
  "feed p data = feed_loop p data 0"

subsection \<open>Unfolding feed one turn at a time\<close>

lemma feed_loop_same_rest:
  "drop c data = drop c' data' \<Longrightarrow>
     fst (feed_loop p data c) = fst (feed_loop p data' c') \<and>
     snd (feed_loop p data c) + c' = snd (feed_loop p data' c') + c"
proof (induction p data c arbitrary: data' c' rule: feed_loop.induct)
  case (1 p data c)
  show ?case
  proof (cases "turn p (drop c data)")
    case (Return p' n)
    with "1.prems" show ?thesis
      by (simp add: feed_loop.simps [of p data c] feed_loop.simps [of p data' c'])
  next
    case (Continue p' n)
    have "drop (c + n) data = drop (c' + n) data'"
      using "1.prems" by (metis add.commute drop_drop)
    from "1.IH" [OF Continue this] Continue "1.prems" show ?thesis
      by (simp add: feed_loop.simps [of p data c] feed_loop.simps [of p data' c'])
  qed
qed

lemma feed_unfold:
  "feed p data =
     (case turn p data of
        Return p' n \<Rightarrow> (p', n)
      | Continue p' n \<Rightarrow> (fst (feed p' (drop n data)), n + snd (feed p' (drop n data))))"
proof (cases "turn p data")
  case (Return p' n)
  then show ?thesis by (simp add: feed_def feed_loop.simps [of p data 0])
next
  case (Continue p' n)
  have "feed_loop p' data n = (fst (feed p' (drop n data)), n + snd (feed p' (drop n data)))"
    using feed_loop_same_rest [of n data 0 "drop n data" p']
    by (simp add: feed_def prod_eq_iff)
  with Continue show ?thesis by (simp add: feed_def feed_loop.simps [of p data 0])
qed

lemma feed_Return: "turn p data = Return p' n \<Longrightarrow> feed p data = (p', n)"
  by (simp add: feed_unfold)

lemma feed_Continue:
  "turn p data = Continue p' n \<Longrightarrow>
     feed p data = (fst (feed p' (drop n data)), n + snd (feed p' (drop n data)))"
  by (simp add: feed_unfold [of p data])

text \<open>Induction along the turns of one call of \<open>feed\<close>.\<close>

lemma feed_induct [case_names turn]:
  assumes "\<And>p data. (\<And>p' n. turn p data = Continue p' n \<Longrightarrow> P p' (drop n data)) \<Longrightarrow> P p data"
  shows "P p data"
proof (induction "turn_measure p (length data)" arbitrary: p data rule: less_induct)
  case less
  show ?case
  proof (rule assms)
    fix p' n
    assume "turn p data = Continue p' n"
    from turn_Continue_progress [OF this] show "P p' (drop n data)"
      by (intro less) simp
  qed
qed

lemma turn_Return_le: "turn p rest = Return p' n \<Longrightarrow> n \<le> length rest"
  by (auto simp: turn_defs Let_def split: State.splits option.splits if_splits prod.splits
      bool.splits dest!: find_str_bound)

end
