(* ===== verification/Parser_Invariant.thy ===== *)
theory Parser_Invariant
  imports Request_Parser
begin

text \<open>
  Invariants of the request parser: what every reachable parser satisfies whatever bytes the
  peer sends. The outcome lemmas of the first section say what each member function can
  answer; the invariants are then proved turn by turn and lifted to \<open>feed\<close> and to every
  sequence of calls (the relation \<open>reachable\<close>).
\<close>

section \<open>Outcomes of the member functions\<close>

lemma path_and_query_length:
  "path_and_query meth tgt = Some pq \<Longrightarrow> tgt \<noteq> [] \<Longrightarrow> length pq \<le> length tgt"
  by (cases tgt) (auto simp: path_and_query_def Let_def split: if_splits option.splits)

lemma parse_request_line_outcome:
  obtains (bad) e d where "parse_request_line p line = (fail p e d, False)" "e \<noteq> NoError"
  | (ok) m t pt q mi where "parse_request_line p line =
        (p\<lparr>req := (req p)\<lparr>req_method := m, target := t, path := pt, query := q,
           version_major := 1, version_minor := mi\<rparr>\<rparr>, True)"
      "is_token m" "valid_target t" "length m + length t \<le> length line"
      "length pt + length q \<le> length t" "mi = 0 \<or> mi = 1"
proof (cases "snd (parse_request_line p line)")
  case False
  then show ?thesis
    by (intro bad [of "error (fst (parse_request_line p line))"
          "error_detail (fst (parse_request_line p line))"])
      (auto simp: parse_request_line_def Let_def split: if_splits option.splits)
next
  case True
  then obtain i j where i: "find_char SP line = Some i"
    and j: "find_char_from SP line (i + 1) = Some j"
    by (auto simp: parse_request_line_def Let_def split: if_splits option.splits)
  define m t v where "m = take i line" and "t = take (j - i - 1) (drop (i + 1) line)"
    and "v = drop (j + 1) line"
  note defs = m_def t_def v_def
  from True i j obtain pq where parts: "is_token m" "valid_target t" "well_formed_version v"
      "int (byte (v ! 5)) - 48 = 1" "int (byte (v ! 7)) - 48 \<le> 1"
      "path_and_query m t = Some pq"
      and eq: "parse_request_line p line =
        (p\<lparr>req := (req p)\<lparr>req_method := m, target := t, path := upto_pos (find_char CHR ''?'' pq) pq,
           query := (case find_char CHR ''?'' pq of None \<Rightarrow> [] | Some q \<Rightarrow> drop (q + 1) pq),
           version_major := 1, version_minor := int (byte (v ! 7)) - 48\<rparr>\<rparr>, True)"
    by (auto simp: parse_request_line_def Let_def defs split: if_splits option.splits)
  have "48 \<le> byte (v ! 7)"
    using parts(3) by (simp add: well_formed_version_def is_digit_def)
  moreover have "length m + length t \<le> length line"
    using find_char_less [OF i] find_char_from_le [OF j] by (auto simp: defs min_def)
  moreover have "length (upto_pos (find_char CHR ''?'' pq) pq) +
      length (case find_char CHR ''?'' pq of None \<Rightarrow> [] | Some q \<Rightarrow> drop (q + 1) pq) \<le> length t"
    using path_and_query_length [OF parts(6)] parts(2)
    by (auto simp: valid_target_def split: option.splits dest: find_char_less)
  ultimately show ?thesis
    using parts by (intro ok [OF eq]) auto
qed

lemma parse_field_line_outcome:
  obtains (bad) e d where "parse_field_line p into line = (fail p e d, False)" "e \<noteq> NoError"
  | (ok) n v where "parse_field_line p into line = (add_field p into n v, True)"
      "is_token n" "\<not> list_ex bad_value_char v" "length n + length v < length line"
      "into \<Longrightarrow> iequals n ''Host'' \<Longrightarrow> \<not> h_has (req_headers (req p)) ''Host''"
proof (cases "snd (parse_field_line p into line)")
  case False
  then show ?thesis
    by (intro bad [of "error (fst (parse_field_line p into line))"
          "error_detail (fst (parse_field_line p into line))"])
      (auto simp: parse_field_line_def Let_def split: if_splits option.splits)
next
  case True
  then obtain c where c: "find_char CHR '':'' line = Some c"
    by (auto simp: parse_field_line_def split: option.splits)
  have "length (take c line) + length (trim_ows (drop (c + 1) line)) < length line"
    using find_char_less [OF c] length_trim_ows [of "drop (c + 1) line"] by simp
  with True c show ?thesis
    by (intro ok [of "take c line" "trim_ows (drop (c + 1) line)"])
      (auto simp: parse_field_line_def Let_def split: if_splits)
qed

lemma finish_headers_outcome:
  obtains (bad) e d where "finish_headers p = (fail p e d, False)" "e \<noteq> NoError"
  | (chunked) te where "finish_headers p = (set_expect (p\<lparr>state := ChunkSize\<rparr>), True)"
      "h_get (req_headers (req p)) ''Transfer-Encoding'' = Some te" "iequals (trim_ows te) ''chunked''"
      "h_get (req_headers (req p)) ''Content-Length'' = None" "\<not> is_http10 (req p)"
      "version_minor (req p) = 1 \<longrightarrow> h_has (req_headers (req p)) ''Host''"
  | (sized) cl len where "finish_headers p =
        (set_expect (p\<lparr>remaining := len, state := (if len \<noteq> 0 then Body else Done)\<rparr>), True)"
      "h_get (req_headers (req p)) ''Transfer-Encoding'' = None"
      "h_get (req_headers (req p)) ''Content-Length'' = Some cl"
      "parse_content_length cl = Some len" "len \<le> max_body_bytes (limits p)"
      "version_minor (req p) = 1 \<longrightarrow> h_has (req_headers (req p)) ''Host''"
  | (none) "finish_headers p = (set_expect (p\<lparr>state := Done\<rparr>), True)"
      "h_get (req_headers (req p)) ''Transfer-Encoding'' = None"
      "h_get (req_headers (req p)) ''Content-Length'' = None"
      "version_minor (req p) = 1 \<longrightarrow> h_has (req_headers (req p)) ''Host''"
proof (cases "snd (finish_headers p)")
  case False
  then show ?thesis
    by (intro bad [of "error (fst (finish_headers p))" "error_detail (fst (finish_headers p))"])
      (auto simp: finish_headers_def Let_def split: if_splits option.splits)
next
  case True
  then have host: "version_minor (req p) = 1 \<longrightarrow> h_has (req_headers (req p)) ''Host''"
    by (auto simp: finish_headers_def Let_def split: if_splits)
  show ?thesis
  proof (cases "h_get (req_headers (req p)) ''Transfer-Encoding''")
    case (Some te)
    with True host show ?thesis
      by (intro chunked [of te])
        (auto simp: finish_headers_def Let_def split: if_splits option.splits)
  next
    case te: None
    show ?thesis
    proof (cases "h_get (req_headers (req p)) ''Content-Length''")
      case (Some cl)
      with True te obtain len where "parse_content_length cl = Some len"
        by (auto simp: finish_headers_def Let_def split: if_splits option.splits)
      with True host te Some show ?thesis
        by (intro sized [of len cl]) (auto simp: finish_headers_def Let_def split: if_splits)
    next
      case None
      with True host te show ?thesis
        by (intro none) (auto simp: finish_headers_def Let_def split: if_splits)
    qed
  qed
qed

lemma parse_chunk_size_outcome:
  obtains (bad) e d where "parse_chunk_size p line = (fail p e d, False)" "e \<noteq> NoError"
  | (last) "parse_chunk_size p line = (p\<lparr>state := InTrailers\<rparr>, True)"
  | (more) n where "parse_chunk_size p line = (p\<lparr>remaining := n, state := ChunkData\<rparr>, True)"
      "0 < n" "n \<le> max_body_bytes (limits p)"
      "szadd (length (req_body (req p))) n \<le> max_body_bytes (limits p)"
  by (cases "parse_chunk_size p line")
    (auto simp: parse_chunk_size_def Let_def split: if_splits option.splits)

section \<open>From one turn to feed and to every sequence of calls\<close>

fun turn_parser :: "Turn \<Rightarrow> RequestParser" where
  "turn_parser (Return p n) = p"
| "turn_parser (Continue p n) = p"

definition addressable :: "string \<Rightarrow> bool" where
  "addressable s \<longleftrightarrow> length s < 2 ^ 63"

lemma addressable_drop [simp]: "addressable s \<Longrightarrow> addressable (drop n s)"
  by (simp add: addressable_def)

lemma addressable_take [simp]: "addressable s \<Longrightarrow> addressable (take n s)"
  by (simp add: addressable_def)

lemma addressable_append: "addressable (s @ t) \<Longrightarrow> addressable s \<and> addressable t"
  by (simp add: addressable_def)

lemma feed_preserves:
  assumes "\<And>p rest. I p \<Longrightarrow> addressable rest \<Longrightarrow> I (turn_parser (turn p rest))"
    and "I p" and "addressable data"
  shows "I (fst (feed p data))"
  using assms(2,3)
proof (induction p data rule: feed_induct)
  case (turn p data)
  show ?case
  proof (cases "turn p data")
    case (Return p' n)
    with turn.prems assms(1) [of p data] show ?thesis by (simp add: feed_Return)
  next
    case (Continue p' n)
    with turn.prems assms(1) [of p data] turn.IH [OF Continue] show ?thesis
      by (simp add: feed_Continue)
  qed
qed

inductive reachable :: "ParserLimits \<Rightarrow> RequestParser \<Rightarrow> bool" for lim where
  start: "reachable lim (new_parser lim)"
| fed: "reachable lim p \<Longrightarrow> addressable data \<Longrightarrow> reachable lim (fst (feed p data))"
| taken: "reachable lim p \<Longrightarrow> reachable lim (snd (take_request p))"

lemma reachable_preserves:
  assumes "reachable lim p" and "I (new_parser lim)"
    and "\<And>p rest. I p \<Longrightarrow> addressable rest \<Longrightarrow> I (turn_parser (turn p rest))"
    and "\<And>p. I p \<Longrightarrow> I (reset p)"
  shows "I p"
  using assms(1)
proof (induction rule: reachable.induct)
  case (fed p data)
  then show ?case using feed_preserves [of I, OF assms(3)] by blast
qed (simp_all add: assms(2,4) take_request_def)

text \<open>The header turn, cut at its two kinds of line.\<close>

definition blank_line :: "RequestParser \<Rightarrow> size_t \<Rightarrow> Turn" where
  "blank_line p len =
     (if state p = InTrailers then Continue (p\<lparr>state := Done\<rparr>) len
      else (case finish_headers p of
              (p', False) \<Rightarrow> Return p' len
            | (p', True) \<Rightarrow> Continue p' len))"

definition field_line :: "RequestParser \<Rightarrow> string \<Rightarrow> size_t \<Rightarrow> Turn" where
  "field_line p line len =
     (if header_count p > max_header_count (limits p)
      then Return (fail p HeaderFieldsTooLarge ''too many header fields'') len
      else (case parse_field_line p (state p = InHeaders) line of
              (p', False) \<Rightarrow> Return p' len
            | (p', True) \<Rightarrow> Continue p' len))"

lemma turn_field_line_parts:
  "turn_field_line p rest =
     (case find_str kCRLF rest of
        None \<Rightarrow>
          if max_header_bytes (limits p) < szadd (szadd (header_bytes p) (length rest)) 1
          then Return (fail p HeaderFieldsTooLarge ''header section too large'') 0 else Return p 0
      | Some eol \<Rightarrow>
          let hb = szadd (header_bytes p) (eol + 2) in
          if max_header_bytes (limits p) < hb
          then Return (fail p HeaderFieldsTooLarge ''header section too large'') 0
          else if eol = 0 then blank_line (p\<lparr>header_bytes := hb\<rparr>) (eol + 2)
          else field_line (p\<lparr>header_bytes := hb, header_count := szadd (header_count p) 1\<rparr>)
                 (take eol rest) (eol + 2))"
  by (simp add: turn_field_line_def blank_line_def field_line_def Let_def split: option.split
      del: add_2_eq_Suc')

section \<open>Limits are never exceeded\<close>

definition limits_ok :: "ParserLimits \<Rightarrow> bool" where
  "limits_ok lim \<longleftrightarrow> max_request_line lim < 2 ^ 63 \<and> max_header_bytes lim < 2 ^ 63 \<and>
     max_header_count lim < 2 ^ 63 \<and> max_body_bytes lim < 2 ^ 63 \<and> max_chunk_line lim < 2 ^ 63"

definition field_bytes :: "Headers \<Rightarrow> nat" where
  "field_bytes h = sum_list (map (\<lambda>f. length (fst f) + length (snd f)) (field_list h))"

definition line_bytes :: "Request \<Rightarrow> nat" where
  "line_bytes r = length (req_method r) + length (target r) + length (path r) + length (query r)"

definition size_inv :: "RequestParser \<Rightarrow> bool" where
  "size_inv p \<longleftrightarrow> limits_ok (limits p) \<and>
     header_bytes p \<le> max_header_bytes (limits p) \<and>
     header_count p \<le> max_header_count (limits p) + (if state p = Error then 1 else 0) \<and>
     line_bytes (req p) \<le> 2 * max_request_line (limits p) \<and>
     field_bytes (req_headers (req p)) + field_bytes (req_trailers (req p)) \<le> header_bytes p \<and>
     size (req_headers (req p)) + size (req_trailers (req p)) \<le> header_count p \<and>
     length (req_body (req p)) + (if in_body p then remaining p else 0) \<le> max_body_bytes (limits p) \<and>
     (in_body p \<longrightarrow> 0 < remaining p)"

lemma put_field_bytes:
  "sum_list (map (\<lambda>f. length (fst f) + length (snd f)) (put_field (\<lambda>w. w @ '', '' @ v) n v fs))
     \<le> sum_list (map (\<lambda>f. length (fst f) + length (snd f)) fs) + length n + length v + 2"
  by (induction fs) auto

lemma put_field_length: "length (put_field g n v fs) \<le> length fs + 1"
  by (induction fs) auto

lemma field_bytes_add: "field_bytes (h_add h n v) \<le> field_bytes h + length n + length v + 2"
  using put_field_bytes [of v n "field_list h"] by (simp add: field_bytes_def h_add_fields)

lemma size_add: "size (h_add h n v) \<le> size h + 1"
  using put_field_length [of _ n v "field_list h"] by (simp add: size_Headers_def h_add_fields)

lemma size_inv_fail: "size_inv p \<Longrightarrow> size_inv (fail p e d)"
  by (auto simp: size_inv_def in_body_def split: if_splits)

lemma size_inv_add_field:
  assumes "size_inv p" and "state p = InHeaders \<or> state p = InTrailers"
    and "header_bytes p + length n + length v + 2 \<le> hb" "hb \<le> max_header_bytes (limits p)"
    and "header_count p + 1 \<le> max_header_count (limits p)"
  shows "size_inv (add_field (p\<lparr>header_bytes := hb, header_count := header_count p + 1\<rparr>) b n v)"
  using assms field_bytes_add [of "req_headers (req p)" n v] field_bytes_add [of "req_trailers (req p)" n v]
    size_add [of "req_headers (req p)" n v] size_add [of "req_trailers (req p)" n v]
  by (auto simp: size_inv_def in_body_def add_field_def line_bytes_def)

lemma size_inv_request_line:
  assumes inv: "size_inv p" and st: "state p = RequestLine"
  shows "size_inv (turn_parser (turn_request_line p rest))"
proof (cases "find_str kCRLF rest")
  case None
  then show ?thesis using inv by (simp add: turn_request_line_def size_inv_fail)
next
  case (Some eol)
  show ?thesis
  proof (cases "eol = 0 \<or> max_request_line (limits p) < eol")
    case True
    then show ?thesis using inv Some by (auto simp: turn_request_line_def size_inv_fail)
  next
    case False
    then show ?thesis
      using inv st Some
      by (cases rule: parse_request_line_outcome [of p "take eol rest"])
        (auto simp: turn_request_line_def size_inv_fail size_inv_def in_body_def line_bytes_def)
  qed
qed

text \<open>The sums of the header turn do not wrap.\<close>

lemma header_sums:
  assumes "size_inv p" and "addressable rest"
  shows "szadd (szadd (header_bytes p) (length rest)) 1 = header_bytes p + length rest + 1"
    and "n \<le> length rest \<Longrightarrow> szadd (header_bytes p) n = header_bytes p + n"
    and "szadd (header_count p) 1 = header_count p + 1"
  using assms by (auto simp: size_inv_def limits_ok_def addressable_def split: if_splits)

text \<open>The header turn with the sums written without wrap-around.\<close>

lemma turn_field_line_nat:
  assumes "size_inv p" and "addressable rest"
  shows "turn_field_line p rest =
     (case find_str kCRLF rest of
        None \<Rightarrow>
          if max_header_bytes (limits p) < header_bytes p + length rest + 1
          then Return (fail p HeaderFieldsTooLarge ''header section too large'') 0 else Return p 0
      | Some eol \<Rightarrow>
          if max_header_bytes (limits p) < header_bytes p + (eol + 2)
          then Return (fail p HeaderFieldsTooLarge ''header section too large'') 0
          else if eol = 0 then blank_line (p\<lparr>header_bytes := header_bytes p + (eol + 2)\<rparr>) (eol + 2)
          else field_line (p\<lparr>header_bytes := header_bytes p + (eol + 2),
                 header_count := header_count p + 1\<rparr>) (take eol rest) (eol + 2))"
proof (cases "find_str kCRLF rest")
  case None
  then show ?thesis
    using header_sums(1) [OF assms] by (simp add: turn_field_line_parts)
next
  case (Some eol)
  have "szadd (header_bytes p) (eol + 2) = header_bytes p + (eol + 2)"
    using find_str_bound [OF Some] header_sums(2) [OF assms] by simp
  with Some header_sums(3) [OF assms] show ?thesis
    by (simp add: turn_field_line_parts Let_def del: add_2_eq_Suc')
qed

lemma size_inv_finish_headers:
  assumes "size_inv p" and "state p = InHeaders" and "req_body (req p) = []"
  shows "size_inv (fst (finish_headers p))"
  using assms
  by (cases rule: finish_headers_outcome [of p])
    (auto simp: size_inv_fail size_inv_def in_body_def line_bytes_def)

lemma size_inv_field_line:
  assumes inv: "size_inv p" and st: "state p = InHeaders \<or> state p = InTrailers"
    and rest: "addressable rest"
    and fresh: "state p = InHeaders \<Longrightarrow> req_body (req p) = []"
  shows "size_inv (turn_parser (turn_field_line p rest))"
proof (cases "find_str kCRLF rest")
  case None
  then show ?thesis using inv by (simp add: turn_field_line_def size_inv_fail)
next
  case (Some eol)
  define hb where "hb = header_bytes p + (eol + 2)"
  have blank: "size_inv (turn_parser (blank_line (p\<lparr>header_bytes := hb\<rparr>) len))"
    if "hb \<le> max_header_bytes (limits p)" for len
  proof -
    have p1: "size_inv (p\<lparr>header_bytes := hb\<rparr>)"
      using that inv by (auto simp: hb_def size_inv_def in_body_def)
    show ?thesis
    proof (cases "state p = InTrailers")
      case True
      with p1 show ?thesis by (auto simp: blank_line_def size_inv_def in_body_def)
    next
      case False
      then have "size_inv (fst (finish_headers (p\<lparr>header_bytes := hb\<rparr>)))"
        using st fresh by (intro size_inv_finish_headers p1) auto
      with False show ?thesis by (auto simp: blank_line_def split: prod.split bool.split)
    qed
  qed
  have field: "size_inv (turn_parser (field_line
      (p\<lparr>header_bytes := hb, header_count := header_count p + 1\<rparr>) (take eol rest) len))"
    if hb: "hb \<le> max_header_bytes (limits p)" for len
  proof (cases "max_header_count (limits p) < header_count p + 1")
    case True
    then show ?thesis
      using inv st hb by (auto simp: field_line_def hb_def size_inv_def in_body_def)
  next
    case False
    let ?p2 = "p\<lparr>header_bytes := hb, header_count := header_count p + 1\<rparr>"
    have p2: "size_inv ?p2" using inv hb False by (auto simp: hb_def size_inv_def in_body_def)
    show ?thesis
      using False inv st hb size_inv_fail [OF p2]
      by (cases rule: parse_field_line_outcome [of ?p2 "state ?p2 = InHeaders" "take eol rest"])
        (auto simp: field_line_def hb_def intro!: size_inv_add_field [simplified])
  qed
  show ?thesis
    using Some inv blank [unfolded hb_def] field [unfolded hb_def]
    by (auto simp: turn_field_line_nat [OF inv rest] size_inv_fail not_less)
qed

lemma size_inv_body:
  assumes "size_inv p" and "in_body p"
  shows "size_inv (turn_parser (turn_body p rest))"
  using assms by (auto simp: turn_body_def Let_def size_inv_def in_body_def line_bytes_def min_def)

lemma size_inv_chunk_data_end:
  assumes "size_inv p" and "state p = ChunkDataEnd"
  shows "size_inv (turn_parser (turn_chunk_data_end p rest))"
  using assms by (auto simp: turn_chunk_data_end_def size_inv_fail size_inv_def in_body_def)

lemma size_inv_chunk_size:
  assumes "size_inv p" and "state p = ChunkSize"
  shows "size_inv (turn_parser (turn_chunk_size p rest))"
proof (cases "find_str kCRLF rest")
  case None
  then show ?thesis using assms by (simp add: turn_chunk_size_def size_inv_fail)
next
  case (Some eol)
  show ?thesis
    using assms Some
    by (cases rule: parse_chunk_size_outcome [of p "take eol rest"])
      (auto simp: turn_chunk_size_def size_inv_fail size_inv_def in_body_def limits_ok_def)
qed

section \<open>Fields and framing\<close>

text \<open>A stored field has a token for its name and no control character in its value.\<close>

fun wf_field :: "Field \<Rightarrow> bool" where
  "wf_field (n, v) \<longleftrightarrow> is_token n \<and> \<not> list_ex bad_value_char v"

definition wf_headers :: "Headers \<Rightarrow> bool" where
  "wf_headers h \<longleftrightarrow> distinct_names h \<and> list_all wf_field (field_list h)"

definition chunked_framing :: "Request \<Rightarrow> bool" where
  "chunked_framing r \<longleftrightarrow> \<not> is_http10 r \<and> h_get (req_headers r) ''Content-Length'' = None \<and>
     (case h_get (req_headers r) ''Transfer-Encoding'' of
        None \<Rightarrow> False | Some te \<Rightarrow> iequals (trim_ows te) ''chunked'')"

definition sized_framing :: "Request \<Rightarrow> nat \<Rightarrow> bool" where
  "sized_framing r n \<longleftrightarrow> h_get (req_headers r) ''Transfer-Encoding'' = None \<and>
     (case h_get (req_headers r) ''Content-Length'' of
        None \<Rightarrow> n = 0 | Some cl \<Rightarrow> parse_content_length cl = Some n)"

definition request_line_ok :: "Request \<Rightarrow> bool" where
  "request_line_ok r \<longleftrightarrow> is_token (req_method r) \<and> valid_target (target r) \<and> version_major r = 1 \<and>
     (version_minor r = 0 \<or> version_minor r = 1)"

definition host_ok :: "Request \<Rightarrow> bool" where
  "host_ok r \<longleftrightarrow> (version_minor r = 1 \<longrightarrow> h_has (req_headers r) ''Host'')"

text \<open>How the state of the parser, the headers and the body fit together.\<close>

definition frame_inv :: "RequestParser \<Rightarrow> bool" where
  "frame_inv p \<longleftrightarrow> wf_headers (req_headers (req p)) \<and> wf_headers (req_trailers (req p)) \<and>
     (case state p of
        RequestLine \<Rightarrow> req p = empty_request
      | InHeaders \<Rightarrow> request_line_ok (req p) \<and> req_body (req p) = [] \<and> req_trailers (req p) = no_headers
      | Body \<Rightarrow> request_line_ok (req p) \<and> host_ok (req p) \<and> req_trailers (req p) = no_headers \<and>
          sized_framing (req p) (length (req_body (req p)) + remaining p)
      | Done \<Rightarrow> request_line_ok (req p) \<and> host_ok (req p) \<and>
          (chunked_framing (req p) \<or>
           sized_framing (req p) (length (req_body (req p))) \<and> req_trailers (req p) = no_headers)
      | Error \<Rightarrow> error p \<noteq> NoError
      | _ \<Rightarrow> request_line_ok (req p) \<and> host_ok (req p) \<and> chunked_framing (req p)) \<and>
     (state p \<noteq> Error \<longrightarrow> error p = NoError)"

lemma wf_field_put:
  "list_all wf_field fs \<Longrightarrow> is_token n \<Longrightarrow> \<not> list_ex bad_value_char v \<Longrightarrow>
     list_all wf_field (put_field (\<lambda>w. w @ '', '' @ v) n v fs)"
  by (induction fs) (auto simp: bad_value_char_def)

lemma wf_headers_add:
  "wf_headers h \<Longrightarrow> is_token n \<Longrightarrow> \<not> list_ex bad_value_char v \<Longrightarrow> wf_headers (h_add h n v)"
  using wf_field_put [of "field_list h" n v] distinct_names_ops(3) [of h n v]
  by (simp add: wf_headers_def h_add_fields)

lemma wf_no_headers [simp]: "wf_headers no_headers"
  by (simp add: wf_headers_def distinct_names_ops)

lemma frame_inv_fail:
  "wf_headers (req_headers (req p)) \<Longrightarrow> wf_headers (req_trailers (req p)) \<Longrightarrow> e \<noteq> NoError \<Longrightarrow>
     frame_inv (fail p e d)"
  by (simp add: frame_inv_def)

lemma frame_inv_wf:
  "frame_inv p \<Longrightarrow> wf_headers (req_headers (req p)) \<and> wf_headers (req_trailers (req p))"
  by (simp add: frame_inv_def)

lemma frame_inv_counters [simp]:
  "frame_inv (p\<lparr>header_bytes := x\<rparr>) = frame_inv p"
  "frame_inv (p\<lparr>header_count := x\<rparr>) = frame_inv p"
  by (cases "state p"; simp add: frame_inv_def)+

lemma framing_frame [simp]:
  "chunked_framing (r\<lparr>req_body := b\<rparr>) = chunked_framing r"
  "sized_framing (r\<lparr>req_body := b\<rparr>) n = sized_framing r n"
  "request_line_ok (r\<lparr>req_body := b\<rparr>) = request_line_ok r"
  "host_ok (r\<lparr>req_body := b\<rparr>) = host_ok r"
  "chunked_framing (r\<lparr>req_trailers := t\<rparr>) = chunked_framing r"
  "request_line_ok (r\<lparr>req_trailers := t\<rparr>) = request_line_ok r"
  "host_ok (r\<lparr>req_trailers := t\<rparr>) = host_ok r"
  "request_line_ok (r\<lparr>req_headers := h\<rparr>) = request_line_ok r"
  "chunked_framing (r\<lparr>expect_continue := x\<rparr>) = chunked_framing r"
  "sized_framing (r\<lparr>expect_continue := x\<rparr>) n = sized_framing r n"
  "request_line_ok (r\<lparr>expect_continue := x\<rparr>) = request_line_ok r"
  "host_ok (r\<lparr>expect_continue := x\<rparr>) = host_ok r"
  by (simp_all add: chunked_framing_def sized_framing_def request_line_ok_def host_ok_def is_http10_def)

lemma frame_inv_request_line:
  assumes "frame_inv p" and "state p = RequestLine"
  shows "frame_inv (turn_parser (turn_request_line p rest))"
proof (cases "find_str kCRLF rest")
  case None
  then show ?thesis using assms by (auto simp: turn_request_line_def frame_inv_def)
next
  case (Some eol)
  then show ?thesis
    using assms
    by (cases rule: parse_request_line_outcome [of p "take eol rest"])
      (auto simp: turn_request_line_def frame_inv_def request_line_ok_def empty_request_def)
qed

lemma frame_inv_finish_headers:
  assumes "frame_inv p" and "state p = InHeaders"
  shows "frame_inv (fst (finish_headers p))"
  using assms
  by (cases rule: finish_headers_outcome [of p])
    (auto simp: frame_inv_def set_expect_def chunked_framing_def sized_framing_def host_ok_def
      request_line_ok_def is_http10_def)

lemma frame_inv_blank_line:
  assumes "frame_inv p" and "state p = InHeaders \<or> state p = InTrailers"
  shows "frame_inv (turn_parser (blank_line p len))"
proof (cases "state p = InTrailers")
  case True
  then show ?thesis using assms by (simp add: blank_line_def frame_inv_def)
next
  case False
  then have "frame_inv (fst (finish_headers p))"
    using assms by (intro frame_inv_finish_headers) auto
  with False show ?thesis by (auto simp: blank_line_def split: prod.split bool.split)
qed

lemma frame_inv_add_field:
  assumes "frame_inv p" and "is_token n" "\<not> list_ex bad_value_char v"
    and "b \<and> state p = InHeaders \<or> \<not> b \<and> state p = InTrailers"
  shows "frame_inv (add_field p b n v)"
  using assms by (auto simp: add_field_def frame_inv_def wf_headers_add)

lemma frame_inv_field_line:
  assumes inv: "frame_inv p" and st: "state p = InHeaders \<or> state p = InTrailers"
  shows "frame_inv (turn_parser (field_line p line len))"
proof (cases "max_header_count (limits p) < header_count p")
  case True
  then show ?thesis
    using frame_inv_wf [OF inv] by (simp add: field_line_def frame_inv_fail)
next
  case False
  then show ?thesis
    using inv st frame_inv_wf [OF inv]
    by (cases rule: parse_field_line_outcome [of p "state p = InHeaders" line])
      (auto simp: field_line_def frame_inv_fail intro!: frame_inv_add_field)
qed

lemma frame_inv_header_turn:
  assumes inv: "frame_inv p" and st: "state p = InHeaders \<or> state p = InTrailers"
  shows "frame_inv (turn_parser (turn_field_line p rest))"
  using assms frame_inv_wf [OF inv]
  by (simp add: turn_field_line_parts Let_def frame_inv_fail frame_inv_blank_line
      frame_inv_field_line split: option.split)

lemma frame_inv_body:
  assumes "frame_inv p" and "in_body p"
  shows "frame_inv (turn_parser (turn_body p rest))"
  using assms by (auto simp: turn_body_def Let_def frame_inv_def in_body_def min_def)

lemma frame_inv_chunk_data_end:
  assumes "frame_inv p" and "state p = ChunkDataEnd"
  shows "frame_inv (turn_parser (turn_chunk_data_end p rest))"
  using assms by (auto simp: turn_chunk_data_end_def frame_inv_def)

lemma frame_inv_chunk_size:
  assumes "frame_inv p" and "state p = ChunkSize"
  shows "frame_inv (turn_parser (turn_chunk_size p rest))"
proof (cases "find_str kCRLF rest")
  case None
  then show ?thesis using assms by (auto simp: turn_chunk_size_def frame_inv_def)
next
  case (Some eol)
  then show ?thesis
    using assms
    by (cases rule: parse_chunk_size_outcome [of p "take eol rest"])
      (auto simp: turn_chunk_size_def frame_inv_def)
qed

lemma frame_inv_turn: "frame_inv p \<Longrightarrow> frame_inv (turn_parser (turn p rest))"
  by (cases "state p")
    (simp_all add: turn_def frame_inv_request_line frame_inv_header_turn frame_inv_body in_body_def
      frame_inv_chunk_data_end frame_inv_chunk_size)

section \<open>The invariant of the parser\<close>

definition parser_inv :: "RequestParser \<Rightarrow> bool" where
  "parser_inv p \<longleftrightarrow> size_inv p \<and> frame_inv p"

lemma parser_inv_turn:
  assumes "parser_inv p" and "addressable rest"
  shows "parser_inv (turn_parser (turn p rest))"
proof -
  have inv: "size_inv p" "frame_inv p" using assms by (simp_all add: parser_inv_def)
  then have fresh: "req_body (req p) = []" if "state p = InHeaders"
    using that by (simp add: frame_inv_def)
  have "size_inv (turn_parser (turn p rest))"
  proof (cases "state p")
    case InHeaders
    then show ?thesis using size_inv_field_line [OF inv(1) _ assms(2) fresh] by (simp add: turn_def)
  next
    case InTrailers
    then show ?thesis using size_inv_field_line [OF inv(1) _ assms(2)] by (simp add: turn_def)
  qed (use inv(1) in \<open>simp_all add: turn_def in_body_def size_inv_request_line size_inv_body
        size_inv_chunk_data_end size_inv_chunk_size\<close>)
  with frame_inv_turn inv show ?thesis by (simp add: parser_inv_def)
qed

lemma parser_inv_new: "limits_ok lim \<Longrightarrow> parser_inv (new_parser lim)"
  by (simp add: parser_inv_def size_inv_def frame_inv_def new_parser_def empty_request_def
      line_bytes_def field_bytes_def size_Headers_def in_body_def)

lemma reset_new: "reset p = new_parser (limits p)"
  by (simp add: reset_def new_parser_def)

lemma parser_inv_limits: "parser_inv p \<Longrightarrow> limits_ok (limits p)"
  by (simp add: parser_inv_def size_inv_def)

lemma parser_inv_reset: "parser_inv p \<Longrightarrow> parser_inv (reset p)"
  by (simp add: reset_new parser_inv_new parser_inv_limits)

lemma parser_inv_feed: "parser_inv p \<Longrightarrow> addressable data \<Longrightarrow> parser_inv (fst (feed p data))"
  using feed_preserves [of parser_inv, OF parser_inv_turn] by blast

lemma reachable_inv: "reachable lim p \<Longrightarrow> limits_ok lim \<Longrightarrow> parser_inv p"
  by (rule reachable_preserves [of lim p parser_inv])
    (simp_all add: parser_inv_new parser_inv_turn parser_inv_reset)

section \<open>The limits of a parser never change\<close>

lemma limits_field_turn: "limits (turn_parser (turn_field_line p rest)) = limits p"
proof -
  have blank: "limits (turn_parser (blank_line q len)) = limits q" for q len
    by (cases rule: finish_headers_outcome [of q]) (auto simp: blank_line_def)
  have field: "limits (turn_parser (field_line q line len)) = limits q" for q line len
    by (cases rule: parse_field_line_outcome [of q "state q = InHeaders" line])
      (auto simp: field_line_def)
  show ?thesis by (simp add: turn_field_line_parts Let_def blank field split: option.split)
qed

lemma limits_turn: "limits (turn_parser (turn p rest)) = limits p"
proof (cases "state p")
  case RequestLine
  show ?thesis
    by (cases "find_str kCRLF rest";
        cases rule: parse_request_line_outcome [of p "take (the (find_str kCRLF rest)) rest"])
      (auto simp: RequestLine turn_def turn_request_line_def)
next
  case ChunkSize
  show ?thesis
    by (cases "find_str kCRLF rest";
        cases rule: parse_chunk_size_outcome [of p "take (the (find_str kCRLF rest)) rest"])
      (auto simp: ChunkSize turn_def turn_chunk_size_def)
qed (simp_all add: turn_def limits_field_turn turn_body_def turn_chunk_data_end_def Let_def)

lemma limits_feed: "limits (fst (feed p data)) = limits p"
proof (induction p data rule: feed_induct)
  case (turn p data)
  show ?case
    using turn.IH limits_turn [of p data]
    by (cases "turn p data") (auto simp: feed_Return feed_Continue)
qed

lemma limits_reset: "limits (reset p) = limits p"
  by (simp add: reset_def)

lemma reachable_limits: "reachable lim p \<Longrightarrow> limits p = lim"
  by (induction rule: reachable.induct)
    (simp_all add: limits_feed take_request_def limits_reset new_parser_def)

end
