(* ===== verification/Byte_Streams.thy ===== *)
theory Byte_Streams
  imports Prelude
begin

text \<open>
  Contracts of components that receive a byte stream piece by piece: the checksum, the request
  parser with its caller, the differential fuzz run and the input buffer. Each of them
  interprets one of these locales on its own definitions.
\<close>

section \<open>Consumers of a stream\<close>

text \<open>
  A consumer of a byte stream: \<open>push s a\<close> hands it the piece \<open>a\<close>, and \<open>ok s n\<close> says that it
  can take \<open>n\<close> more bytes. If two pushes are one push of the joined pieces, the way a
  stream is cut into pieces does not matter.
\<close>

locale segmented =
  fixes push :: "'s \<Rightarrow> 'a list \<Rightarrow> 's"
    and ok :: "'s \<Rightarrow> nat \<Rightarrow> bool"
  assumes push_push: "ok s (length a + length b) \<Longrightarrow> push (push s a) b = push s (a @ b)"
    and push_Nil: "ok s n \<Longrightarrow> push s [] = s"
    and ok_push: "ok s (length a + n) \<Longrightarrow> ok (push s a) n"
    and ok_le: "ok s n \<Longrightarrow> m \<le> n \<Longrightarrow> ok s m"
begin

lemma foldl_push: "ok s (length (concat xs)) \<Longrightarrow> foldl push s xs = push s (concat xs)"
proof (induction xs arbitrary: s)
  case Nil
  then show ?case by (simp add: push_Nil)
next
  case (Cons x xs)
  then have ok: "ok s (length x + length (concat xs))" by simp
  then have "foldl push (push s x) xs = push (push s x) (concat xs)"
    by (intro Cons.IH ok_push)
  with push_push [OF ok] show ?case by simp
qed

lemma segmentation_independent:
  "concat xs = concat ys \<Longrightarrow> ok s (length (concat xs)) \<Longrightarrow> foldl push s xs = foldl push s ys"
  by (simp add: foldl_push)

end

text \<open>
  A parser that reports how many bytes it used, as \<^verbatim>\<open>RequestParser::feed\<close> does. Its caller
  keeps the unused tail and presents it again in front of the next read.
\<close>

locale incremental =
  fixes step :: "'s \<Rightarrow> 'a list \<Rightarrow> 's \<times> nat"
    and inv :: "'s \<Rightarrow> bool"
    and cap :: nat
  assumes step_split: "inv s \<Longrightarrow> length (a @ b) < cap \<Longrightarrow>
      step s (a @ b) = (let (s', n) = step s a; (t, m) = step s' (drop n a @ b) in (t, n + m))"
    and step_le: "inv s \<Longrightarrow> length a < cap \<Longrightarrow> snd (step s a) \<le> length a"
    and step_inv: "inv s \<Longrightarrow> length a < cap \<Longrightarrow> inv (fst (step s a))"
begin

definition present :: "'s \<times> 'a list \<Rightarrow> 'a list \<Rightarrow> 's \<times> 'a list" where
  "present sb piece = (let data = snd sb @ piece; (s', n) = step (fst sb) data in (s', drop n data))"

definition settled :: "'s \<times> 'a list \<Rightarrow> nat \<Rightarrow> bool" where
  "settled sb n \<longleftrightarrow> inv (fst sb) \<and> step (fst sb) (snd sb) = (fst sb, 0) \<and> length (snd sb) + n < cap"

lemma step_settles:
  assumes "inv s" and "length a < cap"
  shows "step (fst (step s a)) (drop (snd (step s a)) a) = (fst (step s a), 0)"
  using step_split [of s a "[]"] assms by (auto simp: Let_def case_prod_unfold prod_eq_iff)

lemma present_present:
  assumes "settled sb (length a + length b)"
  shows "present (present sb a) b = present sb (a @ b)"
proof -
  obtain s buf where sb: "sb = (s, buf)" by (cases sb)
  obtain s' n where n: "step s (buf @ a) = (s', n)" by (cases "step s (buf @ a)")
  obtain t m where m: "step s' (drop n (buf @ a) @ b) = (t, m)" by (cases "step s' (drop n (buf @ a) @ b)")
  have "inv s" "length ((buf @ a) @ b) < cap" "length (buf @ a) < cap"
    using assms by (simp_all add: settled_def sb)
  then have "step s ((buf @ a) @ b) = (t, n + m)" and "n \<le> length (buf @ a)"
    using step_split [of s "buf @ a" b] step_le [of s "buf @ a"] n m by auto
  moreover from this have "drop m (drop n (buf @ a) @ b) = drop (n + m) ((buf @ a) @ b)"
    by (metis add.commute append_eq_conv_conj append_take_drop_id drop_append drop_drop
        diff_is_0_eq' drop0)
  ultimately show ?thesis using n m by (simp add: present_def sb del: drop_append)
qed

lemma settled_present:
  assumes "settled sb (length a + n)"
  shows "settled (present sb a) n"
  using assms step_settles [of "fst sb" "snd sb @ a"] step_inv [of "fst sb" "snd sb @ a"]
  by (auto simp: settled_def present_def case_prod_unfold Let_def)

end

sublocale incremental \<subseteq> pushed: segmented present settled
proof
  fix s n m a b
  show "settled s (length a + length b) \<Longrightarrow> present (present s a) b = present s (a @ b)"
    by (rule present_present)
  show "settled s n \<Longrightarrow> present s [] = s"
    by (simp add: settled_def present_def case_prod_unfold Let_def prod_eq_iff)
  show "settled s (length a + n) \<Longrightarrow> settled (present s a) n"
    by (rule settled_present)
  show "settled s n \<Longrightarrow> m \<le> n \<Longrightarrow> settled s m"
    by (simp add: settled_def)
qed

section \<open>Byte queues\<close>

text \<open>
  A buffer between a reader and a parser: \<open>fill q room bytes\<close> makes room and appends what was
  read, \<open>drop_front q n\<close> removes what the parser used. \<open>fill\<close> answers \<^term>\<open>None\<close> if making room
  does not end; the law says that it ends whenever the sizes fit below \<open>cap\<close>.
\<close>

locale byte_queue =
  fixes contents :: "'q \<Rightarrow> 'a list"
    and fill :: "'q \<Rightarrow> nat \<Rightarrow> 'a list \<Rightarrow> 'q option"
    and drop_front :: "'q \<Rightarrow> nat \<Rightarrow> 'q"
    and inv :: "'q \<Rightarrow> bool"
    and cap :: nat
  assumes fill_law: "inv q \<Longrightarrow> length bytes \<le> room \<Longrightarrow> length (contents q) + room \<le> cap \<Longrightarrow>
      \<exists>q'. fill q room bytes = Some q' \<and> inv q' \<and> contents q' = contents q @ bytes"
    and drop_law: "inv q \<Longrightarrow> n \<le> length (contents q) \<Longrightarrow>
      inv (drop_front q n) \<and> contents (drop_front q n) = drop n (contents q)"
begin

text \<open>Reads into the buffer with nothing consumed in between: the pieces arrive in order.\<close>

fun fill_all :: "'q \<Rightarrow> nat \<Rightarrow> 'a list list \<Rightarrow> 'q option" where
  "fill_all q room [] = Some q"
| "fill_all q room (b # bs) = Option.bind (fill q room b) (\<lambda>q'. fill_all q' room bs)"

lemma fill_all_contents:
  assumes "inv q" and "list_all (\<lambda>b. length b \<le> room) bs"
    and "length (contents q) + length (concat bs) + room \<le> cap"
  shows "\<exists>q'. fill_all q room bs = Some q' \<and> inv q' \<and> contents q' = contents q @ concat bs"
  using assms
proof (induction bs arbitrary: q)
  case (Cons b bs)
  then obtain q1 where q1: "fill q room b = Some q1" "inv q1" "contents q1 = contents q @ b"
    using fill_law [of q b room] by auto
  with Cons show ?case using Cons.IH [of q1] by auto
qed simp

text \<open>What a step of an incremental parser sees: the old contents followed by the new bytes; what
  stays is the part it did not use.\<close>

lemma fill_then_drop:
  assumes "inv q" and "length bytes \<le> room" and "length (contents q) + room \<le> cap"
    and "n \<le> length (contents q @ bytes)"
  shows "\<exists>q'. fill q room bytes = Some q' \<and> inv (drop_front q' n) \<and>
    contents q' = contents q @ bytes \<and> contents (drop_front q' n) = drop n (contents q @ bytes)"
  using fill_law [OF assms(1-3)] drop_law [of _ n] assms(4) by fastforce

end

end
