(* ===== verification/Parser_Segmentation.thy ===== *)
theory Parser_Segmentation
  imports Parser_Invariant Byte_Streams
begin

text \<open>
  The result of parsing never depends on how the input was split, which
  \<^verbatim>\<open>src/src/http/request_parser.hpp\<close> promises and \<^verbatim>\<open>src/fuzz/fuzz_request_parser.cpp\<close> tests. The
  first section proves the law of one split; with it the parser is an instance of the locale
  \<open>incremental\<close>, which gives the independence of any segmentation.
\<close>

section \<open>One turn on a longer input\<close>

lemma blank_line_Return: "blank_line p len = Return p' n \<Longrightarrow> state p' = Error"
  by (cases rule: finish_headers_outcome [of p]) (auto simp: blank_line_def split: if_splits)

lemma field_line_Return: "field_line p line len = Return p' n \<Longrightarrow> state p' = Error"
  by (cases rule: parse_field_line_outcome [of p "state p = InHeaders" line])
    (auto simp: field_line_def split: if_splits)

lemma turn_field_line_Return:
  "turn_field_line p a = Return p' n \<Longrightarrow> p' = p \<and> n = 0 \<or> state p' = Error"
  by (auto simp: turn_field_line_parts Let_def split: option.splits if_splits
      dest: blank_line_Return field_line_Return)

text \<open>A turn that returns either waits, having changed nothing, or fails.\<close>

lemma turn_Return_cases: "turn p a = Return p' n \<Longrightarrow> p' = p \<and> n = 0 \<or> state p' = Error"
proof (cases "state p")
  case RequestLine
  assume "turn p a = Return p' n"
  with RequestLine show ?thesis
    by (cases "find_str kCRLF a";
        cases rule: parse_request_line_outcome [of p "take (the (find_str kCRLF a)) a"])
      (auto simp: turn_def turn_request_line_def split: if_splits)
next
  case ChunkSize
  assume "turn p a = Return p' n"
  with ChunkSize show ?thesis
    by (cases "find_str kCRLF a";
        cases rule: parse_chunk_size_outcome [of p "take (the (find_str kCRLF a)) a"])
      (auto simp: turn_def turn_chunk_size_def split: if_splits)
qed (auto simp: turn_def turn_body_def turn_chunk_data_end_def Let_def split: if_splits
      dest: turn_field_line_Return)

text \<open>A complete unit is the same unit in a longer input.\<close>

lemma find_line_append:
  assumes "find_str kCRLF a = Some eol"
  shows "find_str kCRLF (a @ b) = Some eol" "take eol (a @ b) = take eol a"
  using find_str_append_Some [OF assms] find_str_bound [OF assms] by simp_all

lemma turn_line_append:
  assumes "find_str kCRLF a = Some eol"
  shows "turn_request_line p (a @ b) = turn_request_line p a"
    and "turn_chunk_size p (a @ b) = turn_chunk_size p a"
    and "turn_field_line p (a @ b) = turn_field_line p a"
  by (simp_all only: turn_request_line_def turn_chunk_size_def turn_field_line_def
      find_line_append [OF assms] assms option.case)

text \<open>An unterminated line that is already too long is too long when its end arrives.\<close>

lemma unterminated_append:
  assumes "find_str kCRLF a = None" and "find_str kCRLF (a @ b) = Some eol"
  shows "length a \<le> eol + 1"
  using find_str_append_None [OF assms] by simp

lemma turn_request_line_append:
  assumes "turn_request_line p a = Return p' n" "state p' = Error" "state p \<noteq> Error"
    and "limits_ok (limits p)"
  shows "turn_request_line p (a @ b) = Return p' n"
proof (cases "find_str kCRLF a")
  case (Some eol)
  with assms(1) show ?thesis by (simp add: turn_line_append)
next
  case None
  with assms have long: "length a > max_request_line (limits p) + 1"
      and r: "Return p' n = Return (fail p UriTooLong ''request-line too long'') 0"
    by (auto simp: turn_request_line_def limits_ok_def split: if_splits)
  show ?thesis
  proof (cases "find_str kCRLF (a @ b)")
    case (Some eol)
    with unterminated_append [OF None Some] long r show ?thesis
      by (simp add: turn_request_line_def)
  next
    case None
    with long r assms(4) show ?thesis by (simp add: turn_request_line_def limits_ok_def)
  qed
qed

lemma turn_chunk_size_append:
  assumes "turn_chunk_size p a = Return p' n" "state p' = Error" "state p \<noteq> Error"
    and "limits_ok (limits p)"
  shows "turn_chunk_size p (a @ b) = Return p' n"
proof (cases "find_str kCRLF a")
  case (Some eol)
  with assms(1) show ?thesis by (simp add: turn_line_append)
next
  case None
  with assms have long: "length a > max_chunk_line (limits p) + 1"
      and r: "Return p' n = Return (fail p BadRequest ''chunk-size line too long'') 0"
    by (auto simp: turn_chunk_size_def limits_ok_def split: if_splits)
  show ?thesis
  proof (cases "find_str kCRLF (a @ b)")
    case (Some eol)
    with unterminated_append [OF None Some] long r show ?thesis
      by (simp add: turn_chunk_size_def)
  next
    case None
    with long r assms(4) show ?thesis by (simp add: turn_chunk_size_def limits_ok_def)
  qed
qed

lemma turn_field_line_append:
  assumes ret: "turn_field_line p a = Return p' n" "state p' = Error" "state p \<noteq> Error"
    and inv: "size_inv p" and ab: "addressable (a @ b)"
  shows "turn_field_line p (a @ b) = Return p' n"
proof (cases "find_str kCRLF a")
  case (Some eol)
  with ret(1) show ?thesis by (simp add: turn_line_append)
next
  case None
  have a: "addressable a" using addressable_append [OF ab] by simp
  from None ret have large: "max_header_bytes (limits p) < header_bytes p + length a + 1"
      and r: "Return p' n = Return (fail p HeaderFieldsTooLarge ''header section too large'') 0"
    by (auto simp: turn_field_line_nat [OF inv a] split: if_splits)
  show ?thesis
  proof (cases "find_str kCRLF (a @ b)")
    case (Some eol)
    with unterminated_append [OF None Some] large r show ?thesis
      by (simp add: turn_field_line_nat [OF inv ab])
  next
    case None
    with large r show ?thesis by (simp add: turn_field_line_nat [OF inv ab])
  qed
qed

lemma turn_Return_append:
  assumes "turn p a = Return p' n" "state p' = Error" "state p \<noteq> Error"
    and "parser_inv p" "addressable (a @ b)"
  shows "turn p (a @ b) = Return p' n"
proof -
  have inv: "size_inv p" "limits_ok (limits p)"
    using assms(4) by (simp_all add: parser_inv_def size_inv_def)
  show ?thesis
  proof (cases "state p")
    case ChunkDataEnd
    with assms show ?thesis by (auto simp: turn_def turn_chunk_data_end_def split: if_splits)
  qed (use assms(1-3,5) inv in \<open>simp_all add: turn_def turn_request_line_append
        turn_chunk_size_append turn_field_line_append turn_body_def Let_def split: if_splits\<close>)
qed

lemma turn_Continue_line:
  assumes "turn p a = Continue p' n"
    and "state p = RequestLine \<or> state p = ChunkSize \<or> state p = InHeaders \<or> state p = InTrailers"
  shows "\<exists>eol. find_str kCRLF a = Some eol"
  using assms
  by (cases "find_str kCRLF a")
    (auto simp: turn_def turn_request_line_def turn_chunk_size_def turn_field_line_def split: if_splits)

lemma turn_Continue_append:
  assumes "turn p a = Continue p' n" "\<not> in_body p"
  shows "turn p (a @ b) = Continue p' n"
proof (cases "state p = RequestLine \<or> state p = ChunkSize \<or> state p = InHeaders \<or> state p = InTrailers")
  case True
  from turn_Continue_line [OF assms(1) this] obtain eol where "find_str kCRLF a = Some eol" ..
  with True assms(1) show ?thesis by (auto simp: turn_def turn_line_append)
next
  case False
  with assms show ?thesis
    by (cases "state p") (auto simp: turn_def in_body_def turn_chunk_data_end_def split: if_splits)
qed

text \<open>A body that is cut short by the end of the input goes on where it stopped.\<close>

lemma turn_body_append:
  assumes "in_body p" "length a < remaining p" "a \<noteq> []"
  shows "\<exists>p'. turn p a = Continue p' (length a) \<and> in_body p' \<and>
     feed p' [] = (p', 0) \<and>
     (b \<noteq> [] \<longrightarrow> (\<exists>q m. turn p (a @ b) = Continue q (length a + m) \<and> turn p' b = Continue q m))"
proof -
  define p' where "p' = p\<lparr>req := (req p)\<lparr>req_body := req_body (req p) @ a\<rparr>,
    remaining := remaining p - length a\<rparr>"
  have st: "state p' = state p" by (simp add: p'_def)
  have body: "turn q x = turn_body q x" if "state q = state p" for q x
    using that assms(1) by (auto simp: turn_def in_body_def)
  have "turn p a = Continue p' (length a)"
    using assms by (simp add: body turn_body_def p'_def Let_def)
  moreover have "in_body p'" using assms(1) st by (simp add: in_body_def)
  moreover have "feed p' [] = (p', 0)"
    by (rule feed_Return) (simp add: body [OF st] turn_body_def)
  moreover have "\<exists>q m. turn p (a @ b) = Continue q (length a + m) \<and> turn p' b = Continue q m"
    if "b \<noteq> []"
  proof -
    have m: "min (length (a @ b)) (remaining p) =
        length a + min (length b) (remaining p - length a)"
      using assms(2) by simp
    show ?thesis
      using that assms st m
      by (intro exI [of _ "turn_parser (turn p' b)"] exI [of _ "min (length b) (remaining p')"])
        (simp add: body turn_body_def Let_def p'_def)
  qed
  ultimately show ?thesis by blast
qed

section \<open>The law of one split\<close>

lemma turn_Done_Error: "state p = Done \<or> state p = Error \<Longrightarrow> feed p x = (p, 0)"
  by (rule feed_Return) (auto simp: turn_def)

lemma feed_split:
  assumes "parser_inv p" and "addressable (a @ b)"
  shows "feed p (a @ b) =
    (let (p', n) = feed p a; (q, m) = feed p' (drop n a @ b) in (q, n + m))"
  using assms
proof (induction p a rule: feed_induct)
  case (turn p a)
  show ?case
  proof (cases "turn p a")
    case (Return p' n)
    show ?thesis
    proof (cases "p' = p \<and> n = 0")
      case True
      then show ?thesis using feed_Return [OF Return] by simp
    next
      case False
      with turn_Return_cases [OF Return] have err: "state p' = Error" by blast
      have "state p \<noteq> Error" using False Return by (auto simp: turn_def)
      from turn_Return_append [OF Return err this turn.prems] err show ?thesis
        using feed_Return [OF Return] by (simp add: feed_Return turn_Done_Error)
    qed
  next
    case (Continue p' n)
    have le: "n \<le> length a" by (rule turn_Continue_le [OF Continue])
    have inv': "parser_inv p'"
      using parser_inv_turn [OF turn.prems(1), of a] addressable_append [OF turn.prems(2)] Continue
      by simp
    show ?thesis
    proof (cases "in_body p \<and> length a < remaining p")
      case True
      then have ne: "a \<noteq> []" using Continue by (auto simp: turn_def turn_body_def in_body_def)
      from turn_body_append [of p a b] True ne Continue
      have n: "n = length a" "feed p' [] = (p', 0)"
        and app: "b \<noteq> [] \<longrightarrow> (\<exists>q m. turn p (a @ b) = Continue q (length a + m) \<and> turn p' b = Continue q m)"
        by auto
      have fa: "feed p a = (p', length a)" using feed_Continue [OF Continue] n by simp
      show ?thesis
      proof (cases "b = []")
        case True
        then show ?thesis using fa n by simp
      next
        case False
        with app obtain q m where "turn p (a @ b) = Continue q (length a + m)" "turn p' b = Continue q m"
          by blast
        then show ?thesis using fa by (simp add: feed_Continue)
      qed
    next
      case False
      have "turn p (a @ b) = Continue p' n"
      proof (cases "in_body p")
        case True
        with False Continue show ?thesis
          by (auto simp: turn_def turn_body_def in_body_def Let_def min_def split: if_splits)
      next
        case False
        then show ?thesis using turn_Continue_append Continue by blast
      qed
      moreover have "addressable (drop n a @ b)"
        using turn.prems(2) by (simp add: addressable_def)
      ultimately show ?thesis
        using turn.IH [OF Continue inv'] le Continue
        by (simp add: feed_Continue case_prod_unfold Let_def add.commute)
    qed
  qed
qed

lemma feed_le: "snd (feed p data) \<le> length data"
proof (induction p data rule: feed_induct)
  case (turn p data)
  show ?case
  proof (cases "turn p data")
    case (Return p' n)
    then show ?thesis using turn_Return_le [OF Return] by (simp add: feed_Return)
  next
    case (Continue p' n)
    then show ?thesis
      using turn.IH [OF Continue] turn_Continue_le [OF Continue] by (simp add: feed_Continue)
  qed
qed

section \<open>The parser is incremental\<close>

interpretation rp: incremental feed parser_inv "2 ^ 63"
  by unfold_locales
    (auto simp: feed_split addressable_def feed_le parser_inv_feed simp del: length_append)

section \<open>Properties\<close>

text \<open>The caller of \<open>feed\<close>: it appends what it read to the tail it kept, feeds the parser and
  drops what was used (\<open>buf.append\<close>, \<open>p.feed\<close>, \<open>buf.erase\<close> in the fuzz target, \<open>in.commit\<close> and
  \<open>in.consume\<close> in the server).\<close>

definition feed_piece :: "RequestParser \<times> string \<Rightarrow> string \<Rightarrow> RequestParser \<times> string" where
  "feed_piece pb piece =
     (let buf = snd pb @ piece; (p', used) = feed (fst pb) buf in (p', drop used buf))"

lemma feed_piece_present: "feed_piece = rp.present"
  by (intro ext) (simp add: feed_piece_def rp.present_def)

lemma feed_new_Nil: "feed (new_parser lim) [] = (new_parser lim, 0)"
  by (rule feed_Return) (simp add: turn_def turn_request_line_def new_parser_def kCRLF_def)

text \<open>Splitting an input at any point changes nothing: feeding \<open>a\<close> and then the unused tail of
  \<open>a\<close> followed by \<open>b\<close> leaves the parser in exactly the state, and uses exactly the bytes, that
  feeding \<open>a @ b\<close> at once does. This holds in every reachable state, on every error path too.\<close>

theorem feed_append:
  assumes "reachable lim p" and "limits_ok lim" and "addressable (a @ b)"
  shows "feed p (a @ b) =
    (let (p', n) = feed p a; (q, m) = feed p' (drop n a @ b) in (q, n + m))"
  using feed_split [OF reachable_inv [OF assms(1,2)] assms(3)] .

theorem feed_append_witness:
  "feed (new_parser default_limits) (''GET / HT'' @ ''TP/1.1'') =
    (let (p', n) = feed (new_parser default_limits) ''GET / HT'';
         (q, m) = feed p' (drop n ''GET / HT'' @ ''TP/1.1'') in (q, n + m))"
  by (rule feed_append [OF reachable.start])
    (simp_all add: limits_ok_def default_limits_def addressable_def)

text \<open>C8: Two ways of cutting one stream into reads give the same parser and the same unused tail.\<close>

theorem segmentation_does_not_matter:
  assumes "concat xs = concat ys" and "addressable (concat xs)" and "limits_ok lim"
  shows "foldl feed_piece (new_parser lim, []) xs = foldl feed_piece (new_parser lim, []) ys"
  unfolding feed_piece_present
proof (rule rp.pushed.segmentation_independent [OF assms(1)])
  show "rp.settled (new_parser lim, []) (length (concat xs))"
    unfolding rp.settled_def
    using assms by (simp add: feed_new_Nil parser_inv_new addressable_def)
qed

theorem segmentation_does_not_matter_witness:
  "foldl feed_piece (new_parser default_limits, []) [''GET'', '' / H'', ''TTP/1.0''] =
   foldl feed_piece (new_parser default_limits, []) [''GET / HTTP/1.0'']"
  by (rule segmentation_does_not_matter)
    (simp_all add: limits_ok_def default_limits_def addressable_def)

end
