(* ===== verification/Fuzz_Target.thy ===== *)
theory Fuzz_Target
  imports Parser_Segmentation
begin

text \<open>
  The differential fuzz target of \<^verbatim>\<open>src/fuzz/fuzz_request_parser.cpp\<close>: it runs the parser over
  the same bytes in one piece, one byte at a time and in pieces of a chosen size, and traps if
  the outcomes differ. \<^verbatim>\<open>__builtin_trap\<close> is the value \<open>Trapped\<close>. The loop over the input is a
  \<^theory_text>\<open>partial_function\<close>, since with pieces of size 0 it would not end.
\<close>

section \<open>The target\<close>

record Outcome =
  requests :: "string list"
  final_status :: int

definition digest_fields :: "Headers \<Rightarrow> string" where
  "digest_fields h =
     concat (map (\<lambda>(k, v). k @ '':'' @ v @ ''|'') (field_list h))"

definition digest :: "Request \<Rightarrow> string" where
  "digest r =
     req_method r @ '' '' @ target r @ '' '' @ to_string (version_minor r) @ ''|'' @
     digest_fields (req_headers r) @
     to_chars 10 (length (req_body r)) @ '':'' @ req_body r @ ''|'' @
     digest_fields (req_trailers r)"

definition fuzz_limits :: ParserLimits where
  "fuzz_limits =
     \<lparr>max_request_line = 512, max_header_bytes = 2048, max_header_count = 32,
      max_body_bytes = 4096, max_chunk_line = 64\<rparr>"

datatype FuzzRun = Trapped | Finished Outcome | Running RequestParser string "string list"

lemma feed_to_Done:
  assumes "state p = RequestLine" and "feed p buf = (p', used)" and "state p' = Done"
  shows "0 < used"
proof (cases "turn p buf")
  case (Return q n)
  with turn_Return_cases [OF Return] assms show ?thesis by (auto simp: feed_Return)
next
  case (Continue q n)
  have "2 \<le> n" using turn_line_Continue [OF Continue] assms(1) by (simp add: in_body_def)
  with assms(2) show ?thesis by (auto simp: feed_Continue [OF Continue])
qed

text \<open>The inner loop: feed the buffer until the parser needs more input.\<close>

function drain :: "RequestParser \<Rightarrow> string \<Rightarrow> string list \<Rightarrow> FuzzRun" where
  "drain p buf out =
     (case feed p buf of (p', used) \<Rightarrow>
        if used > length buf then Trapped
        else if failed p'
        then Finished \<lparr>requests = out, final_status = status_for (error p')\<rparr>
        else if \<not> parser_done p' then Running p' (drop used buf) out
        else (case take_request p' of (r, p'') \<Rightarrow>
                if length (req_body r) > max_body_bytes fuzz_limits then Trapped
                else drain p'' (drop used buf) (out @ [digest r])))"
  by pat_completeness auto
termination
proof (relation "measure (\<lambda>(p, buf, out). 2 * length buf + (if state p = RequestLine then 0 else 1))",
    goal_cases)
  case (2 p buf out p' used r p'')
  then have f: "feed p buf = (p', used)" "\<not> length buf < used" "state p' = Done" "p'' = reset p'"
    by (auto simp: parser_done_def take_request_def)
  have "0 < used" if "state p = RequestLine"
    using feed_to_Done [OF that f(1,3)] .
  with f show ?case by (auto simp: reset_def)
qed simp

declare drain.simps [simp del]

partial_function (option) run_loop ::
    "RequestParser \<Rightarrow> string \<Rightarrow> string list \<Rightarrow> string \<Rightarrow> size_t \<Rightarrow> FuzzRun option" where
  "run_loop p buf out input step =
     (if input = [] then Some (Finished \<lparr>requests = out, final_status = 0\<rparr>)
      else (case drain p (buf @ take (min step (length input)) input) out of
              Trapped \<Rightarrow> Some Trapped
            | Finished oc \<Rightarrow> Some (Finished oc)
            | Running p' buf' out' \<Rightarrow>
                run_loop p' buf' out' (drop (min step (length input)) input) step))"

definition run :: "string \<Rightarrow> size_t \<Rightarrow> FuzzRun option" where
  "run input step = run_loop (new_parser fuzz_limits) [] [] input step"

text \<open>\<open>Some True\<close>: the target returns; \<open>Some False\<close>: it traps; \<open>None\<close>: it does not end.\<close>

definition same_outcome :: "FuzzRun \<Rightarrow> FuzzRun \<Rightarrow> bool" where
  "same_outcome a b = (case (a, b) of (Finished x, Finished y) \<Rightarrow> x = y | _ \<Rightarrow> False)"

definition LLVMFuzzerTestOneInput :: "string \<Rightarrow> bool option" where
  "LLVMFuzzerTestOneInput data =
     (if data = [] then Some True
      else
        let step = byte (hd data) mod 17 + 1; input = tl data in
        Option.bind (run input (if length input \<noteq> 0 then length input else 1)) (\<lambda>whole.
        Option.bind (run input 1) (\<lambda>bytewise.
        Option.bind (run input step) (\<lambda>chunked.
          Some (same_outcome whole bytewise \<and> same_outcome whole chunked)))))"

section \<open>The run is segmented\<close>

fun fuzz_push :: "FuzzRun \<Rightarrow> string \<Rightarrow> FuzzRun" where
  "fuzz_push (Running p buf out) piece = drain p (buf @ piece) out"
| "fuzz_push r piece = r"

fun fuzz_ok :: "FuzzRun \<Rightarrow> nat \<Rightarrow> bool" where
  "fuzz_ok (Running p buf out) n \<longleftrightarrow>
     parser_inv p \<and> limits p = fuzz_limits \<and> feed p buf = (p, 0) \<and> \<not> failed p \<and> \<not> parser_done p \<and>
     length buf + n < 2 ^ 63"
| "fuzz_ok (Finished oc) n \<longleftrightarrow> True"
| "fuzz_ok Trapped n \<longleftrightarrow> False"

text \<open>What one turn of the inner loop does when the invariant holds: no trap is possible.\<close>

lemma drain_turn:
  assumes "parser_inv p" "limits p = fuzz_limits" "addressable buf" "feed p buf = (p', used)"
  shows "used \<le> length buf" "parser_inv p'" "limits p' = fuzz_limits"
    "drain p buf out =
       (if failed p' then Finished \<lparr>requests = out, final_status = status_for (error p')\<rparr>
        else if \<not> parser_done p' then Running p' (drop used buf) out
        else drain (reset p') (drop used buf) (out @ [digest (req p')]))"
proof -
  show le: "used \<le> length buf" using feed_le [of p buf] assms(4) by simp
  show p': "parser_inv p'" "limits p' = fuzz_limits"
    using parser_inv_feed [OF assms(1,3)] limits_feed [of p buf] assms(2,4) by simp_all
  have "\<not> length (req_body (req p')) > max_body_bytes fuzz_limits"
    using p' by (auto simp: parser_inv_def size_inv_def split: if_splits)
  with le assms(4) show "drain p buf out =
       (if failed p' then Finished \<lparr>requests = out, final_status = status_for (error p')\<rparr>
        else if \<not> parser_done p' then Running p' (drop used buf) out
        else drain (reset p') (drop used buf) (out @ [digest (req p')]))"
    by (simp add: drain.simps [of p buf out] take_request_def)
qed

lemma drain_induct [consumes 3, case_names turn]:
  assumes "parser_inv p" "limits p = fuzz_limits" "addressable buf"
    and step: "\<And>p buf out p' used. parser_inv p \<Longrightarrow> limits p = fuzz_limits \<Longrightarrow> addressable buf \<Longrightarrow>
       feed p buf = (p', used) \<Longrightarrow>
       (\<not> failed p' \<Longrightarrow> parser_done p' \<Longrightarrow> P (reset p') (drop used buf) (out @ [digest (req p')])) \<Longrightarrow>
       P p buf out"
  shows "P p buf out"
  using assms(1-3)
proof (induction p buf out rule: drain.induct)
  case (1 p buf out)
  obtain p' used where f: "feed p buf = (p', used)" by (cases "feed p buf")
  note t = drain_turn [OF "1.prems" f]
  have "\<not> length (req_body (req p')) > max_body_bytes fuzz_limits"
    using t(2,3) by (auto simp: parser_inv_def size_inv_def split: if_splits)
  then show ?case
    using step [OF "1.prems" f] "1.IH" [of p' used "req p'" "reset p'"] f t(1-3) "1.prems"
    by (simp add: take_request_def parser_inv_reset limits_reset not_less)
qed

lemma fuzz_ok_drain:
  assumes "parser_inv p" "limits p = fuzz_limits" "length buf + n < 2 ^ 63"
  shows "fuzz_ok (drain p buf out) n"
proof -
  have "addressable buf" using assms(3) by (simp add: addressable_def)
  from assms(1,2) this assms(3) show ?thesis
  proof (induction p buf out rule: drain_induct)
    case (turn p buf out p' used)
    note t = drain_turn [OF turn.hyps(1-4)]
    have "feed p' (drop used buf) = (p', 0)"
      using rp.step_settles [of p buf] turn.hyps by (simp add: addressable_def)
    with t turn.IH turn.prems show ?case by auto
  qed
qed

lemma drain_split:
  assumes "parser_inv p" "limits p = fuzz_limits" "addressable (a @ b)"
  shows "fuzz_push (drain p a out) b = drain p (a @ b) out"
proof -
  have "addressable a" using addressable_append [OF assms(3)] by simp
  from assms(1,2) this assms(3) show ?thesis
  proof (induction p a out rule: drain_induct)
    case (turn p a out p' n)
    note ta = drain_turn [OF turn.hyps(1-4)]
    obtain q m where q: "feed p' (drop n a @ b) = (q, m)" by (cases "feed p' (drop n a @ b)")
    have ab: "feed p (a @ b) = (q, n + m)"
      using feed_split [OF turn.hyps(1) turn.prems] turn.hyps(4) q by simp
    note tab = drain_turn [OF turn.hyps(1,2) turn.prems ab]
    have dr: "drop n (a @ b) = drop n a @ b" and ad: "addressable (drop n a @ b)"
      using ta(1) turn.prems by (simp_all add: addressable_def)
    show ?case
    proof (cases "failed p' \<or> parser_done p'")
      case True
      then have "q = p'" "m = 0"
        using q turn_Done_Error [of p'] by (auto simp: failed_def parser_done_def)
      with True ta tab turn.IH ad dr show ?thesis by auto
    next
      case False
      then have "drain p a out = Running p' (drop n a) out" using ta by simp
      moreover note drain_turn [OF ta(2,3) ad q]
      moreover have "drop m (drop n a @ b) = drop (n + m) (a @ b)"
        using dr by (metis add.commute drop_drop)
      ultimately show ?thesis using tab by simp
    qed
  qed
qed

interpretation fz: segmented fuzz_push fuzz_ok
proof
  fix s :: FuzzRun and a b :: string and n m :: nat
  show "fuzz_ok s (length a + length b) \<Longrightarrow> fuzz_push (fuzz_push s a) b = fuzz_push s (a @ b)"
    using drain_split by (cases s) (auto simp: addressable_def)
  show "fuzz_ok s n \<Longrightarrow> fuzz_push s [] = s"
    by (cases s) (auto simp: drain.simps)
  show "fuzz_ok s (length a + n) \<Longrightarrow> fuzz_ok (fuzz_push s a) n"
    by (cases s) (auto intro!: fuzz_ok_drain)
  show "fuzz_ok s n \<Longrightarrow> m \<le> n \<Longrightarrow> fuzz_ok s m"
    by (cases s) auto
qed

section \<open>The outcome does not depend on the piece size\<close>

fun fuzz_close :: "FuzzRun \<Rightarrow> FuzzRun" where
  "fuzz_close (Running p buf out) = Finished \<lparr>requests = out, final_status = 0\<rparr>"
| "fuzz_close r = r"

lemma run_loop_push:
  assumes "0 < step" and "fuzz_ok (Running p buf out) (length input)"
  shows "run_loop p buf out input step = Some (fuzz_close (fuzz_push (Running p buf out) input))"
  using assms(2)
proof (induction "length input" arbitrary: p buf out input rule: less_induct)
  case less
  show ?case
  proof (cases "input = []")
    case True
    then show ?thesis
      using fz.push_Nil [OF less.prems] by (simp add: run_loop.simps)
  next
    case False
    define n where "n = min step (length input)"
    define S where "S = fuzz_push (Running p buf out) (take n input)"
    have n: "length (drop n input) < length input" using False assms(1) by (simp add: n_def)
    have ok: "fuzz_ok (Running p buf out) (length (take n input) + length (drop n input))"
      using less.prems by (metis append_take_drop_id length_append)
    have S: "fuzz_push S (drop n input) = fuzz_push (Running p buf out) input"
      using fz.push_push [OF ok] by (simp add: S_def)
    have okS: "fuzz_ok S (length (drop n input))" using fz.ok_push [OF ok] by (simp add: S_def)
    have "run_loop p buf out input step = Some (fuzz_close (fuzz_push S (drop n input)))"
    proof (cases S)
      case (Running p' buf' out')
      have "run_loop p' buf' out' (drop n input) step =
          Some (fuzz_close (fuzz_push (Running p' buf' out') (drop n input)))"
        using less.hyps [OF n] okS Running by simp
      with Running False show ?thesis
        by (simp add: run_loop.simps [of p] S_def n_def)
    next
      case (Finished oc)
      with False show ?thesis by (simp add: run_loop.simps [of p] S_def n_def)
    next
      case Trapped
      with okS show ?thesis by simp
    qed
    with S show ?thesis by simp
  qed
qed

definition whole_run :: "string \<Rightarrow> FuzzRun" where
  "whole_run input = fuzz_close (fuzz_push (Running (new_parser fuzz_limits) [] []) input)"

lemma fuzz_ok_start:
  "length input < 2 ^ 63 \<Longrightarrow> fuzz_ok (Running (new_parser fuzz_limits) [] []) (length input)"
proof -
  note feed_new_Nil [of fuzz_limits]
  moreover have "parser_inv (new_parser fuzz_limits)"
    by (rule parser_inv_new) (simp add: limits_ok_def fuzz_limits_def)
  moreover assume "length input < 2 ^ 63"
  ultimately show ?thesis by (simp add: failed_def parser_done_def new_parser_def)
qed

lemma run_whole: "0 < step \<Longrightarrow> addressable input \<Longrightarrow> run input step = Some (whole_run input)"
  unfolding run_def whole_run_def addressable_def
  by (intro run_loop_push fuzz_ok_start)

lemma whole_run_Finished:
  assumes "addressable input"
  shows "\<exists>oc. whole_run input = Finished oc"
proof -
  have "fuzz_ok (fuzz_push (Running (new_parser fuzz_limits) [] []) input) 0"
    using fuzz_ok_start [of input] assms
    by (intro fz.ok_push) (simp only: addressable_def add_0_right)
  then show ?thesis
    by (cases "fuzz_push (Running (new_parser fuzz_limits) [] []) input")
      (auto simp: whole_run_def)
qed

section \<open>Properties\<close>

text \<open>The outcome of parsing (the requests recognised, in order, and the final status) is
  the same for every piece size: cutting the input into pieces of size \<open>m\<close> or of size \<open>n\<close>
  gives the same result, and each run ends without a trap.\<close>

theorem run_size_independent:
  assumes "0 < m" and "0 < n" and "addressable input"
  shows "run input m = run input n \<and> (\<exists>oc. run input m = Some (Finished oc))"
  using assms whole_run_Finished [OF assms(3)] by (simp add: run_whole)

theorem run_size_independent_witness:
  "run ''GET / HTTP/1.0'' 1 = run ''GET / HTTP/1.0'' 5 \<and>
     (\<exists>oc. run ''GET / HTTP/1.0'' 1 = Some (Finished oc))"
  by (rule run_size_independent) (simp_all add: addressable_def)

lemma target_never_traps:
  assumes "addressable data"
  shows "LLVMFuzzerTestOneInput data = Some True"
proof (cases data)
  case Nil
  then show ?thesis by (simp add: LLVMFuzzerTestOneInput_def)
next
  case (Cons c input)
  have tl: "addressable input" using assms by (simp add: Cons addressable_def)
  obtain oc where "whole_run input = Finished oc" using whole_run_Finished [OF tl] ..
  then have run: "run input k = Some (Finished oc)" if "0 < k" for k
    using run_whole [OF that tl] by simp
  have whole: "run input (if length input \<noteq> 0 then length input else 1) = Some (Finished oc)"
    and bytewise: "run input 1 = Some (Finished oc)"
    and chunked: "run input (byte c mod 17 + 1) = Some (Finished oc)"
    by (rule run, simp)+
  show ?thesis
    unfolding LLVMFuzzerTestOneInput_def Cons Let_def list.sel whole bytewise chunked
    by (simp add: same_outcome_def)
qed

text \<open>C12: The differential fuzz target never traps: for every input the three runs end, agree,
  and no request has a body above the limit.\<close>

theorem fuzz_target_never_traps:
  assumes "addressable data"
  shows "LLVMFuzzerTestOneInput data = Some True"
  by (rule target_never_traps [OF assms])

theorem fuzz_target_never_traps_witness:
  "LLVMFuzzerTestOneInput (CHR 0x02 # ''GET / HTTP/1.1'') = Some True"
  by (rule fuzz_target_never_traps) (simp add: addressable_def)

end
