(* ===== verification/Fuzz_Mutator.thy ===== *)
theory Fuzz_Mutator
  imports Fuzz_Target
begin

text \<open>
  The standalone fuzzer of \<^verbatim>\<open>src/fuzz/fuzz_request_parser.cpp\<close>: its random numbers, its mutations and its
  main loop. The generator is a 64-bit state. Two arguments of a call may be evaluated in either
  order; the first argument of the definitions says which the compiler chose.
\<close>

unbundle bit_operations_syntax

section \<open>Random numbers\<close>

definition next_random :: "u64 \<Rightarrow> u64 \<times> u64" where
  "next_random st =
     (let st = st XOR drop_bit 12 st;
          st = st XOR push_bit 25 st;
          st = st XOR drop_bit 27 st
      in (st * 0x2545F4914F6CDD1D, st))"

definition pick :: "size_t \<Rightarrow> u64 \<Rightarrow> size_t \<times> u64" where
  "pick n st = (if n \<noteq> 0 then let (r, st) = next_random st in (unat r mod n, st) else (0, st))"

definition initial_state :: u64 where
  "initial_state = 0x9E3779B97F4A7C15"

section \<open>Mutations\<close>

definition kSeeds :: "string list" where
  "kSeeds =
     [''GET / HTTP/1.1'' @ kCRLF @ ''Host: localhost:42069'' @ kCRLF @ ''User-Agent: curl/7.81.0'' @ kCRLF @ ''Accept: */*'' @ kCRLF @ kCRLF,
      ''POST /submit HTTP/1.1'' @ kCRLF @ ''Host: x'' @ kCRLF @ ''Content-Length: 13'' @ kCRLF @ kCRLF @ ''hello world!'' @ [LF],
      ''POST /u HTTP/1.1'' @ kCRLF @ ''Host: x'' @ kCRLF @ ''Transfer-Encoding: chunked'' @ kCRLF @ kCRLF @ ''4'' @ kCRLF @ ''Wiki'' @ kCRLF @
        ''5;a=b'' @ kCRLF @ ''pedia'' @ kCRLF @ ''0'' @ kCRLF @ ''T: 1'' @ kCRLF @ kCRLF,
      ''GET /a?b=c HTTP/1.0'' @ kCRLF @ ''Connection: keep-alive'' @ kCRLF @ kCRLF @ ''GET /b HTTP/1.1'' @ kCRLF @ ''Host: y'' @ kCRLF @ kCRLF,
      kCRLF @ ''OPTIONS * HTTP/1.1'' @ kCRLF @ ''Host: x'' @ kCRLF @ ''Expect: 100-continue'' @ kCRLF @ ''Content-Length: 2, 2'' @ kCRLF @ kCRLF @ ''ok'']"

definition kTokens :: "string list" where
  "kTokens =
     [kCRLF, kCRLF @ kCRLF, '':'', '' '', ''0'' @ kCRLF @ kCRLF, ''Content-Length: '', ''Transfer-Encoding: chunked'',
      ''HTTP/1.1'', ''ffffffff'', [LF], [CR], [HT], ''%'', '';'', '','']"

definition erase_str :: "string \<Rightarrow> nat \<Rightarrow> nat \<Rightarrow> string" where
  "erase_str s at n = take at s @ drop (at + n) s"

definition insert_str :: "string \<Rightarrow> nat \<Rightarrow> string \<Rightarrow> string" where
  "insert_str s at t = take at s @ t @ drop at s"

text \<open>Two calls of \<open>pick\<close> as the arguments of one call.\<close>

definition pick_two :: "bool \<Rightarrow> size_t \<Rightarrow> size_t \<Rightarrow> u64 \<Rightarrow> size_t \<times> size_t \<times> u64" where
  "pick_two first_first a b st =
     (if first_first then let (x, st) = pick a st; (y, st) = pick b st in (x, y, st)
      else let (y, st) = pick b st; (x, st) = pick a st in (x, y, st))"

text \<open>The right-hand side of an assignment is evaluated before the left.\<close>

definition mutate_once :: "bool \<Rightarrow> string \<Rightarrow> u64 \<Rightarrow> string \<times> u64" where
  "mutate_once ord s st =
     (let (what, st) = pick 6 st in
      if what = 0 then
        (if s \<noteq> [] then let (r, st) = next_random st; (at, st) = pick (length s) st
                        in (s[at := char_of (unat r mod 256)], st)
         else (s, st))
      else if what = 1 then
        (if s \<noteq> [] then let (at, st) = pick (length s) st; (n, st) = pick 16 st in (erase_str s at (n + 1), st) else (s, st))
      else if what = 2 then
        (let (at, t, st) = pick_two ord (length s + 1) (length kTokens) st in (insert_str s at (kTokens ! t), st))
      else if what = 3 then
        (if s \<noteq> [] then
           let (from, st) = pick (length s) st;
               (at, n, st) = pick_two ord (length s + 1) 32 st
           in (insert_str s at (take (n + 1) (drop from s)), st)
         else (s, st))
      else if what = 4 then
        (let (i, st) = pick (length kSeeds) st in (s @ kSeeds ! i, st))
      else
        (let (n, st) = pick (length s + 1) st in (take n s, st)))"

fun mutate_loop :: "bool \<Rightarrow> nat \<Rightarrow> string \<Rightarrow> u64 \<Rightarrow> string \<times> u64" where
  "mutate_loop ord 0 s st = (s, st)"
| "mutate_loop ord (Suc i) s st = (let (s, st) = mutate_once ord s st in mutate_loop ord i s st)"

definition mutate :: "bool \<Rightarrow> string \<Rightarrow> u64 \<Rightarrow> string \<times> u64" where
  "mutate ord s st = (let (n, st) = pick 8 st in mutate_loop ord (1 + n) s st)"

section \<open>The main loop\<close>

text \<open>An iteration answers what the target does with its input.\<close>

definition fuzz_iteration :: "bool \<Rightarrow> u64 \<Rightarrow> bool option \<times> u64" where
  "fuzz_iteration ord st =
     (let (i, st) = pick (length kSeeds) st;
          (input, st) = mutate ord (kSeeds ! i) st;
          (r, st) = next_random st
      in (LLVMFuzzerTestOneInput (char_of (unat r mod 256) # input), st))"

fun fuzz_loop :: "bool \<Rightarrow> nat \<Rightarrow> u64 \<Rightarrow> bool option" where
  "fuzz_loop ord 0 st = Some True"
| "fuzz_loop ord (Suc n) st =
     (case fuzz_iteration ord st of
        (Some True, st) \<Rightarrow> fuzz_loop ord n st
      | (r, st) \<Rightarrow> r)"

text \<open>The second argument of the command line is a seed, made odd; a negative count runs no iteration.\<close>

definition fuzz_main :: "bool \<Rightarrow> int \<Rightarrow> u64 option \<Rightarrow> bool option" where
  "fuzz_main ord iterations seed =
     fuzz_loop ord (nat iterations) (case seed of None \<Rightarrow> initial_state | Some v \<Rightarrow> v OR 1)"

section \<open>Mutated inputs stay small\<close>

lemma seeds_small: "i < length kSeeds \<Longrightarrow> length (kSeeds ! i) \<le> 100"
proof -
  have "list_all (\<lambda>s. length s \<le> 100) kSeeds" by (simp add: kSeeds_def)
  then show "i < length kSeeds \<Longrightarrow> length (kSeeds ! i) \<le> 100" by (simp add: list_all_length)
qed

lemma tokens_small: "i < length kTokens \<Longrightarrow> length (kTokens ! i) \<le> 100"
proof -
  have "list_all (\<lambda>s. length s \<le> 100) kTokens" by (simp add: kTokens_def)
  then show "i < length kTokens \<Longrightarrow> length (kTokens ! i) \<le> 100" by (simp add: list_all_length)
qed

lemma pick_less: "0 < n \<Longrightarrow> pick n st = (i, st') \<Longrightarrow> i < n"
  by (auto simp: pick_def split: prod.splits)

lemma pick_two_less: "0 < a \<Longrightarrow> 0 < b \<Longrightarrow> pick_two ord a b st = (i, j, st') \<Longrightarrow> i < a \<and> j < b"
  by (auto simp: pick_two_def split: if_splits prod.splits dest: pick_less)

lemma insert_str_length: "at \<le> length s \<Longrightarrow> length (insert_str s at t) = length s + length t"
  by (simp add: insert_str_def)

lemma table_sizes: "0 < length kSeeds" "0 < length kTokens"
  by (simp_all add: kSeeds_def kTokens_def)

lemma mutate_once_small:
  assumes "mutate_once ord s st = (s', st')"
  shows "length s' \<le> length s + 100"
  using assms table_sizes
  by (auto simp: mutate_once_def Let_def insert_str_length erase_str_def
      dest!: pick_two_less [rotated 2] pick_less [rotated] seeds_small tokens_small
      split: prod.splits if_splits)

lemma mutate_loop_small: "mutate_loop ord n s st = (s', st') \<Longrightarrow> length s' \<le> length s + 100 * n"
proof (induction n arbitrary: s st)
  case (Suc n)
  obtain s1 st1 where m: "mutate_once ord s st = (s1, st1)" by (cases "mutate_once ord s st")
  have "length s' \<le> length s1 + 100 * n" using Suc m by simp
  with mutate_once_small [OF m] show ?case by simp
qed simp

lemma mutate_small:
  assumes "mutate ord s st = (s', st')"
  shows "length s' \<le> length s + 900"
proof -
  obtain n st1 where n: "pick 8 st = (n, st1)" by (cases "pick 8 st")
  then have "mutate_loop ord (1 + n) s st1 = (s', st')" using assms by (simp add: mutate_def)
  moreover have "n < 8" using pick_less [OF _ n] by simp
  ultimately show ?thesis using mutate_loop_small [of ord "1 + n" s st1 s' st'] by simp
qed

lemma fuzz_iteration_passes: "fst (fuzz_iteration ord st) = Some True"
proof -
  obtain i st1 where i: "pick (length kSeeds) st = (i, st1)" by (cases "pick (length kSeeds) st")
  obtain input st2 where m: "mutate ord (kSeeds ! i) st1 = (input, st2)" by (cases "mutate ord (kSeeds ! i) st1")
  have "length input \<le> 1000" using mutate_small [OF m] seeds_small [OF pick_less [OF table_sizes(1) i]] by simp
  then have "LLVMFuzzerTestOneInput (c # input) = Some True" for c
    by (intro target_never_traps) (simp add: addressable_def)
  then show ?thesis using i m by (simp add: fuzz_iteration_def split: prod.split)
qed

text \<open>The generator: its state never becomes zero, where it would stay.\<close>

lemma xor_zero_iff: "(v :: u64) XOR u = 0 \<longleftrightarrow> v = u"
proof
  assume "v XOR u = 0"
  then have "(v XOR u) XOR u = u" by simp
  then show "v = u" by (simp add: xor.assoc)
qed simp

lemma xor_drop_bit_zero: "0 < n \<Longrightarrow> (v :: u64) XOR drop_bit n v = 0 \<longleftrightarrow> v = 0"
proof
  assume n: "0 < n" and "v XOR drop_bit n v = 0"
  then have "v = drop_bit n v" by (simp add: xor_zero_iff)
  then have "unat v = unat (drop_bit n v)" by simp
  then have "unat v = drop_bit n (unat v)" by (simp only: unat_drop_bit_eq)
  then have "unat v = unat v div 2 ^ n" unfolding drop_bit_eq_div .
  moreover have "(1 :: nat) < 2 ^ n" using n by (intro one_less_power) simp_all
  ultimately have "unat v = 0" using div_less_dividend [of "2 ^ n" "unat v"] by linarith
  then show "v = 0" by (simp add: unat_eq_0)
qed simp

lemma xor_push_bit_zero: "0 < n \<Longrightarrow> (v :: u64) XOR push_bit n v = 0 \<longleftrightarrow> v = 0"
proof
  assume n: "0 < n" and "v XOR push_bit n v = 0"
  then have v: "v = push_bit n v" by (simp add: xor_zero_iff)
  have "\<not> bit v i" for i
  proof (induction i rule: less_induct)
    case (less i)
    have "bit v i \<longleftrightarrow> i < 64 \<and> n \<le> i \<and> bit v (i - n)" by (subst v) (auto simp: bit_push_bit_iff)
    then show ?case using less [of "i - n"] n by auto
  qed
  then show "v = 0" by (simp add: bit_eq_iff)
qed simp

lemma next_random_state: "snd (next_random st) = 0 \<longleftrightarrow> st = 0"
  unfolding next_random_def Let_def snd_conv
  by (simp only: xor_drop_bit_zero xor_push_bit_zero zero_less_numeral)

section \<open>Properties\<close>


end
