(* ===== verification/Parser_Numbers.thy ===== *)
theory Parser_Numbers
  imports Request_Parser
begin

text \<open>
  The numbers of the wire format: the decimal Content-Length and the hexadecimal chunk size of
  \<^verbatim>\<open>src/src/http/request_parser.cpp\<close>. The accumulators are 64-bit words; the lemmas show that
  the digit limits of the code (19 and 16) keep them from wrapping, so that the value read is
  the value written.
\<close>

unbundle bit_operations_syntax

section \<open>The value of a digit string\<close>

definition dec_value :: "string \<Rightarrow> nat" where
  "dec_value s = digits_value 10 (map (\<lambda>c. byte c - 48) s)"

definition hex_text_value :: "string \<Rightarrow> nat" where
  "hex_text_value s = digits_value 16 (map (\<lambda>c. nat (hex_value c)) s)"

definition is_hex :: "char \<Rightarrow> bool" where
  "is_hex c \<longleftrightarrow> 0 \<le> hex_value c"

lemma foldl_digits:
  "foldl (\<lambda>a d. a * base + d) v ds = v * base ^ length ds + digits_value base ds"
proof (induction ds arbitrary: v)
  case (Cons d ds)
  show ?case
    using Cons.IH [of "v * base + d"] Cons.IH [of d] by (simp add: digits_value_def algebra_simps)
qed (simp add: digits_value_def)

lemma digits_value_bound: "list_all (\<lambda>d. d < base) ds \<Longrightarrow> digits_value base ds < base ^ length ds"
proof (induction ds rule: rev_induct)
  case (snoc d ds)
  then have "digits_value base ds * base + d < digits_value base ds * base + base" by simp
  also have "\<dots> \<le> base ^ length ds * base"
    using snoc by (metis Suc_leI list_all_append mult.commute mult_Suc_right mult_le_mono2 add.commute)
  finally show ?case by (simp add: digits_value_def mult.commute)
qed (simp add: digits_value_def)

lemma word_room:
  assumes "(unat (v :: u64) + 1) * b ^ Suc n \<le> 2 ^ 64" and "d < b"
  shows "unat v * b + d < 2 ^ 64" and "(unat v * b + d + 1) * b ^ n \<le> 2 ^ 64"
proof -
  have "unat v * b + d + 1 \<le> (unat v + 1) * b" using assms(2) by simp
  then have "(unat v * b + d + 1) * b ^ n \<le> (unat v + 1) * b ^ Suc n"
    by (metis mult.assoc mult_le_mono1 power_Suc)
  with assms(1) show room: "(unat v * b + d + 1) * b ^ n \<le> 2 ^ 64" by linarith
  have "1 \<le> b ^ n" using assms(2) by simp
  then have "(unat v * b + d + 1) * 1 \<le> (unat v * b + d + 1) * b ^ n"
    by (rule mult_le_mono2)
  from order_trans [OF this room] have "unat v * b + d + 1 \<le> 2 ^ 64"
    by (simp only: mult_1_right)
  then show "unat v * b + d < 2 ^ 64" by (simp only: Suc_eq_plus1 [symmetric] Suc_le_eq)
qed

lemma unat_word_of_nat: "n < 2 ^ 64 \<Longrightarrow> unat (word_of_nat n :: u64) = n"
  by (simp add: unsigned_of_nat take_bit_nat_eq_self)

section \<open>Decimal\<close>

lemma decimal_step:
  assumes "is_digit c" and "unat v * 10 + (byte c - 48) < 2 ^ 64"
  shows "unat (v * 10 + word_of_int (int (byte c) - 48) :: u64) = unat v * 10 + (byte c - 48)"
proof -
  have "int (byte c) - 48 = int (byte c - 48)" using assms(1) by (simp add: is_digit_def)
  then have "v * 10 + word_of_int (int (byte c) - 48) =
      word_of_nat (unat v) * word_of_nat 10 + word_of_nat (byte c - 48)"
    by (simp only: of_int_of_nat_eq of_nat_unat of_nat_numeral ucast_id)
  also have "\<dots> = word_of_nat (unat v * 10 + (byte c - 48))"
    by (simp only: of_nat_add of_nat_mult)
  finally show ?thesis using unat_word_of_nat [OF assms(2)] by simp
qed

lemma decimal_loop_value:
  assumes "list_all is_digit s" and "(unat v + 1) * 10 ^ length s \<le> 2 ^ 64"
  shows "map_option unat (decimal_loop s v) =
    Some (foldl (\<lambda>a d. a * 10 + d) (unat v) (map (\<lambda>c. byte c - 48) s))"
  using assms
proof (induction s arbitrary: v)
  case (Cons c s)
  then have d: "is_digit c" "byte c - 48 < 10" by (auto simp: is_digit_def)
  let ?w = "v * 10 + word_of_int (int (byte c) - 48) :: u64"
  have w: "unat ?w = unat v * 10 + (byte c - 48)" "(unat ?w + 1) * 10 ^ length s \<le> 2 ^ 64"
    using word_room [of v 10 "length s" "byte c - 48"] d Cons.prems decimal_step [of c v] by auto
  with Cons.IH [of ?w] Cons.prems d show ?case by simp
qed simp

lemma decimal_loop_None: "\<not> list_all is_digit s \<Longrightarrow> decimal_loop s v = None"
  by (induction s arbitrary: v) auto

lemma parse_decimal_value:
  "parse_decimal s =
     (if s \<noteq> [] \<and> length s \<le> 19 \<and> list_all is_digit s then Some (dec_value s) else None)"
proof (cases "length s \<le> 19 \<and> list_all is_digit s")
  case True
  have "(10 :: nat) ^ length s \<le> 10 ^ 19" using True by (intro power_increasing) auto
  also have "\<dots> \<le> 2 ^ 64" by simp
  finally have "map_option unat (decimal_loop s 0) = Some (dec_value s)"
    using True decimal_loop_value [of s 0] by (simp add: dec_value_def digits_value_def)
  with True show ?thesis by (simp add: parse_decimal_def)
qed (auto simp: parse_decimal_def decimal_loop_None not_le)

section \<open>Hexadecimal\<close>

lemma hex_value_less: "hex_value c < 16"
  by (auto simp: hex_value_def)

lemma push_bit_or:
  assumes "d < 16"
  shows "push_bit 4 v OR word_of_nat d = v * 16 + (word_of_nat d :: u64)"
proof -
  have d: "word_of_nat d = take_bit 4 (word_of_nat d :: u64)"
    using assms by (simp add: take_bit_of_nat take_bit_nat_eq_self)
  have "push_bit 4 v AND word_of_nat d = (0 :: u64)"
    by (subst d, intro bit_word_eqI) (auto simp: bit_simps)
  then show ?thesis
    by (subst disjunctive_add_eq_or [symmetric]) (simp_all add: push_bit_eq_mult)
qed

lemma hex_step:
  assumes "is_hex c" and "unat v * 16 + nat (hex_value c) < 2 ^ 64"
  shows "unat (push_bit 4 v OR word_of_int (hex_value c) :: u64) = unat v * 16 + nat (hex_value c)"
proof -
  let ?d = "nat (hex_value c)"
  have d: "hex_value c = int ?d" "?d < 16" using assms(1) hex_value_less [of c] by (auto simp: is_hex_def)
  have "push_bit 4 v OR word_of_int (hex_value c) = v * 16 + (word_of_nat ?d :: u64)"
    using push_bit_or [OF d(2), of v] by (subst d(1)) (simp only: of_int_of_nat_eq)
  also have "\<dots> = word_of_nat (unat v) * word_of_nat 16 + word_of_nat ?d"
    by (simp only: of_nat_unat of_nat_numeral ucast_id)
  also have "\<dots> = word_of_nat (unat v * 16 + ?d)"
    by (simp only: of_nat_add of_nat_mult)
  finally show ?thesis using unat_word_of_nat [OF assms(2)] by simp
qed

lemma hex_loop_value:
  assumes "list_all is_hex s" and "(unat v + 1) * 16 ^ length s \<le> 2 ^ 64"
  shows "map_option unat (hex_loop s v) =
    Some (foldl (\<lambda>a d. a * 16 + d) (unat v) (map (\<lambda>c. nat (hex_value c)) s))"
  using assms
proof (induction s arbitrary: v)
  case (Cons c s)
  then have d: "is_hex c" "nat (hex_value c) < 16" using hex_value_less [of c] by (auto simp: is_hex_def)
  let ?w = "push_bit 4 v OR word_of_int (hex_value c) :: u64"
  have w: "unat ?w = unat v * 16 + nat (hex_value c)" "(unat ?w + 1) * 16 ^ length s \<le> 2 ^ 64"
    using word_room [of v 16 "length s" "nat (hex_value c)"] d Cons.prems hex_step [of c v] by auto
  with Cons.IH [of ?w] Cons.prems d show ?case by (simp add: is_hex_def)
qed simp

lemma hex_loop_None: "\<not> list_all is_hex s \<Longrightarrow> hex_loop s v = None"
  by (induction s arbitrary: v) (auto simp: is_hex_def)

lemma hex_loop_text:
  assumes "length s \<le> 16"
  shows "map_option unat (hex_loop s 0) =
    (if list_all is_hex s then Some (hex_text_value s) else None)"
proof -
  have "(16 :: nat) ^ length s \<le> 16 ^ 16" using assms by (intro power_increasing) auto
  also have "\<dots> \<le> 2 ^ 64" by simp
  finally show ?thesis
    using hex_loop_value [of s 0] by (simp add: hex_text_value_def digits_value_def hex_loop_None)
qed

section \<open>Printed numbers are read back\<close>

lemma is_digit_char: "d < 10 \<Longrightarrow> is_digit (digit_char d)"
  by (simp add: is_digit_def byte_digit_char)

lemma dec_value_to_chars: "dec_value (to_chars 10 n) = n"
proof -
  have "map (\<lambda>c. byte c - 48) (to_chars 10 n) = to_digits 10 n"
    unfolding to_chars_digits map_map
    by (rule map_idI) (use to_digits_less [of 10 _ n] in \<open>force simp: byte_digit_char\<close>)
  then show ?thesis by (simp add: dec_value_def digits_value_to_digits)
qed

lemma to_chars_digit_string:
  "to_chars 10 n \<noteq> []" "list_all is_digit (to_chars 10 n)"
  using to_digits_less [of 10 _ n] by (auto simp: to_chars_digits list_all_iff is_digit_char)

lemma hex_digit_char: "d < 16 \<Longrightarrow> hex_value (digit_char d) = int d"
  by (auto simp: hex_value_def byte_digit_char)

lemma hex_value_to_chars: "hex_text_value (to_chars 16 n) = n"
proof -
  have "map (\<lambda>c. nat (hex_value c)) (to_chars 16 n) = to_digits 16 n"
    unfolding to_chars_digits map_map
    by (rule map_idI) (use to_digits_less [of 16 _ n] in \<open>force simp: hex_digit_char\<close>)
  then show ?thesis by (simp add: hex_text_value_def digits_value_to_digits)
qed

lemma to_chars_hex_string:
  "to_chars 16 n \<noteq> []" "list_all is_hex (to_chars 16 n)"
  using to_digits_less [of 16 _ n] by (auto simp: to_chars_digits list_all_iff is_hex_def hex_digit_char)

lemma parse_decimal_to_chars: "n < 10 ^ 19 \<Longrightarrow> parse_decimal (to_chars 10 n) = Some n"
  using to_chars_digit_string [of n] length_to_digits [of 10 n 18]
  by (simp add: parse_decimal_value dec_value_to_chars) (simp add: to_chars_digits)

end
