(* ===== verification/Response_Writer.thy ===== *)
theory Response_Writer
  imports Header_List "HOL-Library.Signed_Division"
begin

text \<open>
  Responses and their serialisation, \<^verbatim>\<open>src/src/http/response.hpp\<close> and
  \<^verbatim>\<open>src/src/http/response.cpp\<close>. A \<^verbatim>\<open>BodyProducer\<close> is an object with hidden state that is called
  again and again: a value of the codatatype \<open>Producer\<close>, whose \<open>pull\<close> takes the two arguments of
  the call and answers an exception (\<^term>\<open>Inl\<close> with its text) or the result, the two arguments as
  the call left them, and the object for the next call. A descriptor is its number, negative
  when there is none, as in \<^verbatim>\<open>src/src/util/unique_fd.hpp\<close>.
\<close>

section \<open>Data\<close>

codatatype Producer =
  Producer (pull: "string \<Rightarrow> Headers \<Rightarrow> string + (bool \<times> string \<times> Headers \<times> Producer)")

definition fd_valid :: "int \<Rightarrow> bool" where
  "fd_valid fd \<longleftrightarrow> fd \<ge> 0"

record Response =
  status :: int
  res_headers :: Headers
  res_body :: string
  res_file :: int
  file_offset :: size_t
  file_length :: size_t
  producer :: "Producer option"
  stream_length :: "size_t option"

definition new_response :: Response where
  "new_response =
     \<lparr>status = 200, res_headers = no_headers, res_body = [], res_file = -1, file_offset = 0,
      file_length = 0, producer = None, stream_length = None\<rparr>"

datatype Framing = NoBody | ContentLength | Chunked | CloseDelimited

record HeadOptions =
  opt_keep_alive :: bool
  http10_client :: bool
  date :: string

section \<open>Operations\<close>

text \<open>\<^verbatim>\<open>append_number\<close> takes a \<^verbatim>\<open>std::uint64_t\<close>; the conversion of an \<^verbatim>\<open>int\<close> wraps.\<close>

definition to_u64 :: "int \<Rightarrow> nat" where
  "to_u64 i = nat (i mod 2 ^ 64)"

definition append_number :: "string \<Rightarrow> nat \<Rightarrow> nat \<Rightarrow> string" where
  "append_number out v base = out @ to_chars base v"

definition is_framing_header :: "string \<Rightarrow> bool" where
  "is_framing_header name \<longleftrightarrow>
     iequals name ''Content-Length'' \<or> iequals name ''Transfer-Encoding'' \<or>
     iequals name ''Connection'' \<or> iequals name ''Date''"

definition reason_table :: "(int \<times> string) list" where
  "reason_table =
     [(100, ''Continue''), (200, ''OK''), (201, ''Created''), (204, ''No Content''),
      (206, ''Partial Content''), (301, ''Moved Permanently''), (302, ''Found''),
      (304, ''Not Modified''), (400, ''Bad Request''), (403, ''Forbidden''),
      (404, ''Not Found''), (405, ''Method Not Allowed''), (408, ''Request Timeout''),
      (411, ''Length Required''), (413, ''Content Too Large''), (414, ''URI Too Long''),
      (417, ''Expectation Failed''), (429, ''Too Many Requests''),
      (431, ''Request Header Fields Too Large''), (500, ''Internal Server Error''),
      (501, ''Not Implemented''), (503, ''Service Unavailable''),
      (505, ''HTTP Version Not Supported'')]"

definition reason_phrase :: "int \<Rightarrow> string" where
  "reason_phrase st = (case map_of reason_table st of Some phrase \<Rightarrow> phrase | None \<Rightarrow> ''Unknown'')"

definition text_response :: "int \<Rightarrow> string \<Rightarrow> string \<Rightarrow> Response" where
  "text_response st body content_type =
     new_response\<lparr>status := st,
       res_headers := h_set (res_headers new_response) ''Content-Type'' content_type,
       res_body := body\<rparr>"

definition default_type :: string where
  "default_type = ''text/plain; charset=utf-8''"

text \<open>The first part of \<^verbatim>\<open>write_head\<close>: the framing and the length it declares.\<close>

definition choose_framing :: "Response \<Rightarrow> HeadOptions \<Rightarrow> Framing \<times> size_t" where
  "choose_framing res opts =
     (if status res sdiv 100 = 1 \<or> status res = 204 \<or> status res = 304 then (NoBody, 0)
      else if fd_valid (res_file res) then (ContentLength, file_length res)
      else if producer res \<noteq> None then
        (case stream_length res of
           Some len \<Rightarrow> (ContentLength, len)
         | None \<Rightarrow> (if http10_client opts then CloseDelimited else Chunked, 0))
      else (ContentLength, length (res_body res)))"

definition append_field :: "string \<Rightarrow> Field \<Rightarrow> string" where
  "append_field out f = out @ fst f @ '': '' @ snd f @ kCRLF"

definition write_head :: "string \<Rightarrow> Response \<Rightarrow> HeadOptions \<Rightarrow> string \<times> Framing" where
  "write_head out res opts =
     (let (framing, len) = choose_framing res opts;
          keep = (opt_keep_alive opts \<and> framing \<noteq> CloseDelimited);
          out = out @ ''HTTP/1.1 '';
          out = append_number out (to_u64 (status res)) 10;
          out = out @ '' '' @ reason_phrase (status res) @ kCRLF;
          out = foldl (\<lambda>out f. if is_framing_header (fst f) then out else append_field out f)
                  out (field_list (res_headers res));
          out = (if \<not> h_has (res_headers res) ''Server'' then out @ ''Server: httpd-cpp'' @ kCRLF else out);
          out = (if date opts \<noteq> [] then out @ ''Date: '' @ date opts @ kCRLF else out);
          out = (if framing = ContentLength then append_number (out @ ''Content-Length: '') len 10 @ kCRLF
                 else if framing = Chunked then out @ ''Transfer-Encoding: chunked'' @ kCRLF
                 else out);
          out = (if \<not> keep then out @ ''Connection: close'' @ kCRLF
                 else if http10_client opts then out @ ''Connection: keep-alive'' @ kCRLF
                 else out)
      in (out @ kCRLF, framing))"

definition append_chunk :: "string \<Rightarrow> string \<Rightarrow> string" where
  "append_chunk out data =
     (if data = [] then out
      else append_number out (length data) 16 @ kCRLF @ data @ kCRLF)"

definition append_last_chunk :: "string \<Rightarrow> Headers \<Rightarrow> string" where
  "append_last_chunk out trailers =
     foldl append_field (out @ ''0'' @ kCRLF) (field_list trailers) @ kCRLF"

lemmas response_defs [run_simps] =
  fd_valid_def new_response_def to_u64_def append_number_def is_framing_header_def
  reason_table_def reason_phrase_def text_response_def default_type_def choose_framing_def append_field_def
  write_head_def append_chunk_def append_last_chunk_def to_chars.simps

section \<open>The fields of a head\<close>

text \<open>The fields that \<^verbatim>\<open>write_head\<close> writes, in order, and the shape of its output.\<close>

definition head_fields :: "Response \<Rightarrow> HeadOptions \<Rightarrow> Field list" where
  "head_fields res opts =
     (let (framing, len) = choose_framing res opts in
      filter (\<lambda>f. \<not> is_framing_header (fst f)) (field_list (res_headers res)) @
      (if h_has (res_headers res) ''Server'' then [] else [(''Server'', ''httpd-cpp'')]) @
      (if date opts = [] then [] else [(''Date'', date opts)]) @
      (case framing of
         ContentLength \<Rightarrow> [(''Content-Length'', to_chars 10 len)]
       | Chunked \<Rightarrow> [(''Transfer-Encoding'', ''chunked'')]
       | _ \<Rightarrow> []) @
      (if \<not> (opt_keep_alive opts \<and> framing \<noteq> CloseDelimited) then [(''Connection'', ''close'')]
       else if http10_client opts then [(''Connection'', ''keep-alive'')]
       else []))"

definition render_field :: "Field \<Rightarrow> string" where
  "render_field f = fst f @ '': '' @ snd f @ kCRLF"

definition status_line :: "int \<Rightarrow> string" where
  "status_line st = ''HTTP/1.1 '' @ to_chars 10 (to_u64 st) @ '' '' @ reason_phrase st"

lemma foldl_append_field: "foldl append_field out fs = out @ concat (map render_field fs)"
  by (induction fs arbitrary: out) (simp_all add: append_field_def render_field_def)

lemma foldl_filtered:
  "foldl (\<lambda>out f. if P f then out else append_field out f) out fs =
     out @ concat (map render_field (filter (\<lambda>f. \<not> P f) fs))"
  by (induction fs arbitrary: out) (simp_all add: append_field_def render_field_def)

lemma write_head_shape:
  "write_head out res opts =
     (out @ status_line (status res) @ kCRLF @ concat (map render_field (head_fields res opts)) @ kCRLF,
      fst (choose_framing res opts))"
proof (cases "choose_framing res opts")
  case (Pair framing len)
  show ?thesis
    unfolding write_head_def head_fields_def Pair Let_def prod.case foldl_filtered fst_conv
      append_number_def status_line_def
    by (cases framing; cases "date opts = []"; cases "h_has (res_headers res) ''Server''";
        cases "opt_keep_alive opts"; cases "http10_client opts")
      (simp_all add: render_field_def)
qed

lemma append_last_chunk_shape:
  "append_last_chunk out trailers =
     out @ ''0'' @ kCRLF @ concat (map render_field (field_list trailers)) @ kCRLF"
  by (simp add: append_last_chunk_def foldl_append_field)

section \<open>Where a head ends\<close>

definition kBlank :: string where
  "kBlank = kCRLF @ kCRLF"

lemma find_blank_skip:
  "CR \<notin> set line \<Longrightarrow> find_str kBlank (line @ s) = map_option (\<lambda>i. i + length line) (find_str kBlank s)"
  by (induction line) (auto simp: kBlank_def kCRLF_def option.map_comp o_def option.map_ident)

lemma find_blank_next:
  assumes "line \<noteq> []" "CR \<notin> set line"
  shows "find_str kBlank (kCRLF @ line @ s) = map_option (\<lambda>i. i + 2) (find_str kBlank (line @ s))"
proof -
  obtain c cs where line: "line = c # cs" "c \<noteq> CR" using assms by (cases line) auto
  have "find_str kBlank (CR # LF # c # t) = map_option (\<lambda>i. i + 2) (find_str kBlank (c # t))" for t
    using line(2) by (simp add: kBlank_def kCRLF_def option.map_comp o_def)
  then show ?thesis by (simp add: line kCRLF_def)
qed

text \<open>The blank line after a sequence of proper lines is the first one.\<close>

definition lines_text :: "string list \<Rightarrow> string" where
  "lines_text ls = concat (map (\<lambda>l. l @ kCRLF) ls)"

lemma find_blank_lines:
  assumes "ls \<noteq> []" and "list_all (\<lambda>l. l \<noteq> [] \<and> CR \<notin> set l) ls"
  shows "find_str kBlank (lines_text ls @ kCRLF @ s) = Some (length (lines_text ls) - 2)"
  using assms
proof (induction ls rule: induct_list012)
  case (2 l)
  have "find_str kBlank (kBlank @ s) = Some 0" by (simp add: kBlank_def kCRLF_def)
  with 2 find_blank_skip [of l "kBlank @ s"] show ?case by (simp add: lines_text_def kBlank_def)
next
  case (3 l m ls)
  let ?t = "lines_text (m # ls) @ kCRLF @ s"
  have t: "?t = m @ (kCRLF @ lines_text ls @ kCRLF @ s)" by (simp add: lines_text_def)
  have "find_str kBlank (l @ kCRLF @ ?t) = map_option (\<lambda>i. i + length l) (find_str kBlank (kCRLF @ ?t))"
    using "3.prems" by (simp add: find_blank_skip)
  also have "find_str kBlank (kCRLF @ ?t) = map_option (\<lambda>i. i + 2) (find_str kBlank ?t)"
    unfolding t using "3.prems" by (intro find_blank_next) simp_all
  also have "find_str kBlank ?t = Some (length (lines_text (m # ls)) - 2)"
    using "3.prems" by (intro "3.IH") simp_all
  finally show ?case by (simp add: lines_text_def)
qed simp

definition field_line_text :: "Field \<Rightarrow> string" where
  "field_line_text f = fst f @ '': '' @ snd f"

definition head_lines :: "Response \<Rightarrow> HeadOptions \<Rightarrow> string list" where
  "head_lines res opts = status_line (status res) # map field_line_text (head_fields res opts)"

lemma write_head_lines: "fst (write_head out res opts) = out @ lines_text (head_lines res opts) @ kCRLF"
proof -
  have "concat (map render_field fs) = lines_text (map field_line_text fs)" for fs
    by (induction fs) (simp_all add: lines_text_def render_field_def field_line_text_def)
  then show ?thesis by (simp add: write_head_shape head_lines_def) (simp add: lines_text_def)
qed

text \<open>Nothing a handler puts into the head can end a line early.\<close>

definition head_clean :: "Response \<Rightarrow> HeadOptions \<Rightarrow> bool" where
  "head_clean res opts \<longleftrightarrow> CR \<notin> set (date opts) \<and>
     list_all (\<lambda>f. CR \<notin> set (fst f) \<and> CR \<notin> set (snd f)) (field_list (res_headers res))"

lemma to_chars_no_CR: "base \<le> 16 \<Longrightarrow> 2 \<le> base \<Longrightarrow> CR \<notin> set (to_chars base n)"
proof
  assume b: "base \<le> 16" "2 \<le> base" and "CR \<in> set (to_chars base n)"
  then obtain d where "d \<in> set (to_digits base n)" "CR = digit_char d" by (auto simp: to_chars_digits)
  moreover from this b have "d < 16" using to_digits_less [of base d n] by simp
  ultimately have "byte CR = (if d < 10 then 48 + d else 87 + d)" by (simp add: byte_digit_char)
  then show False by (simp split: if_splits)
qed

lemma reason_phrase_no_CR: "CR \<notin> set (reason_phrase st)"
proof (cases "map_of reason_table st")
  case (Some phrase)
  then have "(st, phrase) \<in> set reason_table" by (rule map_of_SomeD)
  moreover have "list_all (\<lambda>(_, phrase). CR \<notin> set phrase) reason_table" by (simp add: reason_table_def)
  ultimately show ?thesis using Some by (auto simp: reason_phrase_def list_all_iff)
qed (simp add: reason_phrase_def)

lemma head_lines_clean:
  assumes "head_clean res opts"
  shows "list_all (\<lambda>l. l \<noteq> [] \<and> CR \<notin> set l) (head_lines res opts)"
proof -
  have "CR \<notin> set (status_line (status res))"
    by (simp add: status_line_def to_chars_no_CR reason_phrase_no_CR)
  moreover have "CR \<notin> set (fst f)" "CR \<notin> set (snd f)" if "f \<in> set (head_fields res opts)" for f
    using that assms
    by (auto simp: head_fields_def head_clean_def list_all_iff to_chars_no_CR Let_def case_prod_unfold
        split: if_splits Framing.splits)
  ultimately show ?thesis
    by (auto simp: head_lines_def list_all_iff field_line_text_def) (simp_all add: status_line_def)
qed

definition named :: "string \<Rightarrow> Field list \<Rightarrow> Field list" where
  "named n fs = filter (\<lambda>f. iequals (fst f) n) fs"

section \<open>Properties\<close>

text \<open>C21: No response splitting: when the header values of a response and the date hold no CR, the
  head that is written contains exactly one blank line, at its very end, so that no value can end
  the head early, whatever handler produced it and whatever follows it.\<close>

theorem head_ends_once:
  assumes "head_clean res opts"
  shows "find_str kBlank (fst (write_head [] res opts) @ rest) =
    Some (length (fst (write_head [] res opts)) - 4)"
  using find_blank_lines [OF _ head_lines_clean [OF assms], of rest]
  by (simp add: write_head_lines head_lines_def)

theorem head_ends_once_witness:
  "let res = text_response 200 ''hi'' default_type; opts = \<lparr>opt_keep_alive = True, http10_client = False, date = []\<rparr>
   in find_str kBlank (fst (write_head [] res opts) @ ''hi'') = Some (length (fst (write_head [] res opts)) - 4)"
  unfolding Let_def
  by (rule head_ends_once) (simp add: head_clean_def run_simps)

text \<open>C22: The framing fields of a response are derived from the response alone. Whatever fields the
  handler set, the head has exactly one Content-Length, with the length that will be sent, when the
  body is framed by length, and none otherwise; exactly one Transfer-Encoding, saying chunked, when
  the body is chunked, and none otherwise; never both; at most one Connection and one Date. Every
  other field of the handler is written unchanged and in order.\<close>

theorem framing_fields_derived:
  "let (out, framing) = write_head [] res opts; fs = head_fields res opts in
     out = status_line (status res) @ kCRLF @ concat (map render_field fs) @ kCRLF \<and>
     named ''Content-Length'' fs =
       (if framing = ContentLength then [(''Content-Length'', to_chars 10 (snd (choose_framing res opts)))] else []) \<and>
     named ''Transfer-Encoding'' fs = (if framing = Chunked then [(''Transfer-Encoding'', ''chunked'')] else []) \<and>
     length (named ''Connection'' fs) \<le> 1 \<and> length (named ''Date'' fs) \<le> 1 \<and>
     (\<exists>gs. fs = filter (\<lambda>f. \<not> is_framing_header (fst f)) (field_list (res_headers res)) @ gs)"
proof -
  let ?h = "filter (\<lambda>f. \<not> is_framing_header (fst f)) (field_list (res_headers res))"
  have user: "named n ?h = []" if "n \<in> {''Content-Length'', ''Transfer-Encoding'', ''Connection'', ''Date''}" for n
    using that by (auto simp: named_def is_framing_header_def filter_empty_conv)
  have ieq: "iequals ''Server'' ''Content-Length'' = False" "iequals ''Server'' ''Transfer-Encoding'' = False"
    "iequals ''Server'' ''Connection'' = False" "iequals ''Server'' ''Date'' = False"
    "iequals ''Date'' ''Content-Length'' = False" "iequals ''Date'' ''Transfer-Encoding'' = False"
    "iequals ''Date'' ''Connection'' = False" "iequals ''Content-Length'' ''Transfer-Encoding'' = False"
    "iequals ''Content-Length'' ''Connection'' = False" "iequals ''Content-Length'' ''Date'' = False"
    "iequals ''Transfer-Encoding'' ''Content-Length'' = False" "iequals ''Transfer-Encoding'' ''Connection'' = False"
    "iequals ''Transfer-Encoding'' ''Date'' = False" "iequals ''Connection'' ''Content-Length'' = False"
    "iequals ''Connection'' ''Transfer-Encoding'' = False" "iequals ''Connection'' ''Date'' = False"
    by (simp_all add: iequals_def ascii_lower_def)
  obtain framing len where c: "choose_framing res opts = (framing, len)" by (cases "choose_framing res opts")
  have app: "named n (xs @ ys) = named n xs @ named n ys" for n xs ys by (simp add: named_def)
  show ?thesis
    unfolding write_head_shape c head_fields_def Let_def prod.case app fst_conv snd_conv
    by (cases framing) (simp_all add: user, simp_all add: named_def ieq)
qed

end
