(* ===== verification/Round_Trip.thy ===== *)
theory Round_Trip
  imports Parser_Properties Response_Writer
begin

text \<open>
  Messages written out are read back. A request with a Content-Length body, and a request whose
  body is written with the chunk writer of \<^verbatim>\<open>src/src/http/response.cpp\<close>, are parsed by
  \<^verbatim>\<open>RequestParser::feed\<close> to exactly the request that was written, and the bytes that follow (a
  pipelined request) are left untouched.
\<close>

section \<open>The text of a request\<close>

definition request_line_text :: "string \<Rightarrow> string \<Rightarrow> nat \<Rightarrow> string" where
  "request_line_text m t minor = m @ '' '' @ t @ '' HTTP/1.'' @ to_chars 10 minor"

definition fields_text :: "Field list \<Rightarrow> string" where
  "fields_text fs = concat (map render_field fs)"

definition field_ok :: "Field \<Rightarrow> bool" where
  "field_ok f \<longleftrightarrow> is_token (fst f) \<and> \<not> list_ex bad_value_char (snd f) \<and> trim_ows (snd f) = snd f"

definition add_all :: "Headers \<Rightarrow> Field list \<Rightarrow> Headers" where
  "add_all h fs = foldl (\<lambda>h f. h_add h (fst f) (snd f)) h fs"

lemma fields_text_simps [simp]:
  "fields_text [] = []" "fields_text (f # fs) = render_field f @ fields_text fs"
  by (simp_all add: fields_text_def)

section \<open>One field line\<close>

lemma clean_value: "\<not> list_ex bad_value_char v \<Longrightarrow> CR \<notin> set v"
  by (auto simp: list_ex_iff bad_value_char_def)

lemma parse_field_text:
  assumes "field_ok (n, v)"
    and "into \<Longrightarrow> iequals n ''Host'' \<Longrightarrow> \<not> h_has (req_headers (req p)) ''Host''"
  shows "parse_field_line p into (n @ '': '' @ v) = (add_field p into n v, True)"
proof -
  have tok: "is_token n" "CHR '':'' \<notin> set n" using assms(1) is_token_not_special [of n] by (auto simp: field_ok_def)
  then have "find_char CHR '':'' (n @ CHR '':'' # SP # v) = Some (length n)"
    by (intro find_char_at)
  with tok assms show ?thesis by (auto simp: parse_field_line_def field_ok_def Let_def)
qed

lemma field_text_turn:
  assumes "state p = InHeaders \<or> state p = InTrailers" and "limits_ok (limits p)"
    and "header_bytes p + length (render_field (n, v)) \<le> max_header_bytes (limits p)"
    and "header_count p + 1 \<le> max_header_count (limits p)" and ok: "field_ok (n, v)"
    and host: "state p = InHeaders \<Longrightarrow> iequals n ''Host'' \<Longrightarrow> \<not> h_has (req_headers (req p)) ''Host''"
  shows "turn p (render_field (n, v) @ s) =
    Continue (add_field (p\<lparr>header_bytes := header_bytes p + length (render_field (n, v)),
      header_count := header_count p + 1\<rparr>) (state p = InHeaders) n v) (length (render_field (n, v)))"
proof -
  let ?line = "n @ '': '' @ v"
  have "CR \<notin> set ?line" using ok is_token_not_special [of n] clean_value [of v] by (auto simp: field_ok_def)
  then have eol: "find_str kCRLF (?line @ kCRLF @ s) = Some (length ?line)"
    using find_str_line [of ?line s] by (simp add: kCRLF_def)
  have shape: "render_field (n, v) @ s = ?line @ kCRLF @ s" "length (render_field (n, v)) = length ?line + 2"
    by (simp_all add: render_field_def)
  have "n \<noteq> []" using ok by (auto simp: field_ok_def is_token_def)
  have sums: "szadd (header_bytes p) (length ?line + 2) = header_bytes p + (length ?line + 2)"
    "szadd (header_count p) 1 = header_count p + 1"
    using assms(2-4) shape(2) by (auto simp: limits_ok_def)
  have "turn p (render_field (n, v) @ s) = turn_field_line p (?line @ kCRLF @ s)"
    using assms(1) by (auto simp: turn_def shape)
  also have "\<dots> = field_line (p\<lparr>header_bytes := header_bytes p + (length ?line + 2),
      header_count := header_count p + 1\<rparr>) ?line (length ?line + 2)"
    unfolding turn_field_line_parts eol option.case Let_def sums
    using assms(3) shape(2) \<open>n \<noteq> []\<close> by (simp del: add_2_eq_Suc')
  also have "\<dots> = Continue (add_field (p\<lparr>header_bytes := header_bytes p + (length ?line + 2),
      header_count := header_count p + 1\<rparr>) (state p = InHeaders) n v) (length ?line + 2)"
    unfolding field_line_def using assms(4) host
    by (subst parse_field_text [OF ok]) auto
  finally show ?thesis unfolding shape(2) .
qed

section \<open>A section of fields\<close>

definition with_fields :: "RequestParser \<Rightarrow> Field list \<Rightarrow> RequestParser" where
  "with_fields p fs =
     p\<lparr>header_bytes := header_bytes p + length (fields_text fs),
       header_count := header_count p + length fs,
       req := (if state p = InHeaders then (req p)\<lparr>req_headers := add_all (req_headers (req p)) fs\<rparr>
               else (req p)\<lparr>req_trailers := add_all (req_trailers (req p)) fs\<rparr>)\<rparr>"

definition one_host :: "RequestParser \<Rightarrow> Field list \<Rightarrow> bool" where
  "one_host p fs \<longleftrightarrow> state p = InTrailers \<or>
     length (values_of ''Host'' fs) + (if h_has (req_headers (req p)) ''Host'' then 1 else 0) \<le> 1"

lemma with_fields_simps [simp]:
  "state (with_fields p fs) = state p" "limits (with_fields p fs) = limits p"
  "header_bytes (with_fields p fs) = header_bytes p + length (fields_text fs)"
  "header_count (with_fields p fs) = header_count p + length fs"
  by (simp_all add: with_fields_def)

lemma with_fields_Nil [simp]: "with_fields p [] = p"
  by (simp add: with_fields_def add_all_def)

lemma with_fields_Cons:
  "with_fields p (f # fs) = with_fields (with_fields p [f]) fs"
  by (simp add: with_fields_def add_all_def)

lemma one_host_step:
  assumes "one_host p (f # fs)" and "state p = InHeaders \<or> state p = InTrailers"
  shows "one_host (with_fields p [f]) fs"
    and "state p = InHeaders \<Longrightarrow> iequals (fst f) ''Host'' \<Longrightarrow> \<not> h_has (req_headers (req p)) ''Host''"
  using assms
  by (auto simp: one_host_def with_fields_def add_all_def values_of_def iequals_key h_has_get
      h_get_add split: if_splits)

lemma feed_fields:
  assumes "state p = InHeaders \<or> state p = InTrailers" and "limits_ok (limits p)"
    and "header_bytes p + length (fields_text fs) \<le> max_header_bytes (limits p)"
    and "header_count p + length fs \<le> max_header_count (limits p)"
    and "list_all field_ok fs" and "one_host p fs"
  shows "feed p (fields_text fs @ s) =
    (fst (feed (with_fields p fs) s), length (fields_text fs) + snd (feed (with_fields p fs) s))"
  using assms
proof (induction fs arbitrary: p)
  case (Cons f fs)
  obtain n v where f: "f = (n, v)" by (cases f)
  let ?q = "with_fields p [f]"
  have "turn p (render_field f @ (fields_text fs @ s)) = Continue ?q (length (render_field f))"
    using Cons.prems one_host_step(2) [OF Cons.prems(6,1)]
    by (subst f, subst field_text_turn) (auto simp: f with_fields_def add_field_def add_all_def)
  then have "feed p (fields_text (f # fs) @ s) =
      (fst (feed ?q (fields_text fs @ s)), length (render_field f) + snd (feed ?q (fields_text fs @ s)))"
    by (simp add: feed_Continue)
  moreover have "feed ?q (fields_text fs @ s) =
      (fst (feed (with_fields ?q fs) s), length (fields_text fs) + snd (feed (with_fields ?q fs) s))"
    using Cons.prems one_host_step(1) [OF Cons.prems(6,1)] by (intro Cons.IH) simp_all
  ultimately show ?case unfolding with_fields_Cons [of p f fs] by simp
qed simp

section \<open>The request line and the end of the head\<close>

definition target_parts :: "string \<Rightarrow> string \<Rightarrow> (string \<times> string) option" where
  "target_parts m t = map_option (\<lambda>pq. (upto_pos (find_char CHR ''?'' pq) pq,
     case find_char CHR ''?'' pq of None \<Rightarrow> [] | Some q \<Rightarrow> drop (q + 1) pq)) (path_and_query m t)"

lemma valid_target_no_blank: "valid_target t \<Longrightarrow> SP \<notin> set t \<and> CR \<notin> set t"
  by (auto simp: valid_target_def list_all_iff)

lemma minor_text: "minor \<le> 1 \<Longrightarrow> to_chars 10 minor = (if minor = 0 then ''0'' else ''1'')"
  by (auto simp: le_Suc_eq to_chars.simps [of 10 0] to_chars.simps [of 10 "Suc 0"] digit_char_nth)

lemma parse_request_line_text:
  assumes "is_token m" "valid_target t" "minor \<le> 1" "target_parts m t = Some (pt, q)"
  shows "parse_request_line p (request_line_text m t minor) =
    (p\<lparr>req := (req p)\<lparr>req_method := m, target := t, path := pt, query := q,
       version_major := 1, version_minor := int minor\<rparr>\<rparr>, True)"
proof -
  define v where "v = ''HTTP/1.'' @ to_chars 10 minor"
  let ?line = "m @ SP # t @ SP # v"
  have v: "SP \<notin> set v" "well_formed_version v" "byte (v ! 5) = 49" "byte (v ! 7) = 48 + minor"
    using assms(3)
    by (auto simp: v_def minor_text well_formed_version_def is_digit_def)
  have m: "SP \<notin> set m" and t: "SP \<notin> set t"
    using assms is_token_not_special [of m] valid_target_no_blank [of t] by auto
  have line: "request_line_text m t minor = ?line" by (simp add: request_line_text_def v_def)
  have sp1: "find_char SP ?line = Some (length m)" using m by (rule find_char_at)
  have sp2: "find_char_from SP ?line (length m + 1) = Some (length m + 1 + length t)"
    using find_char_at [OF t, of v] by (simp add: find_char_from_def)
  have sp3: "find_char_from SP ?line (length m + 1 + length t + 1) = None"
    using v(1) by (simp add: find_char_from_def find_char_None)
  show ?thesis
    using assms v
    unfolding line parse_request_line_def Let_def sp1 option.case sp2 sp3 option.sel
    by (auto simp: target_parts_def Let_def)
qed

lemma request_line_turn:
  assumes "is_token m" "valid_target t" "minor \<le> 1" "target_parts m t = Some (pt, q)"
    and "state p = RequestLine" and "length (request_line_text m t minor) \<le> max_request_line (limits p)"
  shows "turn p (request_line_text m t minor @ kCRLF @ s) =
    Continue (p\<lparr>req := (req p)\<lparr>req_method := m, target := t, path := pt, query := q,
       version_major := 1, version_minor := int minor\<rparr>, state := InHeaders\<rparr>)
      (length (request_line_text m t minor) + 2)"
proof -
  let ?line = "request_line_text m t minor"
  have "CR \<notin> set ?line" "?line \<noteq> []"
    using assms(1,2,3) is_token_not_special [of m] valid_target_no_blank [of t]
    by (auto simp: request_line_text_def minor_text)
  moreover from this have "find_str kCRLF (?line @ kCRLF @ s) = Some (length ?line)"
    using find_str_line [of ?line s] by (simp add: kCRLF_def)
  ultimately show ?thesis
    using assms(5,6) parse_request_line_text [OF assms(1-4), of p]
    by (simp add: turn_def turn_request_line_def)
qed

lemma blank_line_turn:
  assumes "state p = InHeaders \<or> state p = InTrailers" and "limits_ok (limits p)"
    and "header_bytes p + 2 \<le> max_header_bytes (limits p)"
  shows "turn p (kCRLF @ s) = blank_line (p\<lparr>header_bytes := header_bytes p + 2\<rparr>) 2"
proof -
  have "find_str kCRLF (kCRLF @ s) = Some 0" by (simp add: kCRLF_def)
  moreover have "szadd (header_bytes p) 2 = header_bytes p + 2"
    using assms(2,3) by (auto simp: limits_ok_def)
  ultimately show ?thesis
    using assms(1,3) by (auto simp: turn_def turn_field_line_parts Let_def simp del: add_2_eq_Suc')
qed

section \<open>Bodies\<close>

lemma body_turn:
  assumes "in_body p" and "0 < remaining p" and "length b = remaining p"
  shows "turn p (b @ s) =
    Continue (p\<lparr>req := (req p)\<lparr>req_body := req_body (req p) @ b\<rparr>, remaining := 0,
      state := (if state p = Body then Done else ChunkDataEnd)\<rparr>) (length b)"
  using assms by (auto simp: turn_def in_body_def turn_body_def Let_def)

lemma feed_Done: "state p = Done \<Longrightarrow> feed p s = (p, 0)"
  by (rule feed_Return) (simp add: turn_def)

text \<open>One chunk of the writer, read in the state that expects a chunk size.\<close>

lemma hex_text_line:
  assumes "0 < n" "n \<le> max_body_bytes (limits p)" "limits_ok (limits p)"
    and "length (req_body (req p)) + n \<le> max_body_bytes (limits p)"
  shows "parse_chunk_size p (to_chars 16 n) = (p\<lparr>remaining := n, state := ChunkData\<rparr>, True)"
proof -
  let ?d = "to_chars 16 n"
  have hex: "list_all is_hex ?d" "?d \<noteq> []" by (simp_all add: to_chars_hex_string)
  then have plain: "c \<in> set ?d \<Longrightarrow> c \<noteq> CHR '';'' \<and> \<not> is_ows c" for c
    by (auto simp: list_all_iff is_hex_def hex_value_def is_ows_def)
  then have "find_char CHR '';'' ?d = None" by (auto simp: find_char_None)
  moreover have "trim_ows ?d = ?d"
    using plain hex(2) by (intro trim_ows_id) simp
  moreover have "n < 16 ^ Suc 15" using assms(2,3) by (simp add: limits_ok_def)
  then have len: "length ?d \<le> 16"
    using length_to_digits [of 16 n 15] by (simp add: to_chars_digits)
  moreover obtain w where "hex_loop ?d 0 = Some w" "unat w = n"
    using hex_loop_text [OF len] hex(1) hex_value_to_chars [of n] by (auto simp: map_option_eq_Some)
  moreover have "szadd (length (req_body (req p))) n = length (req_body (req p)) + n"
    using assms(3,4) by (simp add: limits_ok_def)
  ultimately show ?thesis
    using hex(2) assms by (simp add: parse_chunk_size_def Let_def)
qed

lemma append_chunk_text:
  "append_chunk out d = out @ append_chunk [] d"
  "d \<noteq> [] \<Longrightarrow> append_chunk [] d = to_chars 16 (length d) @ kCRLF @ d @ kCRLF"
  by (simp_all add: append_chunk_def append_number_def)

definition with_body :: "RequestParser \<Rightarrow> string \<Rightarrow> RequestParser" where
  "with_body p b = p\<lparr>req := (req p)\<lparr>req_body := req_body (req p) @ b\<rparr>\<rparr>"

lemma with_body_simps [simp]:
  "state (with_body p b) = state p" "limits (with_body p b) = limits p"
  "remaining (with_body p b) = remaining p" "header_bytes (with_body p b) = header_bytes p"
  "header_count (with_body p b) = header_count p"
  "req_body (req (with_body p b)) = req_body (req p) @ b" "with_body p [] = p"
  "with_body (with_body p a) b = with_body p (a @ b)"
  by (simp_all add: with_body_def)

lemma chunk_size_turn:
  assumes "state p = ChunkSize" "limits_ok (limits p)" "0 < n"
    and "length (req_body (req p)) + n \<le> max_body_bytes (limits p)"
    and "length (to_chars 16 n) \<le> max_chunk_line (limits p)"
  shows "turn p (to_chars 16 n @ kCRLF @ s) =
    Continue (p\<lparr>remaining := n, state := ChunkData\<rparr>) (length (to_chars 16 n) + 2)"
proof -
  have "CR \<notin> set (to_chars 16 n)"
    using to_chars_hex_string(2) [of n] by (auto simp: list_all_iff is_hex_def hex_value_def)
  then have "find_str kCRLF (to_chars 16 n @ kCRLF @ s) = Some (length (to_chars 16 n))"
    using find_str_line [of "to_chars 16 n" s] by (simp add: kCRLF_def)
  with assms hex_text_line [of n p] show ?thesis by (simp add: turn_def turn_chunk_size_def)
qed

lemma feed_chunk:
  assumes "state p = ChunkSize" "limits_ok (limits p)" "remaining p = 0"
    and "length (req_body (req p)) + length d \<le> max_body_bytes (limits p)"
    and "length (to_chars 16 (length d)) \<le> max_chunk_line (limits p)"
  shows "feed p (append_chunk [] d @ s) =
    (fst (feed (with_body p d) s), length (append_chunk [] d) + snd (feed (with_body p d) s))"
proof (cases "d = []")
  case False
  let ?n = "length d" and ?q = "with_body p d"
  let ?p1 = "p\<lparr>remaining := ?n, state := ChunkData\<rparr>" and ?p2 = "?q\<lparr>state := ChunkDataEnd\<rparr>"
  have t1: "turn p (to_chars 16 ?n @ kCRLF @ (d @ kCRLF @ s)) = Continue ?p1 (length (to_chars 16 ?n) + 2)"
    using assms False by (intro chunk_size_turn) simp_all
  have t2: "turn ?p1 (d @ kCRLF @ s) = Continue ?p2 ?n"
    using False assms(3) body_turn [of ?p1 d "kCRLF @ s"] by (simp add: in_body_def with_body_def)
  have t3: "turn ?p2 (kCRLF @ s) = Continue ?q 2"
    using assms(1) by (simp add: turn_def turn_chunk_data_end_def with_body_def)
  show ?thesis
    unfolding append_chunk_text(2) [OF False] append_assoc
    by (simp add: feed_Continue [OF t1] feed_Continue [OF t2] feed_Continue [OF t3])
qed (simp add: append_chunk_def)

lemma feed_chunks:
  assumes "state p = ChunkSize" "limits_ok (limits p)" "remaining p = 0"
    and "length (req_body (req p)) + length (concat ds) \<le> max_body_bytes (limits p)"
    and "list_all (\<lambda>d. length (to_chars 16 (length d)) \<le> max_chunk_line (limits p)) ds"
  shows "feed p (foldl append_chunk [] ds @ s) =
    (fst (feed (with_body p (concat ds)) s),
     length (foldl append_chunk [] ds) + snd (feed (with_body p (concat ds)) s))"
proof -
  have fold: "foldl append_chunk out ds = out @ concat (map (append_chunk []) ds)" for out ds
    by (induction ds arbitrary: out) (simp_all, subst append_chunk_text(1), simp)
  have "feed p (concat (map (append_chunk []) ds) @ s) =
    (fst (feed (with_body p (concat ds)) s),
     length (concat (map (append_chunk []) ds)) + snd (feed (with_body p (concat ds)) s))"
    using assms
  proof (induction ds arbitrary: p)
    case (Cons d ds)
    let ?q = "with_body p d"
    have "feed ?q (concat (map (append_chunk []) ds) @ s) =
      (fst (feed (with_body ?q (concat ds)) s),
       length (concat (map (append_chunk []) ds)) + snd (feed (with_body ?q (concat ds)) s))"
      using Cons.prems by (intro Cons.IH) simp_all
    moreover have "feed p (append_chunk [] d @ (concat (map (append_chunk []) ds) @ s)) =
      (fst (feed ?q (concat (map (append_chunk []) ds) @ s)),
       length (append_chunk [] d) + snd (feed ?q (concat (map (append_chunk []) ds) @ s)))"
      using Cons.prems by (intro feed_chunk) simp_all
    ultimately show ?case by simp
  qed simp
  then show ?thesis by (simp add: fold)
qed

section \<open>The head of a request\<close>

definition head_text :: "string \<Rightarrow> string \<Rightarrow> nat \<Rightarrow> Field list \<Rightarrow> string" where
  "head_text m t minor fs = request_line_text m t minor @ kCRLF @ fields_text fs @ kCRLF"

text \<open>A head that the limits admit: a token for the method, a target the server understands,
  clean fields, and at most one Host, exactly one in HTTP/1.1.\<close>

definition head_ok :: "ParserLimits \<Rightarrow> string \<Rightarrow> string \<Rightarrow> nat \<Rightarrow> Field list \<Rightarrow> bool" where
  "head_ok lim m t minor fs \<longleftrightarrow>
     is_token m \<and> valid_target t \<and> minor \<le> 1 \<and> target_parts m t \<noteq> None \<and>
     length (request_line_text m t minor) \<le> max_request_line lim \<and>
     list_all field_ok fs \<and> length (fields_text fs) + 2 \<le> max_header_bytes lim \<and>
     length fs \<le> max_header_count lim \<and>
     (if minor = 1 then length (values_of ''Host'' fs) = 1 else length (values_of ''Host'' fs) \<le> 1)"

definition head_request :: "string \<Rightarrow> string \<Rightarrow> nat \<Rightarrow> Field list \<Rightarrow> Request" where
  "head_request m t minor fs =
     empty_request\<lparr>req_method := m, target := t, path := fst (the (target_parts m t)),
       query := snd (the (target_parts m t)), version_major := 1, version_minor := int minor,
       req_headers := add_all no_headers fs\<rparr>"

definition head_parser :: "ParserLimits \<Rightarrow> Request \<Rightarrow> Field list \<Rightarrow> RequestParser" where
  "head_parser lim r fs = (new_parser lim)\<lparr>state := InHeaders, req := r,
     header_bytes := length (fields_text fs) + 2, header_count := length fs\<rparr>"

definition wants_continue :: "Field list \<Rightarrow> bool" where
  "wants_continue fs = (case fold_values (values_of ''Expect'' fs) of
     None \<Rightarrow> False | Some v \<Rightarrow> iequals (trim_ows v) ''100-continue'')"

lemma add_all_get: "h_get (add_all no_headers fs) n = fold_values (values_of n fs)"
  using hm.get_received [of fs n] by (simp add: hm.append_all_def add_all_def)

lemma fold_values_None: "fold_values vs = None \<longleftrightarrow> vs = []"
  by (cases vs) auto

lemma feed_head:
  assumes "head_ok lim m t minor fs" and "limits_ok lim"
    and blank: "blank_line (head_parser lim (head_request m t minor fs) fs) 2 = Continue p 2"
  shows "feed (new_parser lim) (head_text m t minor fs @ s) =
    (fst (feed p s), length (head_text m t minor fs) + snd (feed p s))"
proof -
  obtain pt q where tp: "target_parts m t = Some (pt, q)" using assms(1) by (auto simp: head_ok_def)
  let ?p1 = "(new_parser lim)\<lparr>req := empty_request\<lparr>req_method := m, target := t, path := pt, query := q,
       version_major := 1, version_minor := int minor\<rparr>, state := InHeaders\<rparr>"
  let ?p2 = "with_fields ?p1 fs"
  have t1: "turn (new_parser lim) (request_line_text m t minor @ kCRLF @ (fields_text fs @ kCRLF @ s)) =
      Continue ?p1 (length (request_line_text m t minor) + 2)"
    using assms(1) tp
    by (subst request_line_turn) (simp_all add: head_ok_def new_parser_def)
  have t2: "feed ?p1 (fields_text fs @ (kCRLF @ s)) =
      (fst (feed ?p2 (kCRLF @ s)), length (fields_text fs) + snd (feed ?p2 (kCRLF @ s)))"
    using assms(1,2)
    by (intro feed_fields) (auto simp: head_ok_def new_parser_def one_host_def h_has_get h_get_empty
        empty_request_def split: if_splits)
  have "turn ?p2 (kCRLF @ s) = blank_line (?p2\<lparr>header_bytes := header_bytes ?p2 + 2\<rparr>) 2"
    using assms(1,2) by (intro blank_line_turn) (auto simp: head_ok_def new_parser_def)
  also have "?p2\<lparr>header_bytes := header_bytes ?p2 + 2\<rparr> = head_parser lim (head_request m t minor fs) fs"
    by (simp add: with_fields_def head_parser_def head_request_def new_parser_def tp empty_request_def)
  finally have t3: "turn ?p2 (kCRLF @ s) = Continue p 2" unfolding blank .
  show ?thesis
    unfolding head_text_def append_assoc
    by (simp add: feed_Continue [OF t1] t2 feed_Continue [OF t3])
qed

lemma finish_head:
  assumes "head_ok lim m t minor fs"
  shows "version_minor (head_request m t minor fs) = 1 \<Longrightarrow> h_has (add_all no_headers fs) ''Host''"
  using assms by (auto simp: head_request_def head_ok_def h_has_get add_all_get fold_values_None)

lemma set_expect_head:
  "req_headers (req p) = add_all no_headers fs \<Longrightarrow>
     set_expect p = p\<lparr>req := (req p)\<lparr>expect_continue := wants_continue fs \<and> state p \<noteq> Done\<rparr>\<rparr>"
  by (auto simp: set_expect_def wants_continue_def add_all_get split: option.split)

section \<open>Requests with a Content-Length\<close>

definition length_field :: "string \<Rightarrow> Field" where
  "length_field b = (''Content-Length'', to_chars 10 (length b))"

definition unframed :: "Field list \<Rightarrow> bool" where
  "unframed fs \<longleftrightarrow> values_of ''Content-Length'' fs = [] \<and> values_of ''Transfer-Encoding'' fs = []"

lemma values_of_append: "values_of n (fs @ gs) = values_of n fs @ values_of n gs"
  by (simp add: values_of_def)

lemma framing_keys:
  "key ''Content-Length'' \<noteq> key ''Transfer-Encoding''" "key ''Transfer-Encoding'' \<noteq> key ''Content-Length''"
  "key ''Content-Length'' \<noteq> key ''Host''" "key ''Transfer-Encoding'' \<noteq> key ''Host''"
  by code_simp+

lemma digits_no_comma: "find_char CHR '','' (to_chars 10 n) = None"
  using to_chars_digit_string(2) [of n] by (auto simp: find_char_None list_all_iff is_digit_def)

lemma trim_digits: "trim_ows (to_chars 10 n) = to_chars 10 n"
proof (rule trim_ows_id)
  have "c \<in> set (to_chars 10 n) \<Longrightarrow> \<not> is_ows c" for c
    using to_chars_digit_string(2) [of n] by (auto simp: list_all_iff is_digit_def is_ows_def)
  then show "to_chars 10 n = [] \<or> \<not> is_ows (hd (to_chars 10 n)) \<and> \<not> is_ows (last (to_chars 10 n))"
    using to_chars_digit_string(1) [of n] by (metis hd_in_set last_in_set)
qed

lemma parse_content_length_text: "n < 10 ^ 19 \<Longrightarrow> parse_content_length (to_chars 10 n) = Some n"
  by (simp add: parse_content_length_def content_length_loop.simps digits_no_comma trim_digits
      parse_decimal_to_chars)

lemma sized_blank_line:
  assumes "head_ok lim m t minor (fs @ [length_field b])" "unframed fs" "limits_ok lim"
    and "length b \<le> max_body_bytes lim"
  shows "blank_line (head_parser lim (head_request m t minor (fs @ [length_field b])) (fs @ [length_field b])) 2 =
    Continue (set_expect ((head_parser lim (head_request m t minor (fs @ [length_field b]))
      (fs @ [length_field b]))\<lparr>remaining := length b, state := (if b = [] then Done else Body)\<rparr>)) 2"
proof -
  let ?fs = "fs @ [length_field b]"
  have "length b < 10 ^ 19" using assms(3,4) by (simp add: limits_ok_def)
  then have cl: "parse_content_length (to_chars 10 (length b)) = Some (length b)"
    by (rule parse_content_length_text)
  have get: "h_get (add_all no_headers ?fs) ''Content-Length'' = Some (to_chars 10 (length b))"
    "h_get (add_all no_headers ?fs) ''Transfer-Encoding'' = None"
    unfolding add_all_get values_of_append
    using assms(2) framing_keys by (simp_all add: unframed_def values_of_def length_field_def)
  show ?thesis
    using get cl assms(4) finish_head [OF assms(1)]
    by (auto simp: blank_line_def finish_headers_def head_parser_def head_request_def new_parser_def Let_def)
qed

text \<open>C11: A request with a body, written with its Content-Length, is read back exactly: \<^verbatim>\<open>feed\<close>
  completes, the request has the method, target, path, query, version, fields and body that were
  written (repeated fields folded), and it uses exactly the bytes of this request, leaving what
  follows for the next one.\<close>

theorem sized_request_round_trip:
  assumes "head_ok lim m t minor (fs @ [length_field b])" and "unframed fs" and "limits_ok lim"
    and "length b \<le> max_body_bytes lim"
  shows "let wire = head_text m t minor (fs @ [length_field b]) @ b;
             (p, used) = feed (new_parser lim) (wire @ s) in
    used = length wire \<and> parser_done p \<and>
    req p = (head_request m t minor (fs @ [length_field b]))\<lparr>req_body := b,
      expect_continue := wants_continue (fs @ [length_field b]) \<and> b \<noteq> []\<rparr>"
proof -
  let ?fs = "fs @ [length_field b]"
  let ?hp = "head_parser lim (head_request m t minor ?fs) ?fs"
  let ?p = "?hp\<lparr>remaining := length b, state := (if b = [] then Done else Body),
    req := (head_request m t minor ?fs)\<lparr>expect_continue := wants_continue ?fs \<and> b \<noteq> []\<rparr>\<rparr>"
  have "set_expect (?hp\<lparr>remaining := length b, state := (if b = [] then Done else Body)\<rparr>) = ?p"
    by (subst set_expect_head [of _ ?fs]) (simp_all add: head_parser_def head_request_def)
  note head = feed_head [OF assms(1,3) sized_blank_line [OF assms], of "b @ s", unfolded this]
  have empty: "req_body (head_request m t minor ?fs) = []"
    by (simp add: head_request_def empty_request_def)
  show ?thesis
  proof (cases "b = []")
    case True
    with head empty show ?thesis by (simp add: feed_Done parser_done_def)
  next
    case False
    have "turn ?p (b @ s) = Continue (?p\<lparr>req := (req ?p)\<lparr>req_body := req_body (req ?p) @ b\<rparr>,
        remaining := 0, state := Done\<rparr>) (length b)"
      using False body_turn [of ?p b s] by (simp add: in_body_def)
    with head False empty show ?thesis by (simp add: feed_Continue feed_Done parser_done_def)
  qed
qed

theorem sized_request_round_trip_witness:
  "let fs = [(''Host'', ''a''), length_field ''xyz'']; wire = head_text ''POST'' ''/e?k'' 1 fs @ ''xyz'';
       (p, used) = feed (new_parser default_limits) (wire @ ''GET'') in
    used = length wire \<and> parser_done p \<and>
    req p = (head_request ''POST'' ''/e?k'' 1 fs)\<lparr>req_body := ''xyz'', expect_continue := False\<rparr>"
proof -
  have "head_ok default_limits ''POST'' ''/e?k'' 1 ([(''Host'', ''a'')] @ [length_field ''xyz''])"
    by (simp add: head_ok_def run_simps target_parts_def request_line_text_def fields_text_def
        render_field_def field_ok_def length_field_def values_of_def key_def to_chars.simps)
  moreover have "unframed [(''Host'', ''a'')]" "\<not> wants_continue [(''Host'', ''a''), length_field ''xyz'']"
    by (simp_all add: unframed_def wants_continue_def length_field_def values_of_def key_def ascii_lower_def)
  ultimately show ?thesis
    using sized_request_round_trip [of default_limits "''POST''" "''/e?k''" 1 "[(''Host'', ''a'')]" "''xyz''" "''GET''"]
      sample_limits
    by (simp add: default_limits_def)
qed

section \<open>Requests in chunks\<close>

definition chunked_field :: Field where
  "chunked_field = (''Transfer-Encoding'', ''chunked'')"

lemma chunked_blank_line:
  assumes "head_ok lim m t 1 (fs @ [chunked_field])" "unframed fs"
  shows "blank_line (head_parser lim (head_request m t 1 (fs @ [chunked_field])) (fs @ [chunked_field])) 2 =
    Continue (set_expect ((head_parser lim (head_request m t 1 (fs @ [chunked_field]))
      (fs @ [chunked_field]))\<lparr>state := ChunkSize\<rparr>)) 2"
proof -
  let ?fs = "fs @ [chunked_field]"
  have get: "h_get (add_all no_headers ?fs) ''Transfer-Encoding'' = Some ''chunked''"
    "h_get (add_all no_headers ?fs) ''Content-Length'' = None"
    unfolding add_all_get values_of_append
    using assms(2) framing_keys by (simp_all add: unframed_def values_of_def chunked_field_def)
  have te: "iequals (trim_ows ''chunked'') ''chunked''" by code_simp
  show ?thesis
    using get te finish_head [OF assms(1)]
    by (auto simp: blank_line_def finish_headers_def head_parser_def head_request_def new_parser_def
        Let_def is_http10_def)
qed

lemma last_chunk_turn:
  assumes "state p = ChunkSize" "1 \<le> max_chunk_line (limits p)"
  shows "turn p (''0'' @ kCRLF @ s) = Continue (p\<lparr>state := InTrailers\<rparr>) 3"
  using assms
  by (simp add: turn_def turn_chunk_size_def parse_chunk_size_def kCRLF_def Let_def trim_ows_def
      is_ows_def hex_value_def)

lemma feed_last_chunk:
  assumes "state p = ChunkSize" "limits_ok (limits p)" "1 \<le> max_chunk_line (limits p)"
    and "list_all field_ok (field_list trs)" "distinct_names trs" "req_trailers (req p) = no_headers"
    and "header_bytes p + length (fields_text (field_list trs)) + 2 \<le> max_header_bytes (limits p)"
    and "header_count p + size trs \<le> max_header_count (limits p)"
  shows "\<exists>p'. feed p (append_last_chunk [] trs @ s) = (p', length (append_last_chunk [] trs)) \<and>
    parser_done p' \<and> req p' = (req p)\<lparr>req_trailers := add_all no_headers (field_list trs)\<rparr>"
proof -
  let ?fs = "field_list trs"
  let ?p1 = "p\<lparr>state := InTrailers\<rparr>"
  let ?p2 = "with_fields ?p1 ?fs"
  let ?p3 = "?p2\<lparr>header_bytes := header_bytes ?p2 + 2, state := Done\<rparr>"
  note t1 = last_chunk_turn [OF assms(1,3), of "fields_text ?fs @ kCRLF @ s"]
  have t2: "feed ?p1 (fields_text ?fs @ (kCRLF @ s)) =
      (fst (feed ?p2 (kCRLF @ s)), length (fields_text ?fs) + snd (feed ?p2 (kCRLF @ s)))"
    using assms by (intro feed_fields) (simp_all add: one_host_def size_Headers_def)
  have t3: "turn ?p2 (kCRLF @ s) = Continue ?p3 2"
    using assms by (subst blank_line_turn) (simp_all add: blank_line_def)
  have wire: "append_last_chunk [] trs @ s = ''0'' @ kCRLF @ (fields_text ?fs @ kCRLF @ s)"
    by (simp add: append_last_chunk_shape fields_text_def)
  have "drop 3 (''0'' @ kCRLF @ (fields_text ?fs @ kCRLF @ s)) = fields_text ?fs @ kCRLF @ s"
    by (simp add: kCRLF_def)
  then have "feed p (append_last_chunk [] trs @ s) = (?p3, 3 + (length (fields_text ?fs) + 2))"
    unfolding wire feed_Continue [OF t1] using feed_Continue [OF t3] t2 feed_Done [of ?p3 s] by simp
  moreover have "req ?p3 = (req p)\<lparr>req_trailers := add_all no_headers ?fs\<rparr>"
    using assms(6) by (simp add: with_fields_def)
  ultimately show ?thesis
    by (auto simp: parser_done_def append_last_chunk_shape fields_text_def)
qed

text \<open>C10: A body written in chunks with the server's own writer (\<^verbatim>\<open>append_chunk\<close> for each piece,
  empty pieces included, then \<^verbatim>\<open>append_last_chunk\<close> with the trailers) is read back exactly: \<^verbatim>\<open>feed\<close>
  completes, the body is the pieces joined, the trailers are the ones written, and the bytes that
  follow are left for the next request.\<close>

theorem chunked_request_round_trip:
  assumes "head_ok lim m t 1 (fs @ [chunked_field])" and "unframed fs" and "limits_ok lim"
    and "length (concat ds) \<le> max_body_bytes lim" and "16 \<le> max_chunk_line lim"
    and "list_all field_ok (field_list trs)" and "distinct_names trs"
    and "length (fields_text (fs @ [chunked_field])) + 2 +
           length (fields_text (field_list trs)) + 2 \<le> max_header_bytes lim"
    and "length fs + 1 + size trs \<le> max_header_count lim"
  shows "let wire = head_text m t 1 (fs @ [chunked_field]) @
                    append_last_chunk (foldl append_chunk [] ds) trs;
             (p, used) = feed (new_parser lim) (wire @ s) in
    used = length wire \<and> parser_done p \<and>
    req p = (head_request m t 1 (fs @ [chunked_field]))\<lparr>req_body := concat ds,
      req_trailers := add_all no_headers (field_list trs),
      expect_continue := wants_continue (fs @ [chunked_field])\<rparr>"
proof -
  let ?fs = "fs @ [chunked_field]" and ?data = "foldl append_chunk [] ds" and ?last = "append_last_chunk [] trs"
  let ?hp = "head_parser lim (head_request m t 1 ?fs) ?fs"
  let ?p = "?hp\<lparr>state := ChunkSize,
    req := (head_request m t 1 ?fs)\<lparr>expect_continue := wants_continue ?fs\<rparr>\<rparr>"
  let ?q = "with_body ?p (concat ds)"
  have "set_expect (?hp\<lparr>state := ChunkSize\<rparr>) = ?p"
    by (subst set_expect_head [of _ ?fs]) (simp_all add: head_parser_def head_request_def)
  note head = feed_head [OF assms(1,3) chunked_blank_line [OF assms(1,2)], of "?data @ ?last @ s", unfolded this]
  have lim: "limits ?p = lim" "remaining ?p = 0" "req_body (req ?p) = []" "req_trailers (req ?p) = no_headers"
    "header_bytes ?p = length (fields_text ?fs) + 2" "header_count ?p = length fs + 1"
    by (simp_all add: head_parser_def new_parser_def head_request_def empty_request_def)
  have "length d \<le> max_body_bytes lim" if "d \<in> set ds" for d
    using that assms(4) length_concat [of ds] member_le_sum_list [of "length d" "map length ds"] by auto
  then have "length (to_chars 16 (length d)) \<le> max_chunk_line lim" if "d \<in> set ds" for d
    using that assms(3,5) length_to_digits [of 16 "length d" 15] by (fastforce simp: limits_ok_def to_chars_digits)
  then have data: "feed ?p (?data @ (?last @ s)) =
      (fst (feed ?q (?last @ s)), length ?data + snd (feed ?q (?last @ s)))"
    using assms(3,4) lim by (intro feed_chunks) (simp_all add: list_all_iff)
  obtain p' where "feed ?q (?last @ s) = (p', length ?last)" "parser_done p'"
      "req p' = (req ?q)\<lparr>req_trailers := add_all no_headers (field_list trs)\<rparr>"
    using feed_last_chunk [of ?q trs s] assms lim by (auto simp: with_body_def)
  moreover have "append_last_chunk ?data trs = ?data @ ?last" by (simp add: append_last_chunk_shape)
  ultimately show ?thesis
    using head data lim(3) by (simp add: with_body_def)
qed

theorem chunked_request_round_trip_witness:
  "let fs = [(''Host'', ''a''), chunked_field];
       wire = head_text ''PUT'' ''/'' 1 fs @
         append_last_chunk (foldl append_chunk [] [''abc'', [], ''de'']) (Headers [(''T'', ''1'')]);
       (p, used) = feed (new_parser default_limits) (wire @ ''GET'') in
    used = length wire \<and> parser_done p \<and>
    req p = (head_request ''PUT'' ''/'' 1 fs)\<lparr>req_body := ''abcde'',
      req_trailers := Headers [(''T'', ''1'')], expect_continue := False\<rparr>"
proof -
  have "head_ok default_limits ''PUT'' ''/'' 1 ([(''Host'', ''a'')] @ [chunked_field])"
    by (simp add: head_ok_def run_simps target_parts_def request_line_text_def fields_text_def
        render_field_def field_ok_def chunked_field_def values_of_def key_def)
  moreover have "unframed [(''Host'', ''a'')]" "\<not> wants_continue [(''Host'', ''a''), chunked_field]"
    "add_all no_headers [(''T'', ''1'')] = Headers [(''T'', ''1'')]"
    by (simp_all add: unframed_def wants_continue_def chunked_field_def values_of_def key_def ascii_lower_def
        add_all_def h_add_def h_find_def no_headers_def)
  moreover have "list_all field_ok [(''T'', ''1'')]" "distinct_names (Headers [(''T'', ''1'')])"
    by (simp_all add: field_ok_def run_simps distinct_names_def)
  ultimately show ?thesis
    using chunked_request_round_trip [of default_limits "''PUT''" "''/''" "[(''Host'', ''a'')]"
        "[''abc'', [], ''de'']" "Headers [(''T'', ''1'')]" "''GET''"] sample_limits
    by (simp add: default_limits_def size_Headers_def render_field_def chunked_field_def)
qed

end
