(* ===== verification/Router_Table.thy ===== *)
theory Router_Table
  imports Request_Parser Response_Writer "HOL-Library.Sublist"
begin

text \<open>
  The router of \<^verbatim>\<open>src/src/server/router.hpp\<close> and \<^verbatim>\<open>src/src/server/router.cpp\<close>. A handler takes
  the request and the response and answers the response it filled in, or \<^term>\<open>Inl\<close> with the text of
  the \<^verbatim>\<open>std::exception\<close> it threw; what it knows of the rest of the process is part of the function.
\<close>

section \<open>The class\<close>

type_synonym Handler = "Request \<Rightarrow> Response \<Rightarrow> string + Response"

record Route =
  route_method :: string
  route_path :: string
  route_prefix :: bool
  route_handler :: Handler

type_synonym Router = "Route list"

definition add_route :: "Router \<Rightarrow> string \<Rightarrow> string \<Rightarrow> Handler \<Rightarrow> Router" where
  "add_route routes m p h =
     routes @ [\<lparr>route_method = m, route_path = p, route_prefix = False, route_handler = h\<rparr>]"

definition add_prefix :: "Router \<Rightarrow> string \<Rightarrow> string \<Rightarrow> Handler \<Rightarrow> Router" where
  "add_prefix routes m p h =
     routes @ [\<lparr>route_method = m, route_path = p, route_prefix = True, route_handler = h\<rparr>]"

definition route_matches :: "Route \<Rightarrow> Request \<Rightarrow> bool" where
  "route_matches r rq =
     (if route_prefix r then take (length (route_path r)) (path rq) = route_path r
      else path rq = route_path r)"

definition call_handler :: "Route \<Rightarrow> Request \<Rightarrow> Response \<Rightarrow> Response" where
  "call_handler r rq res =
     (case route_handler r rq res of
        Inr res' \<Rightarrow> res'
      | Inl what \<Rightarrow> text_response 500 (''internal error: '' @ what @ [LF]) default_type)"

definition extend_allow :: "string \<Rightarrow> string \<Rightarrow> string" where
  "extend_allow allow m =
     (if find_str m allow = None then
        let allow = (if allow \<noteq> [] then allow @ '', '' else allow);
            allow = allow @ m
        in (if m = ''GET'' then allow @ '', HEAD'' else allow)
      else allow)"

fun dispatch_loop :: "Router \<Rightarrow> string \<Rightarrow> string \<Rightarrow> Request \<Rightarrow> Response \<Rightarrow> Response" where
  "dispatch_loop [] meth allow rq res =
     (if allow \<noteq> [] then
        let res = text_response 405 (''method not allowed'' @ [LF]) default_type
        in res\<lparr>res_headers := h_set (res_headers res) ''Allow'' allow\<rparr>
      else text_response 404 (''not found'' @ [LF]) default_type)"
| "dispatch_loop (r # rs) meth allow rq res =
     (if \<not> route_matches r rq then dispatch_loop rs meth allow rq res
      else if route_method r = meth then call_handler r rq res
      else dispatch_loop rs meth (extend_allow allow (route_method r)) rq res)"

definition effective_method :: "Request \<Rightarrow> string" where
  "effective_method rq = (if req_method rq = ''HEAD'' then ''GET'' else req_method rq)"

definition router_dispatch :: "Router \<Rightarrow> Request \<Rightarrow> Response \<Rightarrow> Response" where
  "router_dispatch routes rq res = dispatch_loop routes (effective_method rq) [] rq res"

section \<open>The Allow list\<close>

lemma find_str_sublist: "pat \<noteq> [] \<Longrightarrow> find_str pat s \<noteq> None \<longleftrightarrow> sublist pat s"
proof -
  assume ne: "pat \<noteq> []"
  show ?thesis
  proof
    assume "find_str pat s \<noteq> None"
    then obtain i where "take (length pat) (drop i s) = pat" by (auto dest: find_str_take)
    then show "sublist pat s"
      by (metis sublist_order.order_trans sublist_drop sublist_take)
  next
    assume "sublist pat s"
    then obtain u v where "s = u @ pat @ v" by (auto simp: sublist_def)
    then have "take (length pat) (drop (length u) s) = pat" by simp
    then show "find_str pat s \<noteq> None" using ne by (auto simp: find_str_None)
  qed
qed

abbreviation join :: "string list \<Rightarrow> string" where
  "join \<equiv> intercalate '', ''"

lemma sublist_separator:
  assumes "sublist pat (a @ c # b)" and "c \<notin> set pat"
  shows "sublist pat a \<or> sublist pat b"
proof -
  obtain u v where uv: "u @ pat @ v = a @ c # b" using assms(1) by (auto simp: sublist_def)
  then consider (before) z where "u @ z = a" "pat @ v = z @ c # b" | (after) z where "u = a @ z" "z @ pat @ v = c # b"
    by (auto simp: append_eq_append_conv2)
  then show ?thesis
  proof cases
    case before
    then have "\<exists>w. z = pat @ w"
      using assms(2) by (auto simp: append_eq_append_conv2 append_eq_Cons_conv)
    with before(1) show ?thesis by (auto simp: sublist_def)
  next
    case after
    then show ?thesis
    proof (cases z)
      case Nil
      with after assms(2) show ?thesis by (cases pat) (auto simp: sublist_def)
    next
      case (Cons d z')
      with after(2) have "b = z' @ pat @ v" by simp
      then show ?thesis by (auto simp: sublist_def)
    qed
  qed
qed

lemma sublist_join:
  assumes "sublist pat (join ms)" and "pat \<noteq> []" and "CHR '','' \<notin> set pat" "SP \<notin> set pat"
  shows "\<exists>m \<in> set ms. sublist pat m"
  using assms
proof (induction ms rule: induct_list012)
  case (3 m n ms)
  then have "sublist pat m \<or> sublist pat (SP # join (n # ms))"
    using sublist_separator [of pat m "CHR '',''" "SP # join (n # ms)"] by simp
  moreover have "sublist pat ([] @ SP # join (n # ms)) \<Longrightarrow> sublist pat (join (n # ms))"
    using sublist_separator [of pat "[]" SP "join (n # ms)"] 3 by auto
  ultimately show ?case using 3 by auto
qed auto

text \<open>The list of methods the Allow field should name: those of the matching routes, each once,
  with HEAD beside GET.\<close>

definition extend_list :: "string list \<Rightarrow> string \<Rightarrow> string list" where
  "extend_list ms m = (if m \<in> set ms then ms else ms @ m # (if m = ''GET'' then [''HEAD''] else []))"

text \<open>Methods that cannot be confused in a comma-separated list.\<close>

definition separable :: "string set \<Rightarrow> bool" where
  "separable M \<longleftrightarrow> (\<forall>m \<in> M. is_token m \<and> (\<forall>n \<in> M. sublist m n \<longrightarrow> m = n))"

lemma is_token_no_separator: "is_token m \<Longrightarrow> m \<noteq> [] \<and> CHR '','' \<notin> set m \<and> SP \<notin> set m"
  using is_token_not_special [of m] by (auto simp: is_token_def list_all_iff is_tchar_def)

lemma extend_allow_join:
  assumes "separable M" and "m \<in> M" "set ms \<subseteq> M"
  shows "extend_allow (join ms) m = join (extend_list ms m)"
proof -
  have tok: "m \<noteq> []" "CHR '','' \<notin> set m" "SP \<notin> set m"
    using assms is_token_no_separator [of m] by (auto simp: separable_def)
  have mem: "sublist m (join ms) \<longleftrightarrow> m \<in> set ms"
  proof
    assume "sublist m (join ms)"
    then obtain n where "n \<in> set ms" "sublist m n" using sublist_join tok by blast
    with assms show "m \<in> set ms" by (auto simp: separable_def)
  next
    assume "m \<in> set ms"
    then show "sublist m (join ms)"
      by (induction ms rule: induct_list012)
        (auto simp: sublist_append sublist_Cons_right intro: sublist_order.order_trans)
  qed
  have join2: "join (ms @ [m, ''HEAD'']) = join (ms @ [m]) @ '', HEAD''"
    using intercalate_snoc [of "'', ''" "ms @ [m]" "''HEAD''"] by simp
  have "join ms = [] \<longleftrightarrow> ms = []"
    using assms by (induction ms rule: induct_list012) (auto simp: separable_def is_token_def)
  then show ?thesis
    using find_str_sublist [OF tok(1), of "join ms"] mem join2 intercalate_snoc [of "'', ''" ms m]
    by (auto simp: extend_allow_def extend_list_def Let_def)
qed

section \<open>Dispatch\<close>

definition serves :: "Request \<Rightarrow> Route \<Rightarrow> bool" where
  "serves rq r \<longleftrightarrow> route_matches r rq \<and> route_method r = effective_method rq"

definition allowed :: "Router \<Rightarrow> Request \<Rightarrow> string list" where
  "allowed routes rq = foldl extend_list [] (map route_method (filter (\<lambda>r. route_matches r rq) routes))"

lemma dispatch_loop_found:
  "find (\<lambda>r. route_matches r rq \<and> route_method r = meth) routes = Some r \<Longrightarrow>
     dispatch_loop routes meth allow rq res = call_handler r rq res"
  by (induction routes arbitrary: allow) (auto split: if_splits)

lemma dispatch_loop_not_found:
  "find (\<lambda>r. route_matches r rq \<and> route_method r = meth) routes = None \<Longrightarrow>
     dispatch_loop routes meth allow rq res =
     dispatch_loop [] meth
       (foldl extend_allow allow (map route_method (filter (\<lambda>r. route_matches r rq) routes))) rq res"
  by (induction routes arbitrary: allow) (auto split: if_splits simp del: dispatch_loop.simps(1))

lemma set_extend_list:
  "set (extend_list ms m) = insert m (set ms) \<union> (if m = ''GET'' \<and> m \<notin> set ms then {''HEAD''} else {})"
  by (auto simp: extend_list_def)

lemma fold_allow_join:
  assumes "separable M" "''HEAD'' \<in> M" "set ns \<subseteq> M" "set ms \<subseteq> M"
  shows "foldl extend_allow (join ms) ns = join (foldl extend_list ms ns)"
  using assms(3,4)
proof (induction ns arbitrary: ms)
  case (Cons n ns)
  then have "set (extend_list ms n) \<subseteq> M" using assms(2) by (auto simp: set_extend_list split: if_splits)
  with Cons show ?case using extend_allow_join [OF assms(1), of n ms] by simp
qed simp

lemma set_fold_extend:
  "(''GET'' \<in> set ms \<Longrightarrow> ''HEAD'' \<in> set ms) \<Longrightarrow>
     set (foldl extend_list ms ns) = set ms \<union> set ns \<union> (if ''GET'' \<in> set ns then {''HEAD''} else {})"
proof (induction ns arbitrary: ms)
  case (Cons n ns)
  have "set (foldl extend_list (extend_list ms n) ns) =
      set (extend_list ms n) \<union> set ns \<union> (if ''GET'' \<in> set ns then {''HEAD''} else {})"
    using Cons.prems by (intro Cons.IH) (auto simp: set_extend_list split: if_splits)
  with Cons.prems show ?case by (auto simp: set_extend_list)
qed simp

section \<open>Properties\<close>




end
