(* ===== verification/Byte_Buffer.thy ===== *)
theory Byte_Buffer
  imports Byte_Streams
begin

text \<open>
  The input buffer of \<^verbatim>\<open>src/src/util/byte_buffer.hpp\<close>. The array is a function from offsets to
  bytes, of which the first \<open>bb_cap\<close> exist; what \<^verbatim>\<open>new char[]\<close> leaves in fresh memory is the
  parameter \<open>fresh\<close>. Sizes are 64-bit and wrap. The loop that doubles the capacity may run
  forever on absurd sizes, so it is a partial function; \<open>prepare_law\<close> shows that it ends
  whenever the bytes asked for and the live bytes fit in half of the address space.
\<close>

section \<open>The class\<close>

record ByteBuffer =
  bb_data :: "size_t \<Rightarrow> char"
  bb_cap :: size_t
  bb_rpos :: size_t
  bb_wpos :: size_t

definition new_buffer :: "(size_t \<Rightarrow> char) \<Rightarrow> ByteBuffer" where
  "new_buffer mem = \<lparr>bb_data = mem, bb_cap = 0, bb_rpos = 0, bb_wpos = 0\<rparr>"

definition bb_size :: "ByteBuffer \<Rightarrow> size_t" where
  "bb_size b = szsub (bb_wpos b) (bb_rpos b)"

definition readable :: "ByteBuffer \<Rightarrow> string" where
  "readable b = map (bb_data b) [bb_rpos b ..< bb_rpos b + bb_size b]"

definition bb_empty :: "ByteBuffer \<Rightarrow> bool" where
  "bb_empty b \<longleftrightarrow> bb_rpos b = bb_wpos b"

definition consume :: "ByteBuffer \<Rightarrow> size_t \<Rightarrow> ByteBuffer" where
  "consume b n =
     (let b1 = b\<lparr>bb_rpos := szadd (bb_rpos b) n\<rparr> in
      if bb_rpos b1 = bb_wpos b1 then b1\<lparr>bb_rpos := 0, bb_wpos := 0\<rparr> else b1)"

partial_function (option) grow_cap :: "size_t \<Rightarrow> size_t \<Rightarrow> size_t \<Rightarrow> size_t option" where
  "grow_cap new_cap live n =
     (if szsub new_cap live < n then grow_cap (szmul new_cap 2) live n else Some new_cap)"

text \<open>\<^verbatim>\<open>memmove\<close> and \<^verbatim>\<open>memcpy\<close> of the live bytes to the front of a block.\<close>

definition move_live :: "(size_t \<Rightarrow> char) \<Rightarrow> (size_t \<Rightarrow> char) \<Rightarrow> size_t \<Rightarrow> size_t \<Rightarrow> size_t \<Rightarrow> char" where
  "move_live dst src from live = (\<lambda>i. if i < live then src (from + i) else dst i)"

text \<open>\<^verbatim>\<open>prepare\<close> answers the buffer and the offset of the writable region.\<close>

definition prepare :: "(size_t \<Rightarrow> char) \<Rightarrow> ByteBuffer \<Rightarrow> size_t \<Rightarrow> (ByteBuffer \<times> size_t) option" where
  "prepare fresh b n =
     (if szsub (bb_cap b) (bb_wpos b) \<ge> n then Some (b, bb_wpos b)
      else
        let live = bb_size b in
        Option.bind
          (if bb_rpos b > 0 \<and> szsub (bb_cap b) live \<ge> n
           then Some (b\<lparr>bb_data := move_live (bb_data b) (bb_data b) (bb_rpos b) live\<rparr>)
           else Option.bind (grow_cap (if bb_cap b \<noteq> 0 then bb_cap b else 4096) live n) (\<lambda>new_cap.
                  Some (b\<lparr>bb_data := (if live \<noteq> 0 then move_live fresh (bb_data b) (bb_rpos b) live
                                     else fresh),
                          bb_cap := new_cap\<rparr>)))
          (\<lambda>b1. Some (b1\<lparr>bb_rpos := 0, bb_wpos := live\<rparr>, live)))"

definition writable :: "ByteBuffer \<Rightarrow> size_t" where
  "writable b = szsub (bb_cap b) (bb_wpos b)"

definition commit :: "ByteBuffer \<Rightarrow> size_t \<Rightarrow> ByteBuffer" where
  "commit b n = b\<lparr>bb_wpos := szadd (bb_wpos b) n\<rparr>"

text \<open>The kernel writes the received bytes through the pointer \<^verbatim>\<open>prepare\<close> returned.\<close>

definition write_at :: "ByteBuffer \<Rightarrow> size_t \<Rightarrow> string \<Rightarrow> ByteBuffer" where
  "write_at b pos bytes =
     b\<lparr>bb_data := (\<lambda>i. if pos \<le> i \<and> i < pos + length bytes then bytes ! (i - pos) else bb_data b i)\<rparr>"

definition receive :: "(size_t \<Rightarrow> char) \<Rightarrow> ByteBuffer \<Rightarrow> size_t \<Rightarrow> string \<Rightarrow> ByteBuffer option" where
  "receive fresh b n bytes =
     Option.bind (prepare fresh b n) (\<lambda>(b1, dst). Some (commit (write_at b1 dst bytes) (length bytes)))"

section \<open>The invariant and the laws\<close>

definition bb_inv :: "ByteBuffer \<Rightarrow> bool" where
  "bb_inv b \<longleftrightarrow> bb_rpos b \<le> bb_wpos b \<and> bb_wpos b \<le> bb_cap b \<and> bb_cap b \<le> 2 ^ 63"

lemma readable_inv: "bb_inv b \<Longrightarrow> readable b = map (bb_data b) [bb_rpos b ..< bb_wpos b]"
  by (simp add: readable_def bb_size_def bb_inv_def)

lemma length_readable: "bb_inv b \<Longrightarrow> length (readable b) = bb_wpos b - bb_rpos b"
  by (simp add: readable_inv)

lemma grow_cap_ends:
  assumes "0 < c" "live \<le> c" "c \<le> 2 ^ 63" "live + n \<le> 2 ^ 62"
  shows "\<exists>c'. grow_cap c live n = Some c' \<and> live + n \<le> c' \<and> c' \<le> max c (2 * (live + n)) \<and> c' \<le> 2 ^ 63"
  using assms(1-3)
proof (induction "live + n - c" arbitrary: c rule: less_induct)
  case less
  show ?case
  proof (cases "c - live < n")
    case False
    then show ?thesis using less.prems by (simp add: grow_cap.simps [of c live n])
  next
    case True
    then have "c < live + n" by simp
    moreover from this have "szmul c 2 = c * 2" "c * 2 \<le> 2 ^ 63" using assms(4) by simp_all
    moreover from calculation have "\<exists>c'. grow_cap (c * 2) live n = Some c' \<and> live + n \<le> c' \<and>
        c' \<le> max (c * 2) (2 * (live + n)) \<and> c' \<le> 2 ^ 63"
      using less.prems by (intro less.hyps) auto
    ultimately show ?thesis
      using True less.prems by (auto simp: grow_cap.simps [of c live n])
  qed
qed

lemma map_move_live: "map (move_live dst src from live) [0..<live] = map src [from ..< from + live]"
  by (rule nth_equalityI) (simp_all add: move_live_def)

lemma readable_moved:
  assumes "bb_inv b" and "live = bb_wpos b - bb_rpos b" and "live \<le> c" and "c \<le> 2 ^ 63"
  shows "bb_inv (b\<lparr>bb_data := move_live dst (bb_data b) (bb_rpos b) live, bb_cap := c, bb_rpos := 0, bb_wpos := live\<rparr>)"
    and "readable (b\<lparr>bb_data := move_live dst (bb_data b) (bb_rpos b) live, bb_cap := c, bb_rpos := 0,
           bb_wpos := live\<rparr>) = readable b"
  using assms by (auto simp: bb_inv_def readable_inv map_move_live)

lemma prepare_law:
  assumes inv: "bb_inv b" and room: "length (readable b) + n \<le> 2 ^ 62"
  shows "\<exists>b'. prepare fresh b n = Some (b', bb_wpos b') \<and> bb_inv b' \<and> readable b' = readable b \<and>
    n \<le> writable b' \<and> bb_cap b' \<le> max (bb_cap b) (max 4096 (2 * (length (readable b) + n)))"
proof -
  let ?live = "bb_wpos b - bb_rpos b"
  have live: "bb_size b = ?live" "length (readable b) = ?live" "?live \<le> bb_cap b"
    using inv length_readable [OF inv] by (auto simp: bb_size_def bb_inv_def)
  consider (room) "n \<le> bb_cap b - bb_wpos b"
    | (compact) "\<not> n \<le> bb_cap b - bb_wpos b" "bb_rpos b > 0" "n \<le> bb_cap b - ?live"
    | (grow) "\<not> n \<le> bb_cap b - bb_wpos b" "\<not> (bb_rpos b > 0 \<and> n \<le> bb_cap b - ?live)"
    by metis
  then show ?thesis
  proof cases
    case room
    then show ?thesis using inv by (simp add: prepare_def writable_def bb_inv_def)
  next
    case compact
    let ?b = "b\<lparr>bb_data := move_live (bb_data b) (bb_data b) (bb_rpos b) ?live, bb_rpos := 0, bb_wpos := ?live\<rparr>"
    have "bb_inv ?b" "readable ?b = readable b"
      using readable_moved [OF inv refl live(3), of "bb_data b"] inv by (simp_all add: bb_inv_def)
    with compact live inv show ?thesis by (auto simp: prepare_def Let_def writable_def bb_inv_def)
  next
    case grow
    let ?c = "if bb_cap b \<noteq> 0 then bb_cap b else 4096"
    have "0 < ?c" "?live \<le> ?c" "?c \<le> 2 ^ 63" using inv live(3) by (auto simp: bb_inv_def)
    then obtain c where c: "grow_cap ?c ?live n = Some c" "?live + n \<le> c"
        "c \<le> max ?c (2 * (?live + n))" "c \<le> 2 ^ 63"
      using grow_cap_ends [of ?c ?live n] room live by auto
    let ?mem = "if ?live \<noteq> 0 then move_live fresh (bb_data b) (bb_rpos b) ?live else fresh"
    let ?b = "b\<lparr>bb_data := ?mem, bb_cap := c, bb_rpos := 0, bb_wpos := ?live\<rparr>"
    have "?mem = move_live fresh (bb_data b) (bb_rpos b) ?live" by (auto simp: move_live_def)
    then have "bb_inv ?b" "readable ?b = readable b"
      using readable_moved [OF inv refl _ c(4), of fresh] c(2) by simp_all
    moreover have "prepare fresh b n = Some (?b, ?live)"
      using grow c(1) live inv by (auto simp: prepare_def Let_def bb_inv_def)
    moreover have "c \<le> max (bb_cap b) (max 4096 (2 * (?live + n)))" using c(3) by (auto split: if_splits)
    ultimately show ?thesis using c(2) live by (auto simp: writable_def)
  qed
qed

lemma receive_law:
  assumes inv: "bb_inv b" and "length bytes \<le> n" and room: "length (readable b) + n \<le> 2 ^ 62"
  shows "\<exists>b'. receive fresh b n bytes = Some b' \<and> bb_inv b' \<and> readable b' = readable b @ bytes \<and>
    bb_cap b' \<le> max (bb_cap b) (max 4096 (2 * (length (readable b) + n)))"
proof -
  obtain b1 where b1: "prepare fresh b n = Some (b1, bb_wpos b1)" "bb_inv b1" "readable b1 = readable b"
      "n \<le> writable b1" "bb_cap b1 \<le> max (bb_cap b) (max 4096 (2 * (length (readable b) + n)))"
    using prepare_law [OF inv room] by blast
  let ?w = "bb_wpos b1" and ?b = "commit (write_at b1 (bb_wpos b1) bytes) (length bytes)"
  have fits: "?w + length bytes \<le> bb_cap b1" "bb_cap b1 \<le> 2 ^ 63" "bb_rpos b1 \<le> ?w"
    using b1(2,4) assms(2) by (auto simp: bb_inv_def writable_def)
  then have w: "bb_wpos ?b = ?w + length bytes" by (simp add: commit_def write_at_def)
  have r: "bb_rpos ?b = bb_rpos b1" by (simp add: commit_def write_at_def)
  have inv': "bb_inv ?b" using w b1(2) fits by (simp add: bb_inv_def commit_def write_at_def)
  have "readable ?b = map (bb_data ?b) [bb_rpos b1 ..< ?w] @ map (bb_data ?b) [?w ..< ?w + length bytes]"
    using upt_add_eq_append [OF fits(3), of "length bytes"]
    by (simp only: readable_inv [OF inv'] w r map_append)
  also have "map (bb_data ?b) [bb_rpos b1 ..< ?w] = readable b1"
    unfolding readable_inv [OF b1(2)] by (simp add: commit_def write_at_def)
  also have "map (bb_data ?b) [?w ..< ?w + length bytes] = bytes"
    by (rule nth_equalityI) (simp_all add: commit_def write_at_def)
  finally show ?thesis using b1 inv' by (auto simp: receive_def commit_def write_at_def)
qed

lemma consume_law:
  assumes "bb_inv b" and "n \<le> length (readable b)"
  shows "bb_inv (consume b n) \<and> readable (consume b n) = drop n (readable b)"
proof -
  have le: "bb_rpos b + n \<le> bb_wpos b" "bb_wpos b \<le> 2 ^ 63"
    using assms(1,2) length_readable [OF assms(1)] by (auto simp: bb_inv_def)
  then have sum: "szadd (bb_rpos b) n = bb_rpos b + n" by simp
  with le have "bb_inv (consume b n)" using assms(1) by (auto simp: consume_def Let_def bb_inv_def)
  then show ?thesis
    using sum le assms(1) by (auto simp: readable_inv consume_def Let_def drop_map)
qed

interpretation inbuf: byte_queue readable "receive fresh" consume bb_inv "2 ^ 62"
  using receive_law consume_law by unfold_locales blast+

section \<open>Properties\<close>

text \<open>C28: \<^verbatim>\<open>prepare(n)\<close> returns, and then at least \<open>n\<close> bytes can be written at the pointer it
  returns, the readable bytes are unchanged whether it compacted, grew or did nothing, and the
  capacity is at most the old one, 4096, or twice what is needed. The doubling loop ends and
  does not overflow as long as live bytes and \<open>n\<close> fit in \<open>2 ^ 62\<close>.\<close>

theorem prepare_makes_room:
  assumes "bb_inv b" and "length (readable b) + n \<le> 2 ^ 62"
  shows "\<exists>b'. prepare fresh b n = Some (b', bb_wpos b') \<and> bb_inv b' \<and> readable b' = readable b \<and>
    n \<le> writable b' \<and> bb_cap b' \<le> max (bb_cap b) (max 4096 (2 * (length (readable b) + n)))"
  using assms by (rule prepare_law)

theorem prepare_makes_room_witness:
  "\<exists>b'. prepare (\<lambda>_. SP) \<lparr>bb_data = (\<lambda>_. CR), bb_cap = 4, bb_rpos = 1, bb_wpos = 3\<rparr> 16384 =
      Some (b', bb_wpos b') \<and> readable b' = [CR, CR] \<and> 16384 \<le> writable b'"
proof -
  let ?b = "\<lparr>bb_data = (\<lambda>_. CR), bb_cap = 4, bb_rpos = 1, bb_wpos = 3\<rparr>"
  have inv: "bb_inv ?b" by (simp add: bb_inv_def)
  have "readable ?b = [CR, CR]" by (simp add: readable_def bb_size_def upt_rec)
  with prepare_makes_room [OF inv, of 16384 "\<lambda>_. SP"] show ?thesis by auto
qed

text \<open>The calls the server makes of its buffer, and what they do to a queue of bytes; the queue
  refuses a call the contract of the class does not allow.\<close>

datatype BufOp = Recv size_t string | Use size_t

fun run_ops :: "(size_t \<Rightarrow> char) \<Rightarrow> ByteBuffer \<Rightarrow> BufOp list \<Rightarrow> ByteBuffer option" where
  "run_ops fresh b [] = Some b"
| "run_ops fresh b (Recv n bytes # ops) =
     Option.bind (receive fresh b n bytes) (\<lambda>b'. run_ops fresh b' ops)"
| "run_ops fresh b (Use n # ops) = run_ops fresh (consume b n) ops"

fun queue_ops :: "string \<Rightarrow> BufOp list \<Rightarrow> string option" where
  "queue_ops q [] = Some q"
| "queue_ops q (Recv n bytes # ops) =
     (if length bytes \<le> n \<and> length q + n \<le> 2 ^ 62 then queue_ops (q @ bytes) ops else None)"
| "queue_ops q (Use n # ops) = (if n \<le> length q then queue_ops (drop n q) ops else None)"

text \<open>C27: The buffer is a queue of bytes: after any sequence of reads into it and consumptions
  from it that respects its contract, the readable bytes are the bytes received, in order, without
  those consumed. No compaction or growth loses, repeats or reorders a byte.\<close>

theorem buffer_is_a_queue:
  assumes "bb_inv b" and "queue_ops (readable b) ops = Some q"
  shows "\<exists>b'. run_ops fresh b ops = Some b' \<and> bb_inv b' \<and> readable b' = q"
  using assms
proof (induction ops arbitrary: b)
  case (Cons opn ops)
  show ?case
  proof (cases opn)
    case (Recv n bytes)
    with Cons.prems obtain b1 where "receive fresh b n bytes = Some b1" "bb_inv b1"
        "readable b1 = readable b @ bytes"
      using inbuf.fill_law [of b bytes n fresh] by (auto split: if_splits)
    with Cons Recv show ?thesis by (auto split: if_splits)
  next
    case (Use n)
    with Cons inbuf.drop_law [of b n] show ?thesis by (auto split: if_splits)
  qed
qed simp

theorem buffer_is_a_queue_witness:
  "\<exists>b'. run_ops (\<lambda>_. SP) (new_buffer (\<lambda>_. CR)) [Recv 16384 ''GET / '', Use 4, Recv 16384 ''HTTP''] = Some b' \<and>
     readable b' = ''/ HTTP''"
proof -
  have inv: "bb_inv (new_buffer (\<lambda>_. CR))" by (simp add: bb_inv_def new_buffer_def)
  have "readable (new_buffer (\<lambda>_. CR)) = []" by (simp add: readable_inv [OF inv]) (simp add: new_buffer_def)
  then have "queue_ops (readable (new_buffer (\<lambda>_. CR))) [Recv 16384 ''GET / '', Use 4, Recv 16384 ''HTTP''] =
      Some ''/ HTTP''" by simp
  from buffer_is_a_queue [OF inv this] show ?thesis by auto
qed

end
