(* ===== verification/Metrics.thy ===== *)
theory Metrics
  imports Prelude
begin

text \<open>
  The counters of \<^verbatim>\<open>src/src/obs/metrics.hpp\<close>: a block of 64-bit counters per worker, of which the
  worker is the only writer, and the latency histogram. A relaxed load followed by a store of a
  counter with one writer is an addition that wraps at \<open>2 ^ 64\<close>.
\<close>

section \<open>The counters\<close>

definition kLatencyBuckets :: nat where
  "kLatencyBuckets = 24"

record WorkerMetrics =
  connections_accepted :: u64
  connections_closed :: u64
  connections_timed_out :: u64
  accept_errors :: u64
  requests_total :: u64
  parse_errors :: u64
  responses_by_class :: "u64 list"
  bytes_received :: u64
  bytes_sent :: u64
  bytes_sendfile :: u64
  loop_wakeups :: u64
  loop_events :: u64
  latency_buckets :: "u64 list"
  latency_sum_us :: u64

definition new_metrics :: WorkerMetrics where
  "new_metrics =
     \<lparr>connections_accepted = 0, connections_closed = 0, connections_timed_out = 0, accept_errors = 0,
      requests_total = 0, parse_errors = 0, responses_by_class = replicate 6 0, bytes_received = 0,
      bytes_sent = 0, bytes_sendfile = 0, loop_wakeups = 0, loop_events = 0,
      latency_buckets = replicate kLatencyBuckets 0, latency_sum_us = 0\<rparr>"

definition bump :: "u64 \<Rightarrow> u64 \<Rightarrow> u64" where
  "bump counter n = counter + n"

text \<open>An array of counters with one of them bumped.\<close>

definition bump_at :: "u64 list \<Rightarrow> nat \<Rightarrow> u64 list" where
  "bump_at counters i = counters[i := bump (counters ! i) 1]"

text \<open>\<^verbatim>\<open>__builtin_clzll\<close>: the number of leading zero bits, for an argument that is not zero.\<close>

definition clzll :: "u64 \<Rightarrow> nat" where
  "clzll w = length (takeWhile (\<lambda>i. \<not> bit w i) (rev [0..<64]))"

definition bucket_index :: "u64 \<Rightarrow> nat" where
  "bucket_index us =
     (let idx = (if us = 0 then 0 else 64 - clzll us) in
      if idx \<ge> kLatencyBuckets then kLatencyBuckets - 1 else idx)"

definition observe_latency_us :: "WorkerMetrics \<Rightarrow> u64 \<Rightarrow> WorkerMetrics" where
  "observe_latency_us m us =
     m\<lparr>latency_buckets := bump_at (latency_buckets m) (bucket_index us),
       latency_sum_us := bump (latency_sum_us m) us\<rparr>"

section \<open>The bucket of a sample\<close>

lemma takeWhile_rev_upt:
  "i < n \<Longrightarrow> P i \<Longrightarrow> (\<forall>j. i < j \<and> j < n \<longrightarrow> \<not> P j) \<Longrightarrow>
     length (takeWhile (\<lambda>j. \<not> P j) (rev [0..<n])) = n - Suc i"
proof (induction n)
  case (Suc n)
  show ?case
  proof (cases "i = n")
    case False
    with Suc have "\<not> P n" "i < n" by auto
    with Suc show ?thesis by auto
  qed (use Suc in simp)
qed simp

text \<open>\<^verbatim>\<open>64 - clz\<close> is the bit width: the samples of width \<open>k\<close> are those from \<open>2 ^ (k - 1)\<close> up to but
  not including \<open>2 ^ k\<close>.\<close>

lemma bit_width:
  assumes "us \<noteq> (0 :: u64)"
  shows "0 < 64 - clzll us" "64 - clzll us \<le> 64" "unat us < 2 ^ (64 - clzll us)"
    "2 ^ (64 - clzll us - 1) \<le> unat us"
proof -
  define i where "i = Max {j. bit us j}"
  have fin: "finite {j. bit us j}"
    by (rule finite_subset [of _ "{..<64}"]) (use bit_imp_le_length [of us] in auto)
  have ne: "{j. bit us j} \<noteq> {}" using assms by (auto simp: bit_eq_iff)
  have i: "bit us i" using Max_in [OF fin ne] by (simp add: i_def)
  have "bit us j \<Longrightarrow> j \<le> i" for j
    using Max_ge [OF fin, of j] by (simp add: i_def)
  then have top: "\<not> bit us j" if "i < j" for j using that by fastforce
  have "i < 64" using bit_imp_le_length [OF i] by simp
  then have clz: "clzll us = 64 - Suc i"
    unfolding clzll_def using i top by (intro takeWhile_rev_upt) auto
  then have w: "64 - clzll us = Suc i" using \<open>i < 64\<close> by simp
  have "take_bit (Suc i) us = us"
    by (rule bit_word_eqI) (use top in \<open>auto simp: bit_take_bit_iff intro: ccontr\<close>)
  then have "unat us = take_bit (Suc i) (unat us)" by (metis unsigned_take_bit_eq)
  then have "unat us < 2 ^ Suc i" by (metis take_bit_nat_less_exp)
  moreover have "2 ^ i \<le> unat us"
  proof (rule ccontr)
    assume "\<not> 2 ^ i \<le> unat us"
    then have "take_bit i (unat us) = unat us" by (simp add: take_bit_nat_eq_self)
    then have "\<not> bit (unat us) i" by (metis bit_take_bit_iff less_irrefl)
    with i show False by (simp add: bit_unsigned_iff)
  qed
  ultimately show "0 < 64 - clzll us" "64 - clzll us \<le> 64" "unat us < 2 ^ (64 - clzll us)"
    "2 ^ (64 - clzll us - 1) \<le> unat us"
    using w \<open>i < 64\<close> by simp_all
qed

lemma bucket_index_less: "bucket_index us < kLatencyBuckets"
  by (simp add: bucket_index_def Let_def kLatencyBuckets_def)

lemma length_bump_at [simp]: "length (bump_at cs i) = length cs"
  by (simp add: bump_at_def)

lemma sum_list_bump_at: "i < length cs \<Longrightarrow> sum_list (bump_at cs i) = sum_list cs + 1"
  by (induction cs arbitrary: i) (auto simp: bump_at_def bump_def split: nat.split)

section \<open>Properties\<close>

text \<open>Every latency falls into one of the 24 buckets, and into the right one: a sample in bucket
  \<open>i\<close> below the last is less than \<open>2 ^ i\<close> microseconds and, for \<open>i\<close> above zero, at least
  \<open>2 ^ (i - 1)\<close>; the last bucket takes everything from \<open>2 ^ 22\<close> up.\<close>

theorem latency_bucket_bounds:
  "let i = bucket_index us in
     i < kLatencyBuckets \<and> (i = kLatencyBuckets - 1 \<or> unat us < 2 ^ i) \<and> (i = 0 \<or> 2 ^ (i - 1) \<le> unat us)"
proof (cases "us = 0")
  case True
  then show ?thesis by (simp add: bucket_index_def kLatencyBuckets_def)
next
  case False
  note w = bit_width [OF False]
  show ?thesis
  proof (cases "64 - clzll us \<ge> kLatencyBuckets")
    case True
    then have "(2 :: nat) ^ 22 \<le> 2 ^ (64 - clzll us - 1)"
      by (intro power_increasing) (auto simp: kLatencyBuckets_def)
    with w(4) True False show ?thesis by (simp add: bucket_index_def Let_def kLatencyBuckets_def)
  next
    case less: False
    with w False show ?thesis by (simp add: bucket_index_def Let_def)
  qed
qed

text \<open>C39: The upper bound of a bucket is not in it: a latency of exactly \<open>2 ^ b\<close> microseconds is
  counted in bucket \<open>b + 1\<close>, although the exposition labels the counts up to bucket \<open>b\<close> with
  \<open>le = 2 ^ b\<close>, which is meant to include the bound.\<close>

theorem latency_bound_excluded:
  assumes "b < 23"
  shows "bucket_index (2 ^ b) = b + 1"
proof -
  have "b < 64" using assms by simp
  then have "unat (word_of_nat (2 ^ b) :: u64) = 2 ^ b"
    by (simp only: unsigned_of_nat) (simp add: take_bit_nat_eq_self)
  then have u: "unat ((2 :: u64) ^ b) = 2 ^ b" by simp
  then have ne: "(2 :: u64) ^ b \<noteq> 0" by (metis power_not_zero unat_eq_0 zero_neq_numeral)
  note w = bit_width [OF ne]
  let ?k = "64 - clzll (2 ^ b)"
  have "(2 :: nat) ^ b < 2 ^ ?k" "(2 :: nat) ^ (?k - 1) \<le> 2 ^ b" using w(3,4) by (simp_all add: u)
  then have "b < ?k" "?k - 1 \<le> b"
    using power_strict_increasing_iff [of "2 :: nat"] power_increasing_iff [of "2 :: nat"] by simp_all
  then have "?k = b + 1" by simp
  with assms ne show ?thesis unfolding bucket_index_def Let_def kLatencyBuckets_def by simp
qed

theorem latency_bound_excluded_witness: "bucket_index (2 ^ 10) = 11"
  using latency_bound_excluded [of 10] by simp

end
