(* ===== verification/Date_Cache.thy ===== *)
theory Date_Cache
  imports Prelude
begin

text \<open>
  The Date field: \<^verbatim>\<open>DateCache\<close> of \<^verbatim>\<open>src/src/server/server.cpp\<close> and the two calls it makes of the C
  library, \<^verbatim>\<open>gmtime_r\<close> (the proleptic Gregorian calendar in UTC) and \<^verbatim>\<open>strftime\<close> with the format
  of an IMF-fixdate. The buffer of the cache and its length are the string they hold.
\<close>

section \<open>The calendar\<close>

text \<open>The date of a day counted from 1970-01-01. An era is 400 years from a first of March on; in it,
  centuries, groups of four years and years are counted off, the leap day being the last of its year.
  The month is counted from March.\<close>

definition year_of_era :: "int \<Rightarrow> int \<times> int" where
  "year_of_era doe =
     (let c = (if doe = 146096 then 3 else doe div 36524);
          r = doe - c * 36524;
          q = r div 1461;
          s = r - q * 1461;
          y = (if s = 1460 then 3 else s div 365)
      in (100 * c + 4 * q + y, s - y * 365))"

definition civil_from_days :: "int \<Rightarrow> int \<times> int \<times> int" where
  "civil_from_days days =
     (let z = days + 719468;
          (yoe, doy) = year_of_era (z mod 146097);
          mp = (5 * doy + 2) div 153;
          d = doy - (153 * mp + 2) div 5 + 1;
          m = (if mp < 10 then mp + 3 else mp - 9);
          y = yoe + z div 146097 * 400 + (if m \<le> 2 then 1 else 0)
      in (y, m, d))"

text \<open>The day of a date: the inverse.\<close>

definition days_from_civil :: "int \<Rightarrow> int \<Rightarrow> int \<Rightarrow> int" where
  "days_from_civil y m d =
     (let y' = (if m \<le> 2 then y - 1 else y);
          yoe = y' mod 400;
          mp = (if m > 2 then m - 3 else m + 9);
          doy = (153 * mp + 2) div 5 + d - 1
      in y' div 400 * 146097 + (yoe * 365 + yoe div 4 - yoe div 100 + doy) - 719468)"

lemma year_of_era_ok:
  assumes "0 \<le> doe" "doe < 146097" "year_of_era doe = (yoe, doy)"
  shows "0 \<le> yoe" "yoe < 400" "0 \<le> doy" "doy < 366" "yoe * 365 + yoe div 4 - yoe div 100 + doy = doe"
proof -
  define c where "c = (if doe = 146096 then 3 else doe div 36524)"
  define r where "r = doe - c * 36524"
  define q where "q = r div 1461"
  define s where "s = r - q * 1461"
  define y where "y = (if s = 1460 then 3 else s div 365)"
  have eq: "yoe = 100 * c + 4 * q + y" "doy = s - y * 365"
    using assms(3) unfolding year_of_era_def Let_def c_def [symmetric] r_def [symmetric] q_def [symmetric]
      s_def [symmetric] y_def [symmetric] by auto
  have c: "0 \<le> c" "c < 4" "0 \<le> r" "r \<le> 36524" using assms(1,2) by (auto simp: c_def r_def)
  have q: "0 \<le> q" "q < 25" "0 \<le> s" "s \<le> 1460" using c by (auto simp: q_def s_def)
  have y: "0 \<le> y" "y < 4" "0 \<le> doy" "doy < 366" using q by (auto simp: y_def eq)
  have "yoe div 4 = 25 * c + q" "yoe div 100 = c" using q(1,2) y(1,2) by (auto simp: eq)
  then show "yoe * 365 + yoe div 4 - yoe div 100 + doy = doe" by (simp add: eq s_def r_def)
  show "0 \<le> yoe" "yoe < 400" "0 \<le> doy" "doy < 366" using c q y by (auto simp: eq(1))
qed

lemma month_ok:
  assumes "0 \<le> doy" "doy < (366 :: int)"
  shows "0 \<le> (5 * doy + 2) div 153" "(5 * doy + 2) div 153 < 12"
    "1 \<le> doy - (153 * ((5 * doy + 2) div 153) + 2) div 5 + 1"
    "doy - (153 * ((5 * doy + 2) div 153) + 2) div 5 + 1 \<le> 31"
proof -
  let ?m = "(5 * doy + 2) div 153" and ?e = "(153 * ((5 * doy + 2) div 153) + 2) div 5"
  have m: "153 * ?m \<le> 5 * doy + 2" "5 * doy + 2 < 153 * ?m + 153" by linarith+
  have e: "5 * ?e \<le> 153 * ?m + 2" "153 * ?m + 2 < 5 * ?e + 5" by linarith+
  show "0 \<le> ?m" "?m < 12" "1 \<le> doy - ?e + 1" "doy - ?e + 1 \<le> 31" using assms m e by linarith+
qed

lemma civil_from_days_ok:
  assumes "civil_from_days days = (y, m, d)"
  shows "1 \<le> m" "m \<le> 12" "1 \<le> d" "d \<le> 31" "days_from_civil y m d = days"
proof -
  define z where "z = days + 719468"
  obtain yoe doy where yd: "year_of_era (z mod 146097) = (yoe, doy)" by (cases "year_of_era (z mod 146097)")
  have doe: "0 \<le> z mod 146097" "z mod 146097 < 146097" by simp_all
  note ok = year_of_era_ok [OF doe yd]
  define mp where "mp = (5 * doy + 2) div 153"
  note mo = month_ok [OF ok(3,4), folded mp_def]
  have eq: "m = (if mp < 10 then mp + 3 else mp - 9)" "d = doy - (153 * mp + 2) div 5 + 1"
    "y = yoe + z div 146097 * 400 + (if m \<le> 2 then 1 else 0)"
    using assms yd by (auto simp: civil_from_days_def Let_def z_def mp_def)
  show "1 \<le> m" "m \<le> 12" "1 \<le> d" "d \<le> 31" using mo eq by auto
  let ?y = "if m \<le> 2 then y - 1 else y"
  have "?y = yoe + z div 146097 * 400" using eq(3) by simp
  then have yy: "?y div 400 = z div 146097" "?y mod 400 = yoe" using ok(1,2) by simp_all
  have "(if m > 2 then m - 3 else m + 9) = mp" using eq(1) mo(1,2) by auto
  then show "days_from_civil y m d = days"
    unfolding days_from_civil_def Let_def yy using ok(5) eq(2) z_def by simp
qed

definition two_digits :: "int \<Rightarrow> string" where
  "two_digits n = [digit_char (nat (n div 10)), digit_char (nat (n mod 10))]"

definition weekday_names :: "string list" where
  "weekday_names = [''Sun'', ''Mon'', ''Tue'', ''Wed'', ''Thu'', ''Fri'', ''Sat'']"

definition month_names :: "string list" where
  "month_names = [''Jan'', ''Feb'', ''Mar'', ''Apr'', ''May'', ''Jun'', ''Jul'', ''Aug'', ''Sep'',
     ''Oct'', ''Nov'', ''Dec'']"

definition imf_fixdate :: "int \<Rightarrow> string" where
  "imf_fixdate now =
     (let days = now div 86400; secs = now mod 86400; (y, m, d) = civil_from_days days in
      weekday_names ! nat ((days + 4) mod 7) @ '', '' @ two_digits d @ '' '' @
      month_names ! nat (m - 1) @ '' '' @ to_string y @ '' '' @
      two_digits (secs div 3600) @ '':'' @ two_digits (secs div 60 mod 60) @ '':'' @
      two_digits (secs mod 60) @ '' GMT'')"

section \<open>The cache\<close>

record DateCache =
  dc_cached :: int
  dc_text :: string

definition new_date_cache :: DateCache where
  "new_date_cache = \<lparr>dc_cached = -1, dc_text = []\<rparr>"

definition date_get :: "DateCache \<Rightarrow> int \<Rightarrow> string \<times> DateCache" where
  "date_get dc now =
     (let dc = (if now \<noteq> dc_cached dc then dc\<lparr>dc_text := imf_fixdate now, dc_cached := now\<rparr> else dc)
      in (dc_text dc, dc))"

definition date_cache_ok :: "DateCache \<Rightarrow> bool" where
  "date_cache_ok dc \<longleftrightarrow> dc_cached dc = -1 \<or> dc_text dc = imf_fixdate (dc_cached dc)"

lemma date_get_ok:
  assumes "date_cache_ok dc"
  shows "date_cache_ok (snd (date_get dc now))" "now \<noteq> -1 \<Longrightarrow> fst (date_get dc now) = imf_fixdate now"
  using assms by (auto simp: date_get_def date_cache_ok_def Let_def)

lemma date_cache_ok_new: "date_cache_ok new_date_cache"
  by (simp add: date_cache_ok_def new_date_cache_def)

text \<open>The answers of a cache that is asked again and again.\<close>

fun date_gets :: "DateCache \<Rightarrow> int list \<Rightarrow> string list" where
  "date_gets dc [] = []"
| "date_gets dc (now # ts) = fst (date_get dc now) # date_gets (snd (date_get dc now)) ts"

lemma date_gets_ok: "date_cache_ok dc \<Longrightarrow> -1 \<notin> set ts \<Longrightarrow> date_gets dc ts = map imf_fixdate ts"
  by (induction ts arbitrary: dc) (auto simp: date_get_ok)

section \<open>The text holds no line break\<close>

lemma digit_not_CR: "d < 10 \<Longrightarrow> CR \<noteq> digit_char d"
proof
  assume "d < 10" "CR = digit_char d"
  then have "byte CR = 48 + d" by (simp add: byte_digit_char)
  then show False by simp
qed

lemma two_digits_no_CR: "0 \<le> n \<Longrightarrow> n < 100 \<Longrightarrow> CR \<notin> set (two_digits n)"
  using digit_not_CR [of "nat (n div 10)"] digit_not_CR [of "nat (n mod 10)"]
  by (auto simp: two_digits_def nat_less_iff)

lemma to_string_no_CR: "CR \<notin> set (to_string i)"
proof -
  have "CR \<notin> set (to_chars 10 n)" for n
    using to_digits_less [of 10 _ n] digit_not_CR by (auto simp: to_chars_digits)
  then show ?thesis by (simp add: to_string_def)
qed

lemma imf_fixdate_no_CR: "CR \<notin> set (imf_fixdate now)"
proof -
  obtain y m d where ymd: "civil_from_days (now div 86400) = (y, m, d)"
    by (cases "civil_from_days (now div 86400)")
  note ok = civil_from_days_ok [OF ymd]
  have "list_all (\<lambda>w. CR \<notin> set w) weekday_names" "list_all (\<lambda>w. CR \<notin> set w) month_names"
    by (simp_all add: weekday_names_def month_names_def)
  moreover have "nat ((now div 86400 + 4) mod 7) < length weekday_names" "nat (m - 1) < length month_names"
    using ok by (simp_all add: weekday_names_def month_names_def nat_less_iff)
  ultimately have "CR \<notin> set (weekday_names ! nat ((now div 86400 + 4) mod 7))"
    "CR \<notin> set (month_names ! nat (m - 1))"
    by (simp_all add: list_all_length)
  moreover have "CR \<notin> set (two_digits n)" if "n \<in> {d, now mod 86400 div 3600, now mod 86400 div 60 mod 60, now mod 86400 mod 60}" for n
    using that ok by (intro two_digits_no_CR) auto
  ultimately show ?thesis
    by (simp add: imf_fixdate_def ymd to_string_no_CR Let_def)
qed

lemma date_get_no_CR:
  "CR \<notin> set (dc_text dc) \<Longrightarrow> CR \<notin> set (fst (date_get dc now)) \<and> CR \<notin> set (dc_text (snd (date_get dc now)))"
  by (simp add: date_get_def Let_def imf_fixdate_no_CR)

section \<open>Properties\<close>

text \<open>C38: The cache cannot be seen from outside: whatever sequence of times a worker asks it for (in
  order or not, any of them repeated), every answer is the date of the time asked for, the
  failure value -1 of \<^verbatim>\<open>std::time\<close> excepted.\<close>

theorem date_cache_transparent:
  assumes "-1 \<notin> set ts"
  shows "date_gets new_date_cache ts = map imf_fixdate ts"
  using date_cache_ok_new assms by (rule date_gets_ok)

theorem date_cache_transparent_witness:
  "date_gets new_date_cache [784111777, 784111777, 951782400] =
     [''Sun, 06 Nov 1994 08:49:37 GMT'', ''Sun, 06 Nov 1994 08:49:37 GMT'', ''Tue, 29 Feb 2000 00:00:00 GMT'']"
proof -
  have "imf_fixdate 784111777 = ''Sun, 06 Nov 1994 08:49:37 GMT''" by code_simp
  moreover have "imf_fixdate 951782400 = ''Tue, 29 Feb 2000 00:00:00 GMT''" by code_simp
  ultimately show ?thesis
    using date_cache_transparent [of "[784111777, 784111777, 951782400]"] by simp
qed

end
