(* ===== verification/Connection_State.thy ===== *)
theory Connection_State
  imports Router_Table Byte_Buffer Parser_Properties Metrics Date_Cache
begin

text \<open>
  The state of a worker and of its connections, \<^verbatim>\<open>src/src/server/server.cpp\<close>. A \<^verbatim>\<open>UniqueFd\<close> is a
  descriptor number, negative when it holds none. The kernel is a field of the worker: for every
  descriptor what the coming calls of \<^verbatim>\<open>recv\<close>, \<^verbatim>\<open>send\<close> and \<^verbatim>\<open>sendfile\<close> will answer, the clocks,
  the contents of the open files, and, as the record of what the program did, the bytes the kernel
  accepted on a socket and whether its sending side was shut down. A list of answers that is
  exhausted answers \<^verbatim>\<open>EAGAIN\<close>: between two calls of \<^verbatim>\<open>epoll_wait\<close> only finitely much arrives.
\<close>

section \<open>The kernel\<close>

datatype RecvResult = Received string | RecvIntr | RecvAgain | RecvFail
datatype SendResult = Sent size_t | SendIntr | SendAgain | SendFail
datatype AcceptResult =
    Accepted nat "RecvResult list" "SendResult list" bool
  | AcceptRetry | AcceptAgain | AcceptFail

record Kernel =
  recvs :: "int \<Rightarrow> RecvResult list"
  sends :: "int \<Rightarrow> SendResult list"
  accepts :: "AcceptResult list"
  file_bytes :: "int \<Rightarrow> string"
  mono_clock :: "nat \<Rightarrow> u64"
  mono_reads :: nat
  wall_clock :: "nat \<Rightarrow> int"
  wall_reads :: nat
  fresh_memory :: "size_t \<Rightarrow> char"
  wire :: "int \<Rightarrow> string"
  fin_sent :: "int \<Rightarrow> bool"

text \<open>\<^verbatim>\<open>recv\<close> never answers more bytes than asked for; the others stay in the socket.\<close>

definition sys_recv :: "int \<Rightarrow> size_t \<Rightarrow> Kernel \<Rightarrow> RecvResult \<times> Kernel" where
  "sys_recv fd n k =
     (case recvs k fd of
        [] \<Rightarrow> (RecvAgain, k)
      | Received s # rs \<Rightarrow>
          if length s \<le> n then (Received s, k\<lparr>recvs := (recvs k)(fd := rs)\<rparr>)
          else (Received (take n s), k\<lparr>recvs := (recvs k)(fd := Received (drop n s) # rs)\<rparr>)
      | r # rs \<Rightarrow> (r, k\<lparr>recvs := (recvs k)(fd := rs)\<rparr>))"

text \<open>\<^verbatim>\<open>send\<close> and \<^verbatim>\<open>sendfile\<close> accept a prefix of what they are offered; what they accept is on the
  wire. \<^verbatim>\<open>sendfile\<close> answers 0 at the end of the file.\<close>

definition sys_send :: "int \<Rightarrow> string \<Rightarrow> Kernel \<Rightarrow> SendResult \<times> Kernel" where
  "sys_send fd data k =
     (case sends k fd of
        [] \<Rightarrow> (SendAgain, k)
      | Sent n # rs \<Rightarrow>
          (Sent (min n (length data)),
           k\<lparr>sends := (sends k)(fd := rs), wire := (wire k)(fd := wire k fd @ take n data)\<rparr>)
      | r # rs \<Rightarrow> (r, k\<lparr>sends := (sends k)(fd := rs)\<rparr>))"

definition sys_sendfile :: "int \<Rightarrow> int \<Rightarrow> int \<Rightarrow> size_t \<Rightarrow> Kernel \<Rightarrow> SendResult \<times> Kernel" where
  "sys_sendfile fd file_fd off want k =
     (if off < 0 then (SendFail, k)
      else sys_send fd (take want (drop (nat off) (file_bytes k file_fd))) k)"

definition sys_mono_us :: "Kernel \<Rightarrow> u64 \<times> Kernel" where
  "sys_mono_us k = (mono_clock k (mono_reads k), k\<lparr>mono_reads := Suc (mono_reads k)\<rparr>)"

definition sys_time :: "Kernel \<Rightarrow> int \<times> Kernel" where
  "sys_time k = (wall_clock k (wall_reads k), k\<lparr>wall_reads := Suc (wall_reads k)\<rparr>)"

section \<open>Connections\<close>

definition kReadSize :: size_t where "kReadSize = 16 * 1024"
definition kOutHighWater :: size_t where "kOutHighWater = 256 * 1024"
definition kProducerLowWater :: size_t where "kProducerLowWater = 64 * 1024"
definition kSendfileMax :: size_t where "kSendfileMax = 2 ^ 20"
definition kAcceptBatch :: nat where "kAcceptBatch = 64"

record Connection =
  c_fd :: int
  c_in :: ByteBuffer
  c_parser :: RequestParser
  c_out :: string
  c_out_off :: size_t
  c_file :: int
  c_file_off :: int
  c_file_left :: size_t
  c_producer :: "Producer option"
  c_trailers :: Headers
  c_chunked :: bool
  c_stream_sized :: bool
  c_stream_left :: size_t
  can_read :: bool
  can_write :: bool
  peer_closed :: bool
  close_after_write :: bool
  continue_sent :: bool
  last_active_us :: u64
  request_start_us :: u64

definition new_connection :: "int \<Rightarrow> ParserLimits \<Rightarrow> u64 \<Rightarrow> (size_t \<Rightarrow> char) \<Rightarrow> Connection" where
  "new_connection fd lim now mem =
     \<lparr>c_fd = fd, c_in = new_buffer mem, c_parser = new_parser lim, c_out = [], c_out_off = 0,
      c_file = -1, c_file_off = 0, c_file_left = 0, c_producer = None, c_trailers = no_headers,
      c_chunked = False, c_stream_sized = False, c_stream_left = 0, can_read = True,
      can_write = True, peer_closed = False, close_after_write = False, continue_sent = False,
      last_active_us = now, request_start_us = 0\<rparr>"

definition out_pending :: "Connection \<Rightarrow> size_t" where
  "out_pending c = szsub (length (c_out c)) (c_out_off c)"

definition body_source_active :: "Connection \<Rightarrow> bool" where
  "body_source_active c \<longleftrightarrow> fd_valid (c_file c) \<or> c_producer c \<noteq> None"

definition has_output :: "Connection \<Rightarrow> bool" where
  "has_output c \<longleftrightarrow> out_pending c > 0 \<or> body_source_active c"

section \<open>Workers\<close>

text \<open>Timeouts are milliseconds, a signed 64-bit count.\<close>

record ServerConfig =
  bind_address :: string
  port :: "16 word"
  threads :: u32
  pin_threads :: bool
  backlog :: int
  idle_timeout :: int
  header_timeout :: int
  shutdown_grace :: int
  cfg_limits :: ParserLimits

definition default_config :: ServerConfig where
  "default_config =
     \<lparr>bind_address = ''0.0.0.0'', port = 8080, threads = 0, pin_threads = False, backlog = 4096,
      idle_timeout = 30000, header_timeout = 10000, shutdown_grace = 5000, cfg_limits = default_limits\<rparr>"

definition to_us :: "int \<Rightarrow> u64" where
  "to_us ms = word_of_int ms * 1000"

text \<open>The handlers of the routes may look at the clock, at files and at the counters of all workers,
  so the router that answers is a function of the number of dispatches before.\<close>

record Worker =
  w_limits :: ParserLimits
  w_routes :: "nat \<Rightarrow> Router"
  w_dispatched :: nat
  max_in_buffer :: size_t
  idle_timeout_us :: u64
  header_timeout_us :: u64
  tick_us :: u64
  w_grace :: int
  listener :: int
  wake :: int
  conns :: "(int \<times> Connection) list"
  metrics :: WorkerMetrics
  date_cache :: DateCache
  now_us :: u64
  draining :: bool
  drain_deadline_us :: u64
  kernel :: Kernel

text \<open>The bytes that are queued but not yet accepted by the kernel.\<close>

definition pending :: "Connection \<Rightarrow> string" where
  "pending c = drop (c_out_off c) (c_out c)"

definition out_inv :: "Connection \<Rightarrow> bool" where
  "out_inv c \<longleftrightarrow> c_out_off c < length (c_out c) \<or> c_out c = [] \<and> c_out_off c = 0"

lemma out_pending_inv: "out_inv c \<Longrightarrow> out_pending c = length (pending c)"
  by (auto simp: out_inv_def out_pending_def pending_def)

lemma out_drained: "out_inv c \<Longrightarrow> out_pending c = 0 \<Longrightarrow> c_out c = [] \<and> c_out_off c = 0"
  by (auto simp: out_inv_def out_pending_def)

text \<open>The constructor of a worker, once \<^verbatim>\<open>epoll_create1\<close>, \<^verbatim>\<open>eventfd\<close> and the two registrations have
  succeeded; the numbers are the descriptors of the listener and of the event.\<close>

definition new_worker :: "ServerConfig \<Rightarrow> (nat \<Rightarrow> Router) \<Rightarrow> int \<Rightarrow> int \<Rightarrow> Kernel \<Rightarrow> Worker" where
  "new_worker cfg rts lst wk k =
     (let lim = cfg_limits cfg;
          idle = to_us (idle_timeout cfg);
          header = to_us (header_timeout cfg);
          (now, k) = sys_mono_us k
      in \<lparr>w_limits = lim, w_routes = rts, w_dispatched = 0,
          max_in_buffer = max (64 * 1024) (szadd (max_request_line lim) (max_header_bytes lim)),
          idle_timeout_us = idle, header_timeout_us = header,
          tick_us = (let t = min idle header div 4
                     in if t < 10000 then 10000 else if 1000000 < t then 1000000 else t),
          w_grace = shutdown_grace cfg, listener = lst, wake = wk, conns = [], metrics = new_metrics,
          date_cache = new_date_cache, now_us = now, draining = False, drain_deadline_us = 0, kernel = k\<rparr>)"

definition idle_kernel :: Kernel where
  "idle_kernel =
     \<lparr>recvs = (\<lambda>_. []), sends = (\<lambda>_. []), accepts = [], file_bytes = (\<lambda>_. []), mono_clock = (\<lambda>_. 1),
      mono_reads = 0, wall_clock = (\<lambda>_. 784111777), wall_reads = 0, fresh_memory = (\<lambda>_. SP),
      wire = (\<lambda>_. []), fin_sent = (\<lambda>_. False)\<rparr>"

definition demo_worker :: "Router \<Rightarrow> Kernel \<Rightarrow> Worker" where
  "demo_worker rts k = new_worker default_config (\<lambda>_. rts) 3 4 k"

lemma demo_worker_simps [simp]:
  "w_limits (demo_worker rts k) = default_limits" "max_in_buffer (demo_worker rts k) = 64 * 1024"
  "recvs (kernel (demo_worker rts k)) = recvs k" "sends (kernel (demo_worker rts k)) = sends k"
  "wire (kernel (demo_worker rts k)) = wire k" "file_bytes (kernel (demo_worker rts k)) = file_bytes k"
  "w_routes (demo_worker rts k) n = rts" "draining (demo_worker rts k) = False"
  by (simp_all add: demo_worker_def new_worker_def default_config_def default_limits_def sys_mono_us_def Let_def)

end
