(* ===== verification/Loops.thy ===== *)
theory Loops
  imports Main
begin

text \<open>
  Loops that may run forever. A turn of a loop takes the state and answers \<open>Again\<close> with the next
  state, or \<open>Stop\<close> with the result; a turn that does not return is \<^term>\<open>None\<close>, and so is a loop
  that never stops. The locale \<open>bounded_loop\<close> is the contract under which a loop returns: an
  invariant that every turn keeps and a measure that every turn that goes on decreases.
\<close>

datatype ('s, 'r) Step = Again 's | Stop 'r

partial_function (option) iterate :: "('s \<Rightarrow> ('s, 'r) Step option) \<Rightarrow> 's \<Rightarrow> 'r option" where
  "iterate turn s =
     Option.bind (turn s) (\<lambda>x. case x of Again s' \<Rightarrow> iterate turn s' | Stop r \<Rightarrow> Some r)"

lemma iterate_Again: "turn s = Some (Again s') \<Longrightarrow> iterate turn s = iterate turn s'"
  by (simp add: iterate.simps [of turn s])

lemma iterate_Stop: "turn s = Some (Stop r) \<Longrightarrow> iterate turn s = Some r"
  by (simp add: iterate.simps)

lemma iterate_total:
  "iterate (\<lambda>s. Some (turn s)) s =
     (case turn s of Again s' \<Rightarrow> iterate (\<lambda>s. Some (turn s)) s' | Stop r \<Rightarrow> Some r)"
  by (simp add: iterate.simps [of "\<lambda>s. Some (turn s)" s])

text \<open>What holds before a loop and is kept by its turns gives what holds of its result.\<close>

lemma iterate_rule [consumes 2, case_names again stop]:
  assumes "iterate turn s = Some r" and "I s"
    and "\<And>s s'. I s \<Longrightarrow> turn s = Some (Again s') \<Longrightarrow> I s'"
    and "\<And>s r. I s \<Longrightarrow> turn s = Some (Stop r) \<Longrightarrow> R r"
  shows "R r"
proof -
  have "turn = turn \<longrightarrow> I s \<longrightarrow> R r"
  proof (rule iterate.raw_induct [where P = "\<lambda>turn' s r. turn' = turn \<longrightarrow> I s \<longrightarrow> R r", OF _ assms(1)], intro impI)
    fix loop turn' s r
    assume IH: "\<And>turn' s r. loop turn' s = Some r \<Longrightarrow> turn' = turn \<longrightarrow> I s \<longrightarrow> R r"
      and "Option.bind (turn' s) (\<lambda>x. case x of Again s' \<Rightarrow> loop turn' s' | Stop r \<Rightarrow> Some r) = Some r"
      and t: "turn' = turn" "I s"
    then obtain x where "turn s = Some x" "(case x of Again s' \<Rightarrow> loop turn s' | Stop r \<Rightarrow> Some r) = Some r"
      by (cases "turn s") auto
    with IH [of turn] assms(3,4) t(2) show "R r" by (cases x) auto
  qed
  with assms(2) show ?thesis by blast
qed

locale bounded_loop =
  fixes turn :: "'s \<Rightarrow> ('s, 'r) Step option"
    and inv :: "'s \<Rightarrow> bool"
    and bound :: "'s \<Rightarrow> nat"
  assumes turn_returns: "inv s \<Longrightarrow> turn s \<noteq> None"
    and turn_keeps: "inv s \<Longrightarrow> turn s = Some (Again s') \<Longrightarrow> inv s'"
    and turn_shrinks: "inv s \<Longrightarrow> turn s = Some (Again s') \<Longrightarrow> bound s' < bound s"
begin

lemma loop_returns: "inv s \<Longrightarrow> iterate turn s \<noteq> None"
proof (induction "bound s" arbitrary: s rule: less_induct)
  case less
  obtain x where x: "turn s = Some x" using turn_returns [OF less.prems] by auto
  show ?case
  proof (cases x)
    case (Again s')
    with x turn_keeps [OF less.prems] turn_shrinks [OF less.prems] less.hyps [of s'] show ?thesis
      by (simp add: iterate_Again)
  qed (use x in \<open>simp add: iterate_Stop\<close>)
qed

lemma loop_result:
  assumes "inv s" obtains r where "iterate turn s = Some r"
  using loop_returns [OF assms] by auto

end

end
