(* ===== verification/Connection_Output.thy ===== *)
theory Connection_Output
  imports Connection_State Loops
begin

text \<open>
  The sending side of a connection: \<^verbatim>\<open>refill_from_producer\<close> and \<^verbatim>\<open>do_write\<close> of
  \<^verbatim>\<open>src/src/server/server.cpp\<close>. The loop of the first is total, since every turn that goes on
  appends at least a byte. The loop of the second is a partial function, which is shown to return on
  every connection that satisfies \<open>out_inv\<close>. The relation \<open>sends_out\<close> says what a connection still
  has to send; \<open>do_write_exact\<close> shows that this is what reaches the wire, byte for byte.
\<close>

section \<open>Streaming bodies\<close>

text \<open>The turn of the loop after the producer answered with \<^verbatim>\<open>more\<close> and \<open>piece\<close>; \<^term>\<open>None\<close> is
  \<^verbatim>\<open>return false\<close>.\<close>

definition accept_piece :: "Connection \<Rightarrow> bool \<Rightarrow> string \<Rightarrow> (Connection \<times> bool) option" where
  "accept_piece c more_data piece =
     (if more_data \<and> piece = [] then None
      else if c_stream_sized c then
        (if length piece > c_stream_left c then None
         else
           let c = c\<lparr>c_stream_left := c_stream_left c - length piece, c_out := c_out c @ piece\<rparr>
           in Some (c, more_data \<and> c_stream_left c \<noteq> 0))
      else if c_chunked c then Some (c\<lparr>c_out := append_chunk (c_out c) piece\<rparr>, more_data)
      else Some (c\<lparr>c_out := c_out c @ piece\<rparr>, more_data))"

text \<open>One call of the producer. An exception it throws, or that there is none, ends the loop.\<close>

definition refill_turn :: "Connection \<Rightarrow> (Connection \<times> bool) option" where
  "refill_turn c =
     (case c_producer c of
        None \<Rightarrow> None
      | Some pr \<Rightarrow>
          (case pull pr [] (c_trailers c) of
             Inl what \<Rightarrow> None
           | Inr (more_data, piece, trailers, pr') \<Rightarrow>
               accept_piece (c\<lparr>c_trailers := trailers, c_producer := Some pr'\<rparr>) more_data piece))"

lemma length_append_chunk: "data \<noteq> [] \<Longrightarrow> length out < length (append_chunk out data)"
  by (simp add: append_chunk_def append_number_def)

lemma accept_piece_grows:
  "accept_piece c more_data piece = Some (c', True) \<Longrightarrow> length (c_out c) < length (c_out c')"
  by (auto simp: accept_piece_def Let_def length_append_chunk split: if_splits)

lemma refill_turn_grows: "refill_turn c = Some (c', True) \<Longrightarrow> length (c_out c) < length (c_out c')"
  by (auto simp: refill_turn_def dest: accept_piece_grows split: option.splits sum.splits)

function refill_loop :: "Connection \<Rightarrow> bool \<Rightarrow> (Connection \<times> bool) option" where
  "refill_loop c more_data =
     (if more_data \<and> length (c_out c) < kProducerLowWater
      then (case refill_turn c of
              None \<Rightarrow> None
            | Some (c', more_data') \<Rightarrow> refill_loop c' more_data')
      else Some (c, more_data))"
  by pat_completeness auto
termination
  by (relation "measure (\<lambda>(c, more_data). if more_data then Suc (kProducerLowWater - length (c_out c)) else 0)")
    (auto dest!: refill_turn_grows, simp add: diff_less_mono2)

declare refill_loop.simps [simp del]

definition finish_stream :: "Connection \<Rightarrow> Connection" where
  "finish_stream c =
     (let c = c\<lparr>c_producer := None\<rparr>;
          c = (if c_chunked c then c\<lparr>c_out := append_last_chunk (c_out c) (c_trailers c)\<rparr> else c);
          c = (if c_stream_sized c \<and> c_stream_left c \<noteq> 0 then c\<lparr>close_after_write := True\<rparr> else c)
      in c\<lparr>c_trailers := no_headers\<rparr>)"

definition refill_from_producer :: "Connection \<Rightarrow> Connection option" where
  "refill_from_producer c =
     (case refill_loop c True of
        None \<Rightarrow> None
      | Some (c', more_data) \<Rightarrow> Some (if \<not> more_data then finish_stream c' else c'))"

section \<open>Sending\<close>

text \<open>What \<^verbatim>\<open>do_write\<close> does with the answer of \<^verbatim>\<open>send\<close>: the offset, the counter and the compaction
  of the output buffer.\<close>

definition note_sent :: "Worker \<Rightarrow> size_t \<Rightarrow> Worker" where
  "note_sent w n = w\<lparr>metrics := (metrics w)\<lparr>bytes_sent := bump (bytes_sent (metrics w)) (word_of_nat n)\<rparr>\<rparr>"

definition advance_out :: "Worker \<Rightarrow> Connection \<Rightarrow> size_t \<Rightarrow> Connection" where
  "advance_out w c n =
     (let c = c\<lparr>c_out_off := c_out_off c + n, last_active_us := now_us w\<rparr> in
      if c_out_off c = length (c_out c) then c\<lparr>c_out := [], c_out_off := 0\<rparr>
      else if c_out_off c > length (c_out c) div 2
      then c\<lparr>c_out := drop (c_out_off c) (c_out c), c_out_off := 0\<rparr>
      else c)"

definition note_sendfile :: "Worker \<Rightarrow> size_t \<Rightarrow> Worker" where
  "note_sendfile w n =
     (let w = note_sent w n in
      w\<lparr>metrics := (metrics w)\<lparr>bytes_sendfile := bump (bytes_sendfile (metrics w)) (word_of_nat n)\<rparr>\<rparr>)"

definition advance_file :: "Worker \<Rightarrow> Connection \<Rightarrow> size_t \<Rightarrow> Connection" where
  "advance_file w c n =
     c\<lparr>c_file_off := c_file_off c + int n, c_file_left := szsub (c_file_left c) n,
       last_active_us := now_us w\<rparr>"

text \<open>A turn of the loop starts from the worker, the connection and \<^verbatim>\<open>progress\<close>; the loop answers
  them together with its result.\<close>

type_synonym WriteState = "Worker \<times> Connection \<times> bool"
type_synonym IoResult = "Worker \<times> Connection \<times> bool \<times> bool"

definition send_turn :: "Worker \<Rightarrow> Connection \<Rightarrow> bool \<Rightarrow> (WriteState, IoResult) Step" where
  "send_turn w c progress =
     (let want = out_pending c;
          (r, k) = sys_send (c_fd c) (drop (c_out_off c) (c_out c)) (kernel w);
          w = w\<lparr>kernel := k\<rparr>
      in case r of
           SendIntr \<Rightarrow> Again (w, c, progress)
         | SendAgain \<Rightarrow> Stop (w, c\<lparr>can_write := False\<rparr>, progress, True)
         | SendFail \<Rightarrow> Stop (w, c, progress, False)
         | Sent n \<Rightarrow>
             if n < want then Stop (note_sent w n, (advance_out w c n)\<lparr>can_write := False\<rparr>, True, True)
             else Again (note_sent w n, advance_out w c n, True))"

definition sendfile_turn :: "Worker \<Rightarrow> Connection \<Rightarrow> bool \<Rightarrow> (WriteState, IoResult) Step" where
  "sendfile_turn w c progress =
     (let want = min (c_file_left c) kSendfileMax;
          (r, k) = sys_sendfile (c_fd c) (c_file c) (c_file_off c) want (kernel w);
          w = w\<lparr>kernel := k\<rparr>
      in case r of
           SendIntr \<Rightarrow> Again (w, c, progress)
         | SendAgain \<Rightarrow> Stop (w, c\<lparr>can_write := False\<rparr>, progress, True)
         | SendFail \<Rightarrow> Stop (w, c, progress, False)
         | Sent n \<Rightarrow>
             if n = 0 then Stop (w, c, progress, False)
             else
               let w = note_sendfile w n; c = advance_file w c n in
               if c_file_left c = 0 then Again (w, c\<lparr>c_file := -1\<rparr>, True)
               else if n < want then Stop (w, c\<lparr>can_write := False\<rparr>, True, True)
               else Again (w, c, True))"

definition write_turn :: "WriteState \<Rightarrow> (WriteState, IoResult) Step" where
  "write_turn = (\<lambda>(w, c, progress).
     if \<not> can_write c then Stop (w, c, progress, True)
     else if out_pending c > 0 then send_turn w c progress
     else if fd_valid (c_file c) then sendfile_turn w c progress
     else if c_producer c \<noteq> None then
       (case refill_from_producer c of
          None \<Rightarrow> Stop (w, c, progress, False)
        | Some c' \<Rightarrow> Again (w, c', True))
     else Stop (w, c, progress, True))"

definition do_write :: "Worker \<Rightarrow> Connection \<Rightarrow> bool \<Rightarrow> IoResult option" where
  "do_write w c progress = iterate (\<lambda>s. Some (write_turn s)) (w, c, progress)"

section \<open>What a streaming body is\<close>

text \<open>The bytes a producer still stands for: its pieces, as chunks with the last chunk and the
  trailers after them, or bare; a body of declared length ends where the length is reached, and no
  piece may go beyond it.\<close>

definition encode_piece :: "bool \<Rightarrow> string \<Rightarrow> string" where
  "encode_piece chunked piece = (if chunked then append_chunk [] piece else piece)"

definition encode_end :: "bool \<Rightarrow> Headers \<Rightarrow> string" where
  "encode_end chunked trailers = (if chunked then append_last_chunk [] trailers else [])"

inductive body_stream :: "bool \<Rightarrow> bool \<Rightarrow> Producer \<Rightarrow> Headers \<Rightarrow> size_t \<Rightarrow> string \<Rightarrow> bool"
  for chunked sized where
  ends: "pull pr [] tr = Inr (False, piece, tr', pr') \<Longrightarrow> (sized \<longrightarrow> length piece \<le> left) \<Longrightarrow>
    body_stream chunked sized pr tr left (encode_piece chunked piece @ encode_end chunked tr')"
| full: "pull pr [] tr = Inr (True, piece, tr', pr') \<Longrightarrow> piece \<noteq> [] \<Longrightarrow> sized \<Longrightarrow> length piece = left \<Longrightarrow>
    body_stream chunked sized pr tr left (encode_piece chunked piece @ encode_end chunked tr')"
| goes_on: "pull pr [] tr = Inr (True, piece, tr', pr') \<Longrightarrow> piece \<noteq> [] \<Longrightarrow> (sized \<longrightarrow> length piece < left) \<Longrightarrow>
    body_stream chunked sized pr' tr' (if sized then left - length piece else left) s \<Longrightarrow>
    body_stream chunked sized pr tr left (encode_piece chunked piece @ s)"

definition sends_body :: "Kernel \<Rightarrow> Connection \<Rightarrow> string \<Rightarrow> bool" where
  "sends_body k c s =
     (if fd_valid (c_file c) then
        0 \<le> c_file_off c \<and> length s = c_file_left c \<and>
        s = take (c_file_left c) (drop (nat (c_file_off c)) (file_bytes k (c_file c)))
      else (case c_producer c of
              None \<Rightarrow> s = []
            | Some pr \<Rightarrow> body_stream (c_chunked c) (c_stream_sized c) pr (c_trailers c) (c_stream_left c) s))"

definition sends_out :: "Kernel \<Rightarrow> Connection \<Rightarrow> string \<Rightarrow> bool" where
  "sends_out k c s \<longleftrightarrow> (\<exists>b. s = pending c @ b \<and> sends_body k c b)"

text \<open>A connection streams from at most one source, and never in chunks with a declared length.\<close>

definition source_inv :: "Connection \<Rightarrow> bool" where
  "source_inv c \<longleftrightarrow> (fd_valid (c_file c) \<longrightarrow> c_producer c = None \<and> 0 < c_file_left c) \<and>
     \<not> (c_chunked c \<and> c_stream_sized c)"

lemma append_chunk_encode: "append_chunk out piece = out @ encode_piece True piece"
  by (simp add: encode_piece_def append_chunk_def append_number_def)

lemma append_last_chunk_encode: "append_last_chunk out tr = out @ encode_end True tr"
  by (simp add: encode_end_def append_last_chunk_shape)

section \<open>A refill\<close>

text \<open>The part of a connection that a refill does not touch.\<close>

definition same_io :: "Connection \<Rightarrow> Connection \<Rightarrow> bool" where
  "same_io c c' \<longleftrightarrow> c_fd c' = c_fd c \<and> c_in c' = c_in c \<and> c_parser c' = c_parser c \<and>
     c_out_off c' = c_out_off c \<and> c_file c' = c_file c \<and> c_file_off c' = c_file_off c \<and>
     c_file_left c' = c_file_left c \<and> c_chunked c' = c_chunked c \<and>
     c_stream_sized c' = c_stream_sized c \<and> can_read c' = can_read c \<and> can_write c' = can_write c \<and>
     peer_closed c' = peer_closed c \<and> continue_sent c' = continue_sent c \<and>
     last_active_us c' = last_active_us c \<and> request_start_us c' = request_start_us c"

lemma same_io_refl: "same_io c c"
  by (simp add: same_io_def)

lemma same_io_trans: "same_io c c' \<Longrightarrow> same_io c' c'' \<Longrightarrow> same_io c c''"
  by (simp add: same_io_def)

lemma refill_turn_ok:
  assumes "refill_turn c = Some (c', more_data)" "\<not> (c_chunked c \<and> c_stream_sized c)"
  obtains pr again piece tr pr' where "c_producer c = Some pr"
    "pull pr [] (c_trailers c) = Inr (again, piece, tr, pr')"
    "c' = c\<lparr>c_trailers := tr, c_producer := Some pr', c_out := c_out c @ encode_piece (c_chunked c) piece,
       c_stream_left := (if c_stream_sized c then c_stream_left c - length piece else c_stream_left c)\<rparr>"
    "c_stream_sized c \<longrightarrow> length piece \<le> c_stream_left c" "again \<longrightarrow> piece \<noteq> []"
    "more_data \<longleftrightarrow> again \<and> (c_stream_sized c \<longrightarrow> length piece < c_stream_left c)"
proof -
  obtain pr again piece tr pr' where p: "c_producer c = Some pr"
      "pull pr [] (c_trailers c) = Inr (again, piece, tr, pr')"
      "accept_piece (c\<lparr>c_trailers := tr, c_producer := Some pr'\<rparr>) again piece = Some (c', more_data)"
    using assms(1) by (auto simp: refill_turn_def split: option.splits sum.splits)
  show ?thesis
    by (rule that [OF p(1,2)])
      (use p(3) assms(2) in \<open>auto simp: accept_piece_def Let_def encode_piece_def append_chunk_def
         append_number_def split: if_splits\<close>)
qed

lemma refill_turn_stream:
  assumes "refill_turn c = Some (c', more_data)" "\<not> (c_chunked c \<and> c_stream_sized c)"
    and "body_stream (c_chunked c) (c_stream_sized c) (the (c_producer c)) (c_trailers c) (c_stream_left c) s"
  shows "\<exists>s1 s2. s = s1 @ s2 \<and> c_out c' = c_out c @ s1 \<and>
    (if more_data
     then body_stream (c_chunked c') (c_stream_sized c') (the (c_producer c')) (c_trailers c') (c_stream_left c') s2
     else s2 = encode_end (c_chunked c') (c_trailers c'))"
  using refill_turn_ok [OF assms(1,2)]
proof cases
  case (1 pr again piece tr pr')
  from assms(3) 1(1) have "body_stream (c_chunked c) (c_stream_sized c) pr (c_trailers c) (c_stream_left c) s"
    by simp
  then show ?thesis
    by (cases rule: body_stream.cases) (use 1 in \<open>auto split: if_splits\<close>)
qed

lemma refill_turn_same:
  assumes "refill_turn c = Some (c', more_data)" "\<not> (c_chunked c \<and> c_stream_sized c)"
  shows "same_io c c'" "c_producer c' \<noteq> None" "close_after_write c' = close_after_write c"
  using refill_turn_ok [OF assms] by (cases; auto simp: same_io_def)+

lemma refill_loop_ok:
  assumes "refill_loop c more_data = Some (c', more')" "\<not> (c_chunked c \<and> c_stream_sized c)"
  shows "same_io c c' \<and> close_after_write c' = close_after_write c \<and>
    (more' \<longrightarrow> kProducerLowWater \<le> length (c_out c')) \<and> (\<exists>x. c_out c' = c_out c @ x) \<and>
    (c_producer c \<noteq> None \<longrightarrow> c_producer c' \<noteq> None)"
  using assms
proof (induction c more_data rule: refill_loop.induct)
  case (1 c more_data)
  show ?case
  proof (cases "more_data \<and> length (c_out c) < kProducerLowWater")
    case True
    with "1.prems" obtain c1 m1 where t: "refill_turn c = Some (c1, m1)" "refill_loop c1 m1 = Some (c', more')"
      by (subst (asm) refill_loop.simps) (auto split: option.splits)
    note same = refill_turn_same [OF t(1) "1.prems"(2)]
    have "\<exists>x. c_out c1 = c_out c @ x" using refill_turn_ok [OF t(1) "1.prems"(2)] by cases auto
    moreover have "\<not> (c_chunked c1 \<and> c_stream_sized c1)" using same(1) "1.prems"(2) by (simp add: same_io_def)
    ultimately show ?thesis
      using "1.IH" [OF True t(1) refl t(2)] same same_io_trans [OF same(1), of c'] by auto
  next
    case False
    with "1.prems"(1) show ?thesis by (subst (asm) refill_loop.simps) (auto simp: same_io_refl not_less)
  qed
qed

lemma refill_loop_stream:
  assumes "refill_loop c more_data = Some (c', more')" "\<not> (c_chunked c \<and> c_stream_sized c)"
    and "if more_data
      then body_stream (c_chunked c) (c_stream_sized c) (the (c_producer c)) (c_trailers c) (c_stream_left c) s
      else s = encode_end (c_chunked c) (c_trailers c)"
  shows "\<exists>s1 s2. s = s1 @ s2 \<and> c_out c' = c_out c @ s1 \<and>
    (if more'
     then body_stream (c_chunked c') (c_stream_sized c') (the (c_producer c')) (c_trailers c') (c_stream_left c') s2
     else s2 = encode_end (c_chunked c') (c_trailers c'))"
  using assms
proof (induction c more_data arbitrary: s rule: refill_loop.induct)
  case (1 c more_data)
  show ?case
  proof (cases "more_data \<and> length (c_out c) < kProducerLowWater")
    case True
    with "1.prems" obtain c1 m1 where t: "refill_turn c = Some (c1, m1)" "refill_loop c1 m1 = Some (c', more')"
      by (subst (asm) refill_loop.simps) (auto split: option.splits)
    have "\<not> (c_chunked c1 \<and> c_stream_sized c1)"
      using refill_turn_same [OF t(1) "1.prems"(2)] "1.prems"(2) by (simp add: same_io_def)
    moreover obtain s1 s2 where s: "s = s1 @ s2" "c_out c1 = c_out c @ s1"
        "if m1 then body_stream (c_chunked c1) (c_stream_sized c1) (the (c_producer c1)) (c_trailers c1)
           (c_stream_left c1) s2 else s2 = encode_end (c_chunked c1) (c_trailers c1)"
      using refill_turn_stream [OF t(1) "1.prems"(2), of s] "1.prems"(3) True by auto
    ultimately obtain u1 u2 where u: "s2 = u1 @ u2" "c_out c' = c_out c1 @ u1"
        "if more' then body_stream (c_chunked c') (c_stream_sized c') (the (c_producer c')) (c_trailers c')
           (c_stream_left c') u2 else u2 = encode_end (c_chunked c') (c_trailers c')"
      using "1.IH" [OF True t(1) refl t(2), of s2] by auto
    show ?thesis by (rule exI [of _ "s1 @ u1"], rule exI [of _ u2]) (use s(1,2) u in simp)
  next
    case False
    with "1.prems"(1,3) show ?thesis by (subst (asm) refill_loop.simps) auto
  qed
qed

lemma finish_stream_simps [simp]:
  "same_io c (finish_stream c)" "c_producer (finish_stream c) = None"
  "c_out (finish_stream c) = c_out c @ encode_end (c_chunked c) (c_trailers c)"
  "close_after_write (finish_stream c) \<longleftrightarrow>
     close_after_write c \<or> c_stream_sized c \<and> c_stream_left c \<noteq> 0"
  by (auto simp: finish_stream_def Let_def same_io_def append_last_chunk_encode) (auto simp: encode_end_def)

lemma refill_same:
  assumes "refill_from_producer c = Some c'" "\<not> (c_chunked c \<and> c_stream_sized c)"
  shows "same_io c c'" "c_producer c' = None \<or> kProducerLowWater \<le> length (c_out c')"
    "\<exists>x. c_out c' = c_out c @ x" "close_after_write c \<Longrightarrow> close_after_write c'"
proof -
  obtain c1 m where l: "refill_loop c True = Some (c1, m)" "c' = (if \<not> m then finish_stream c1 else c1)"
    using assms(1) by (auto simp: refill_from_producer_def split: option.splits)
  note ok = refill_loop_ok [OF l(1) assms(2)]
  show "same_io c c'" using l(2) ok same_io_trans [of c c1] by (cases m) simp_all
  show "c_producer c' = None \<or> kProducerLowWater \<le> length (c_out c')"
    "\<exists>x. c_out c' = c_out c @ x" "close_after_write c \<Longrightarrow> close_after_write c'"
    using l(2) ok by (cases m; auto)+
qed

lemma refill_stream:
  assumes "refill_from_producer c = Some c'" "source_inv c" "c_producer c \<noteq> None" "sends_body k c s"
  shows "\<exists>s1 s2. s = s1 @ s2 \<and> c_out c' = c_out c @ s1 \<and> sends_body k c' s2"
proof -
  have src: "\<not> fd_valid (c_file c)" "\<not> (c_chunked c \<and> c_stream_sized c)"
    using assms(2,3) by (auto simp: source_inv_def)
  obtain c1 m where l: "refill_loop c True = Some (c1, m)" "c' = (if \<not> m then finish_stream c1 else c1)"
    using assms(1) by (auto simp: refill_from_producer_def split: option.splits)
  note ok = refill_loop_ok [OF l(1) src(2)]
  have "body_stream (c_chunked c) (c_stream_sized c) (the (c_producer c)) (c_trailers c) (c_stream_left c) s"
    using assms(3,4) src(1) by (auto simp: sends_body_def)
  with refill_loop_stream [OF l(1) src(2), of s] obtain s1 s2 where s: "s = s1 @ s2" "c_out c1 = c_out c @ s1"
      "if m then body_stream (c_chunked c1) (c_stream_sized c1) (the (c_producer c1)) (c_trailers c1)
         (c_stream_left c1) s2 else s2 = encode_end (c_chunked c1) (c_trailers c1)"
    by auto
  have f: "\<not> fd_valid (c_file c1)" "c_producer c1 \<noteq> None" using src(1) ok assms(3) by (auto simp: same_io_def)
  show ?thesis
  proof (cases m)
    case True
    with s l(2) f show ?thesis by (auto simp: sends_body_def)
  next
    case False
    have "c_file (finish_stream c1) = c_file c1" using finish_stream_simps(1) [of c1] by (simp add: same_io_def)
    then have "sends_body k (finish_stream c1) []" using f(1) by (simp add: sends_body_def)
    with False s l(2) show ?thesis by (intro exI [of _ "s1 @ s2"] exI [of _ "[]"]) simp
  qed
qed

lemma refill_source_inv:
  assumes "refill_from_producer c = Some c'" "source_inv c" "c_producer c \<noteq> None"
  shows "source_inv c'"
proof -
  have "\<not> fd_valid (c_file c)" "\<not> (c_chunked c \<and> c_stream_sized c)"
    using assms(2,3) by (auto simp: source_inv_def)
  with refill_same [OF assms(1)] show ?thesis by (auto simp: source_inv_def same_io_def)
qed

section \<open>The write loop returns\<close>

lemma sys_send_cases:
  obtains (empty) "sends k fd = []" "sys_send fd data k = (SendAgain, k)"
  | (sent) n rs where "sends k fd = Sent n # rs" "sys_send fd data k = (Sent (min n (length data)),
      k\<lparr>sends := (sends k)(fd := rs), wire := (wire k)(fd := wire k fd @ take n data)\<rparr>)"
  | (other) r rs where "sends k fd = r # rs" "\<And>n. r \<noteq> Sent n"
      "sys_send fd data k = (r, k\<lparr>sends := (sends k)(fd := rs)\<rparr>)"
  by (cases "sends k fd"; cases "hd (sends k fd)") (auto simp: sys_send_def)

lemma advance_out_simps [simp]:
  "c_fd (advance_out w c n) = c_fd c" "c_producer (advance_out w c n) = c_producer c"
  "c_file (advance_out w c n) = c_file c" "c_file_off (advance_out w c n) = c_file_off c"
  "c_file_left (advance_out w c n) = c_file_left c" "c_chunked (advance_out w c n) = c_chunked c"
  "c_stream_sized (advance_out w c n) = c_stream_sized c" "c_stream_left (advance_out w c n) = c_stream_left c"
  "c_trailers (advance_out w c n) = c_trailers c" "c_in (advance_out w c n) = c_in c"
  "c_parser (advance_out w c n) = c_parser c" "can_read (advance_out w c n) = can_read c"
  "can_write (advance_out w c n) = can_write c" "peer_closed (advance_out w c n) = peer_closed c"
  "close_after_write (advance_out w c n) = close_after_write c"
  "continue_sent (advance_out w c n) = continue_sent c"
  "request_start_us (advance_out w c n) = request_start_us c"
  by (simp_all add: advance_out_def Let_def)

lemma advance_out_pending:
  assumes "out_inv c" "n \<le> length (pending c)"
  shows "out_inv (advance_out w c n)" "pending (advance_out w c n) = drop n (pending c)"
  using assms by (auto simp: advance_out_def Let_def out_inv_def pending_def add.commute)

text \<open>The turns, with what they need of the kernel.\<close>

definition accepted :: "Worker \<Rightarrow> int \<Rightarrow> string \<Rightarrow> SendResult list \<Rightarrow> Worker" where
  "accepted w fd data rs =
     w\<lparr>kernel := (kernel w)\<lparr>sends := (sends (kernel w))(fd := rs),
         wire := (wire (kernel w))(fd := wire (kernel w) fd @ data)\<rparr>\<rparr>"

lemma send_turn_cases:
  assumes "out_inv c"
  obtains (again) w' rs r where "sends (kernel w) (c_fd c) = r # rs" "w' = accepted w (c_fd c) [] rs"
      "send_turn w c p = Again (w', c, p)"
  | (blocked) w' rs where "length rs \<le> length (sends (kernel w) (c_fd c))" "w' = accepted w (c_fd c) [] rs"
      "send_turn w c p = Stop (w', c\<lparr>can_write := False\<rparr>, p, True)"
  | (failed) w' rs where "length rs \<le> length (sends (kernel w) (c_fd c))" "w' = accepted w (c_fd c) [] rs" "send_turn w c p = Stop (w', c, p, False)"
  | (part) w' n m rs where "sends (kernel w) (c_fd c) = Sent m # rs" "n < length (pending c)"
      "w' = note_sent (accepted w (c_fd c) (take n (pending c)) rs) n"
      "send_turn w c p = Stop (w', (advance_out w c n)\<lparr>can_write := False\<rparr>, True, True)"
  | (all) w' n m rs where "sends (kernel w) (c_fd c) = Sent m # rs" "n = length (pending c)"
      "w' = note_sent (accepted w (c_fd c) (pending c) rs) n"
      "send_turn w c p = Again (w', advance_out w c n, True)"
proof -
  have adv: "advance_out (w\<lparr>kernel := k\<rparr>) c n = advance_out w c n" for k n by (simp add: advance_out_def)
  have pend: "drop (c_out_off c) (c_out c) = pending c" by (simp add: pending_def)
  note send = send_turn_def out_pending_inv [OF assms] pend adv accepted_def Let_def
  show ?thesis
  proof (cases rule: sys_send_cases [of "kernel w" "c_fd c" "pending c"])
    case empty
    show ?thesis by (rule blocked [of "[]"]) (use empty in \<open>simp_all add: send fun_upd_idem\<close>)
  next
    case (sent n rs)
    show ?thesis
    proof (cases "n < length (pending c)")
      case True
      show ?thesis by (rule part [OF sent(1) True refl]) (use sent True in \<open>simp add: send\<close>)
    next
      case False
      show ?thesis by (rule all [OF sent(1) refl refl]) (use sent False in \<open>simp add: send\<close>)
    qed
  next
    case (other r rs)
    then show ?thesis
    proof (cases r)
      case SendIntr
      show ?thesis by (rule again [OF other(1) refl]) (use other SendIntr in \<open>simp add: send fun_upd_idem\<close>)
    next
      case SendAgain
      show ?thesis by (rule blocked [OF _ refl, of rs]) (use other SendAgain in \<open>simp_all add: send fun_upd_idem\<close>)
    next
      case SendFail
      show ?thesis by (rule failed [OF _ refl, of rs]) (use other SendFail in \<open>simp_all add: send fun_upd_idem\<close>)
    qed blast
  qed
qed

text \<open>The slice of the file that the next call of \<^verbatim>\<open>sendfile\<close> is asked for.\<close>

definition file_slice :: "Kernel \<Rightarrow> Connection \<Rightarrow> string" where
  "file_slice k c =
     take (min (c_file_left c) kSendfileMax) (drop (nat (c_file_off c)) (file_bytes k (c_file c)))"

definition after_file :: "Worker \<Rightarrow> Connection \<Rightarrow> size_t \<Rightarrow> Connection" where
  "after_file w c n =
     (let c = advance_file w c n in if c_file_left c = 0 then c\<lparr>c_file := -1\<rparr> else c)"

lemma length_file_slice: "length (file_slice k c) \<le> c_file_left c"
  by (simp add: file_slice_def)

lemma sendfile_turn_cases:
  obtains (again) w' rs r where "sends (kernel w) (c_fd c) = r # rs" "w' = accepted w (c_fd c) [] rs"
      "sendfile_turn w c p = Again (w', c, p)"
  | (blocked) w' rs where "length rs \<le> length (sends (kernel w) (c_fd c))" "w' = accepted w (c_fd c) [] rs"
      "sendfile_turn w c p = Stop (w', c\<lparr>can_write := False\<rparr>, p, True)"
  | (failed) w' rs where "length rs \<le> length (sends (kernel w) (c_fd c))" "w' = accepted w (c_fd c) [] rs" "sendfile_turn w c p = Stop (w', c, p, False)"
  | (sent) w' n m rs c' where "sends (kernel w) (c_fd c) = Sent m # rs" "0 < n" "n \<le> length (file_slice (kernel w) c)"
      "0 \<le> c_file_off c" "w' = note_sendfile (accepted w (c_fd c) (take n (file_slice (kernel w) c)) rs) n"
      "c' = after_file w c n"
      "sendfile_turn w c p = Again (w', c', True) \<or>
       sendfile_turn w c p = Stop (w', c'\<lparr>can_write := False\<rparr>, True, True)"
proof (cases "c_file_off c < 0")
  case True
  show ?thesis
    by (rule failed [OF _ refl, of "sends (kernel w) (c_fd c)"])
      (use True in \<open>simp_all add: sendfile_turn_def sys_sendfile_def accepted_def fun_upd_idem\<close>)
next
  case False
  have "sendfile_turn w c p = (let (r, k) = sys_send (c_fd c) (file_slice (kernel w) c) (kernel w) in
      case r of
        SendIntr \<Rightarrow> Again (w\<lparr>kernel := k\<rparr>, c, p)
      | SendAgain \<Rightarrow> Stop (w\<lparr>kernel := k\<rparr>, c\<lparr>can_write := False\<rparr>, p, True)
      | SendFail \<Rightarrow> Stop (w\<lparr>kernel := k\<rparr>, c, p, False)
      | Sent n \<Rightarrow>
          if n = 0 then Stop (w\<lparr>kernel := k\<rparr>, c, p, False)
          else if c_file_left (advance_file w c n) \<noteq> 0 \<and> n < min (c_file_left c) kSendfileMax
          then Stop (note_sendfile (w\<lparr>kernel := k\<rparr>) n, (after_file w c n)\<lparr>can_write := False\<rparr>, True, True)
          else Again (note_sendfile (w\<lparr>kernel := k\<rparr>) n, after_file w c n, True))"
    using False
    by (auto simp: sendfile_turn_def sys_sendfile_def file_slice_def Let_def after_file_def advance_file_def
        note_sendfile_def note_sent_def split: prod.splits SendResult.splits)
  note send = this accepted_def Let_def
  show ?thesis
  proof (cases rule: sys_send_cases [of "kernel w" "c_fd c" "file_slice (kernel w) c"])
    case empty
    show ?thesis by (rule blocked [of "[]"]) (use empty in \<open>simp_all add: send fun_upd_idem\<close>)
  next
    case sent': (sent n rs)
    let ?n = "min n (length (file_slice (kernel w) c))"
    show ?thesis
    proof (cases "?n = 0")
      case True
      then have "n = 0 \<or> file_slice (kernel w) c = []" by (auto simp: min_def split: if_splits)
      with sent' have "sys_send (c_fd c) (file_slice (kernel w) c) (kernel w) =
          (Sent 0, (kernel w)\<lparr>sends := (sends (kernel w))(c_fd c := rs)\<rparr>)" by (auto simp: fun_upd_idem)
      then show ?thesis by (intro failed [OF _ refl, of rs]) (simp_all add: send sent'(1) fun_upd_idem)
    next
      case n: False
      have "take n (file_slice (kernel w) c) = take ?n (file_slice (kernel w) c)" by (simp add: min_def)
      then show ?thesis
        using sent' n False by (intro sent [OF sent'(1) _ _ _ refl refl, of ?n]) (auto simp: send)
    qed
  next
    case (other r rs)
    then show ?thesis
    proof (cases r)
      case SendIntr
      show ?thesis by (rule again [OF other(1) refl]) (use other SendIntr in \<open>simp add: send fun_upd_idem\<close>)
    next
      case SendAgain
      show ?thesis by (rule blocked [OF _ refl, of rs]) (use other SendAgain in \<open>simp_all add: send fun_upd_idem\<close>)
    next
      case SendFail
      show ?thesis by (rule failed [OF _ refl, of rs]) (use other SendFail in \<open>simp_all add: send fun_upd_idem\<close>)
    qed blast
  qed
qed

section \<open>What writing leaves alone\<close>

text \<open>Writing appends \<open>data\<close> to the wire, uses up answers of the kernel, counts the bytes, and touches
  nothing of the worker and of the receiving side of the connection.\<close>

definition wrote :: "Worker \<Rightarrow> Connection \<Rightarrow> Worker \<Rightarrow> Connection \<Rightarrow> bool" where
  "wrote w c w' c' \<longleftrightarrow>
     (\<exists>rs data b. length rs \<le> length (sends (kernel w) (c_fd c)) \<and>
        w' = (accepted w (c_fd c) data rs)\<lparr>metrics := (metrics w)\<lparr>
          bytes_sent := bytes_sent (metrics w) + word_of_nat (length data), bytes_sendfile := b\<rparr>\<rparr>) \<and>
     c_fd c' = c_fd c \<and> c_in c' = c_in c \<and> c_parser c' = c_parser c \<and> can_read c' = can_read c \<and>
     peer_closed c' = peer_closed c \<and> continue_sent c' = continue_sent c \<and>
     request_start_us c' = request_start_us c \<and>
     (close_after_write c \<longrightarrow> close_after_write c') \<and> (can_write c' \<longrightarrow> can_write c)"

lemma wrote_refl: "wrote w c w c"
  unfolding wrote_def
  by (intro conjI exI [of _ "sends (kernel w) (c_fd c)"] exI [of _ "[]"] exI [of _ "bytes_sendfile (metrics w)"])
    (simp_all add: accepted_def fun_upd_idem)

lemma wrote_trans:
  assumes "wrote w c w1 c1" "wrote w1 c1 w2 c2"
  shows "wrote w c w2 c2"
proof -
  obtain rs data b where 1: "length rs \<le> length (sends (kernel w) (c_fd c))"
      "w1 = (accepted w (c_fd c) data rs)\<lparr>metrics := (metrics w)\<lparr>
         bytes_sent := bytes_sent (metrics w) + word_of_nat (length data), bytes_sendfile := b\<rparr>\<rparr>"
    using assms(1) unfolding wrote_def by blast
  obtain rs' data' b' where 2: "length rs' \<le> length (sends (kernel w1) (c_fd c1))"
      "w2 = (accepted w1 (c_fd c1) data' rs')\<lparr>metrics := (metrics w1)\<lparr>
         bytes_sent := bytes_sent (metrics w1) + word_of_nat (length data'), bytes_sendfile := b'\<rparr>\<rparr>"
    using assms(2) unfolding wrote_def by blast
  have fd: "c_fd c1 = c_fd c" using assms(1) by (simp add: wrote_def)
  have "w2 = (accepted w (c_fd c) (data @ data') rs')\<lparr>metrics := (metrics w)\<lparr>
         bytes_sent := bytes_sent (metrics w) + word_of_nat (length (data @ data')), bytes_sendfile := b'\<rparr>\<rparr>"
    unfolding 2(2) 1(2) by (simp add: accepted_def fd add.assoc)
  moreover have "length rs' \<le> length (sends (kernel w) (c_fd c))"
    using 1 2(1) by (simp add: fd accepted_def)
  ultimately have "\<exists>rs data b. length rs \<le> length (sends (kernel w) (c_fd c)) \<and>
        w2 = (accepted w (c_fd c) data rs)\<lparr>metrics := (metrics w)\<lparr>
          bytes_sent := bytes_sent (metrics w) + word_of_nat (length data), bytes_sendfile := b\<rparr>\<rparr>"
    by blast
  with assms show ?thesis unfolding wrote_def by simp
qed

lemma wrote_accepted:
  assumes "length rs \<le> length (sends (kernel w) (c_fd c))"
    and "c_fd c' = c_fd c" "c_in c' = c_in c" "c_parser c' = c_parser c" "can_read c' = can_read c"
      "peer_closed c' = peer_closed c" "continue_sent c' = continue_sent c"
      "request_start_us c' = request_start_us c" "close_after_write c' = close_after_write c"
      "can_write c' \<longrightarrow> can_write c"
  shows "wrote w c (accepted w (c_fd c) [] rs) c'"
    and "n = length data \<Longrightarrow> wrote w c (note_sent (accepted w (c_fd c) data rs) n) c'"
    and "n = length data \<Longrightarrow> wrote w c (note_sendfile (accepted w (c_fd c) data rs) n) c'"
proof -
  let ?m = "\<lambda>data b. (accepted w (c_fd c) data rs)\<lparr>metrics := (metrics w)\<lparr>
      bytes_sent := bytes_sent (metrics w) + word_of_nat (length data), bytes_sendfile := b\<rparr>\<rparr>"
  have "accepted w (c_fd c) [] rs = ?m [] (bytes_sendfile (metrics w))"
    "n = length data \<Longrightarrow> note_sent (accepted w (c_fd c) data rs) n = ?m data (bytes_sendfile (metrics w))"
    "n = length data \<Longrightarrow> note_sendfile (accepted w (c_fd c) data rs) n =
       ?m data (bytes_sendfile (metrics w) + word_of_nat n)"
    by (simp_all add: accepted_def note_sent_def note_sendfile_def bump_def)
  with assms show "wrote w c (accepted w (c_fd c) [] rs) c'"
    "n = length data \<Longrightarrow> wrote w c (note_sent (accepted w (c_fd c) data rs) n) c'"
    "n = length data \<Longrightarrow> wrote w c (note_sendfile (accepted w (c_fd c) data rs) n) c'"
    unfolding wrote_def by blast+
qed

section \<open>The turns of the write loop\<close>

text \<open>What writing uses up: answers of the kernel, the writability of the socket, the producer.\<close>

definition write_fuel :: "Worker \<Rightarrow> Connection \<Rightarrow> nat" where
  "write_fuel w c =
     length (sends (kernel w) (c_fd c)) + of_bool (can_write c) + of_bool (c_producer c \<noteq> None)"

definition write_bound :: "WriteState \<Rightarrow> nat" where
  "write_bound = (\<lambda>(w, c, p). 2 * write_fuel w c + of_bool (out_pending c = 0))"

definition write_inv :: "WriteState \<Rightarrow> bool" where
  "write_inv = (\<lambda>(w, c, p). out_inv c \<and> source_inv c)"

text \<open>A turn without progress only ever notes that the socket is full.\<close>

definition quiet :: "Connection \<Rightarrow> Connection \<Rightarrow> bool" where
  "quiet c c' \<longleftrightarrow> (\<exists>b. c' = c\<lparr>can_write := b\<rparr>)"

lemma quiet_intros [simp]: "quiet c c" "quiet c (c\<lparr>can_write := b\<rparr>)"
  by (auto simp: quiet_def intro: exI [of _ "can_write c"])

lemma quiet_trans: "quiet c c1 \<Longrightarrow> quiet c1 c2 \<Longrightarrow> quiet c c2"
  by (auto simp: quiet_def)

lemma accepted_simps [simp]:
  "sends (kernel (accepted w fd data rs)) fd = rs"
  "wire (kernel (accepted w fd data rs)) fd = wire (kernel w) fd @ data"
  "file_bytes (kernel (accepted w fd data rs)) = file_bytes (kernel w)"
  by (simp_all add: accepted_def)

lemma kernel_note_sent [simp]:
  "kernel (note_sent w n) = kernel w" "kernel (note_sendfile w n) = kernel w"
  by (simp_all add: note_sent_def note_sendfile_def)

lemma after_file_simps [simp]:
  "c_fd (after_file w c n) = c_fd c" "c_producer (after_file w c n) = c_producer c"
  "c_chunked (after_file w c n) = c_chunked c" "c_stream_sized (after_file w c n) = c_stream_sized c"
  "c_in (after_file w c n) = c_in c" "c_parser (after_file w c n) = c_parser c"
  "can_read (after_file w c n) = can_read c" "can_write (after_file w c n) = can_write c"
  "peer_closed (after_file w c n) = peer_closed c" "close_after_write (after_file w c n) = close_after_write c"
  "continue_sent (after_file w c n) = continue_sent c" "request_start_us (after_file w c n) = request_start_us c"
  "c_out (after_file w c n) = c_out c" "c_out_off (after_file w c n) = c_out_off c"
  by (simp_all add: after_file_def advance_file_def Let_def)

lemma after_file_source:
  assumes "source_inv c" "fd_valid (c_file c)" "0 < n" "n \<le> c_file_left c"
  shows "source_inv (after_file w c n)"
  using assms by (auto simp: source_inv_def after_file_def advance_file_def Let_def fd_valid_def)

lemma source_inv_cong:
  "c_file c' = c_file c \<Longrightarrow> c_file_left c' = c_file_left c \<Longrightarrow> c_producer c' = c_producer c \<Longrightarrow>
     c_chunked c' = c_chunked c \<Longrightarrow> c_stream_sized c' = c_stream_sized c \<Longrightarrow> source_inv c' = source_inv c"
  by (simp add: source_inv_def)

lemma out_cong: "c_out c' = c_out c \<Longrightarrow> c_out_off c' = c_out_off c \<Longrightarrow>
    out_inv c' = out_inv c \<and> out_pending c' = out_pending c \<and> pending c' = pending c"
  by (simp add: out_inv_def out_pending_def pending_def)

definition turn_keeps :: "Worker \<Rightarrow> Connection \<Rightarrow> Worker \<Rightarrow> Connection \<Rightarrow> bool" where
  "turn_keeps w c w' c' \<longleftrightarrow> out_inv c' \<and> source_inv c' \<and> wrote w c w' c'"

lemma send_turn_keeps:
  assumes inv: "out_inv c" "source_inv c" "can_write c"
  shows "case send_turn w c p of
      Again (w', c', p') \<Rightarrow> turn_keeps w c w' c' \<and> write_fuel w' c' < write_fuel w c \<and>
        (p' \<or> p' = p \<and> quiet c c')
    | Stop (w', c', p', ok) \<Rightarrow> turn_keeps w c w' c' \<and>
        (ok \<longrightarrow> \<not> can_write c' \<and> write_fuel w' c' < write_fuel w c) \<and>
        (p' \<or> p' = p \<and> quiet c c')"
proof -
  have src: "source_inv (advance_out w c n)" "source_inv ((advance_out w c n)\<lparr>can_write := False\<rparr>)"
      "source_inv (c\<lparr>can_write := False\<rparr>)" for n
    using inv(2) by (simp_all add: source_inv_def)
  note adv = advance_out_pending [OF inv(1)]
  have out: "out_inv (c\<lparr>can_write := False\<rparr>)" using inv(1) by (simp add: out_inv_def)
  from inv(1) show ?thesis
  proof (cases rule: send_turn_cases [of c w p])
    case again
    then show ?thesis using inv by (simp add: turn_keeps_def wrote_accepted write_fuel_def)
  next
    case blocked
    then show ?thesis using inv src out by (simp add: turn_keeps_def wrote_accepted write_fuel_def)
  next
    case failed
    then show ?thesis using inv by (simp add: turn_keeps_def wrote_accepted)
  next
    case (part w' n m rs)
    then have "out_inv ((advance_out w c n)\<lparr>can_write := False\<rparr>)" using adv(1) [of n w] by (simp add: out_inv_def)
    with part show ?thesis using inv src by (simp add: turn_keeps_def wrote_accepted write_fuel_def)
  next
    case all
    then show ?thesis using inv src adv by (simp add: turn_keeps_def wrote_accepted write_fuel_def)
  qed
qed

lemma sendfile_turn_keeps:
  assumes inv: "out_inv c" "source_inv c" "can_write c" "fd_valid (c_file c)"
  shows "case sendfile_turn w c p of
      Again (w', c', p') \<Rightarrow> turn_keeps w c w' c' \<and> write_fuel w' c' < write_fuel w c \<and>
        (p' \<or> p' = p \<and> quiet c c')
    | Stop (w', c', p', ok) \<Rightarrow> turn_keeps w c w' c' \<and>
        (ok \<longrightarrow> \<not> can_write c' \<and> write_fuel w' c' < write_fuel w c) \<and>
        (p' \<or> p' = p \<and> quiet c c')"
proof -
  have blockable: "source_inv (c'\<lparr>can_write := False\<rparr>) = source_inv c'"
      "out_inv (c'\<lparr>can_write := False\<rparr>) = out_inv c'" for c'
    by (simp_all add: source_inv_def out_inv_def)
  show ?thesis
  proof (cases rule: sendfile_turn_cases [of w c p])
    case again
    then show ?thesis using inv by (simp add: turn_keeps_def wrote_accepted write_fuel_def)
  next
    case blocked
    then show ?thesis using inv by (simp add: blockable turn_keeps_def wrote_accepted write_fuel_def)
  next
    case failed
    then show ?thesis using inv by (simp add: turn_keeps_def wrote_accepted)
  next
    case (sent w' n m rs c')
    then have "n \<le> c_file_left c" using length_file_slice [of "kernel w" c] by simp
    then have "source_inv (after_file w c n)" "out_inv (after_file w c n)"
      using after_file_source [OF inv(2,4) sent(2)] inv(1) by (simp_all add: out_inv_def)
    with sent(7) show ?thesis
      using inv sent(1-6)
      by (elim disjE) (simp_all add: blockable turn_keeps_def wrote_accepted write_fuel_def)
  qed
qed

lemma refill_keeps:
  assumes inv: "out_inv c" "source_inv c" "out_pending c = 0" "c_producer c \<noteq> None"
    and "refill_from_producer c = Some c'"
  shows "turn_keeps w c w c'" "write_fuel w c' < write_fuel w c \<or> write_fuel w c' \<le> write_fuel w c \<and> out_pending c' > 0"
proof -
  have ns: "\<not> (c_chunked c \<and> c_stream_sized c)" using inv(2) by (simp add: source_inv_def)
  note same = refill_same [OF assms(5) ns]
  have off: "c_out c = []" "c_out_off c = 0" using out_drained [OF inv(1,3)] by simp_all
  have "c_out_off c' = 0" using same(1) off by (simp add: same_io_def)
  then have "out_inv c'" by (simp add: out_inv_def)
  moreover have "wrote w c w c'"
    using wrote_refl [of w c] same(1,4) unfolding wrote_def same_io_def by simp
  ultimately show "turn_keeps w c w c'"
    using refill_source_inv [OF assms(5) inv(2,4)] by (simp add: turn_keeps_def)
  have "kProducerLowWater > 0" by (simp add: kProducerLowWater_def)
  then show "write_fuel w c' < write_fuel w c \<or> write_fuel w c' \<le> write_fuel w c \<and> out_pending c' > 0"
    using same(1,2) inv(4) \<open>c_out_off c' = 0\<close>
    by (auto simp: write_fuel_def same_io_def out_pending_def)
qed

lemma write_turn_Again:
  assumes "write_inv (w, c, p)" "write_turn (w, c, p) = Again (w', c', p')"
  shows "turn_keeps w c w' c'" "can_write c"
    "write_fuel w' c' < write_fuel w c \<or>
     write_fuel w' c' \<le> write_fuel w c \<and> can_write c' \<and> out_pending c' > 0 \<and> out_pending c = 0"
    "p' \<or> p' = p \<and> quiet c c'"
proof -
  have inv: "out_inv c" "source_inv c" using assms(1) by (simp_all add: write_inv_def)
  show w: "can_write c" using assms(2) by (simp add: write_turn_def split: if_splits)
  consider (out) "out_pending c > 0" "send_turn w c p = Again (w', c', p')"
    | (slice) "fd_valid (c_file c)" "sendfile_turn w c p = Again (w', c', p')"
    | (refill) "out_pending c = 0" "c_producer c \<noteq> None" "refill_from_producer c = Some c'" "w' = w" "p'"
    using assms(2) by (auto simp: write_turn_def split: if_splits option.splits)
  then have "turn_keeps w c w' c' \<and> (write_fuel w' c' < write_fuel w c \<or>
      write_fuel w' c' \<le> write_fuel w c \<and> can_write c' \<and> out_pending c' > 0 \<and> out_pending c = 0) \<and>
      (p' \<or> p' = p \<and> quiet c c')"
  proof cases
    case out
    with send_turn_keeps [OF inv w, of w p] show ?thesis by simp
  next
    case slice
    with sendfile_turn_keeps [OF inv w slice(1), of w p] show ?thesis by simp
  next
    case refill
    have "can_write c'"
      using refill_same(1) [OF refill(3)] w inv(2) by (auto simp: source_inv_def same_io_def)
    with refill_keeps [OF inv refill(1-3), of w] refill show ?thesis by auto
  qed
  then show "turn_keeps w c w' c'" "write_fuel w' c' < write_fuel w c \<or>
      write_fuel w' c' \<le> write_fuel w c \<and> can_write c' \<and> out_pending c' > 0 \<and> out_pending c = 0"
      "p' \<or> p' = p \<and> quiet c c'" by blast+
qed

lemma write_turn_Stop:
  assumes "write_inv (w, c, p)" "write_turn (w, c, p) = Stop (w', c', p', ok)"
  shows "turn_keeps w c w' c'" "ok \<Longrightarrow> \<not> can_write c' \<or> \<not> has_output c'"
    "ok \<Longrightarrow> write_fuel w' c' < write_fuel w c \<or>
       w' = w \<and> c' = c \<and> p' = p \<and> \<not> (can_write c \<and> out_pending c > 0)"
    "p' \<or> p' = p \<and> quiet c c'"
proof -
  have inv: "out_inv c" "source_inv c" using assms(1) by (simp_all add: write_inv_def)
  consider (out) "out_pending c > 0" "can_write c" "send_turn w c p = Stop (w', c', p', ok)"
    | (slice) "fd_valid (c_file c)" "can_write c" "sendfile_turn w c p = Stop (w', c', p', ok)"
    | (same) "w' = w" "c' = c" "p' = p" "ok \<longrightarrow> \<not> can_write c \<or> \<not> has_output c"
    using assms(2)
    by (auto simp: write_turn_def has_output_def body_source_active_def split: if_splits option.splits)
  then have "turn_keeps w c w' c' \<and> (ok \<longrightarrow> \<not> can_write c' \<or> \<not> has_output c') \<and>
      (ok \<longrightarrow> write_fuel w' c' < write_fuel w c \<or>
        w' = w \<and> c' = c \<and> p' = p \<and> \<not> (can_write c \<and> out_pending c > 0)) \<and>
      (p' \<or> p' = p \<and> quiet c c')"
  proof cases
    case out
    with send_turn_keeps [OF inv out(2), of w p] show ?thesis by simp
  next
    case slice
    with sendfile_turn_keeps [OF inv slice(2,1), of w p] show ?thesis by simp
  next
    case same
    with inv show ?thesis by (auto simp: turn_keeps_def wrote_refl has_output_def)
  qed
  then show "turn_keeps w c w' c'" "ok \<Longrightarrow> \<not> can_write c' \<or> \<not> has_output c'"
    "ok \<Longrightarrow> write_fuel w' c' < write_fuel w c \<or>
       w' = w \<and> c' = c \<and> p' = p \<and> \<not> (can_write c \<and> out_pending c > 0)"
    "p' \<or> p' = p \<and> quiet c c'" by blast+
qed

interpretation writing: bounded_loop "\<lambda>s. Some (write_turn s)" write_inv write_bound
proof
  fix s s' :: WriteState
  assume inv: "write_inv s" and "Some (write_turn s) = Some (Again s')"
  moreover obtain w c p w' c' p' where "s = (w, c, p)" "s' = (w', c', p')" by (metis prod_cases3)
  ultimately have "turn_keeps w c w' c'" "write_bound s' < write_bound s"
    using write_turn_Again [of w c p w' c' p'] by (auto simp: write_bound_def)
  then show "write_inv s'" "write_bound s' < write_bound s"
    using \<open>s' = (w', c', p')\<close> by (simp_all add: write_inv_def turn_keeps_def)
qed simp

lemma do_write_returns: "out_inv c \<Longrightarrow> source_inv c \<Longrightarrow> do_write w c p \<noteq> None"
  unfolding do_write_def by (rule writing.loop_returns) (simp add: write_inv_def)

lemma do_write_keeps:
  assumes "do_write w c p = Some (w', c', p', ok)" "out_inv c" "source_inv c"
  shows "turn_keeps w c w' c' \<and> (ok \<longrightarrow> \<not> can_write c' \<or> \<not> has_output c') \<and>
    (ok \<and> p' \<longrightarrow> p \<or> write_fuel w' c' < write_fuel w c) \<and> (ok \<longrightarrow> write_fuel w' c' \<le> write_fuel w c) \<and>
    (p' \<or> \<not> p \<and> quiet c c')"
proof -
  let ?I = "\<lambda>(w1, c1, p1). write_inv (w1, c1, p1) \<and> wrote w c w1 c1 \<and> write_fuel w1 c1 \<le> write_fuel w c \<and>
      (p1 \<longrightarrow> p \<or> write_fuel w1 c1 < write_fuel w c \<or> can_write c1 \<and> out_pending c1 > 0) \<and>
      (p1 \<or> \<not> p \<and> quiet c c1)"
  let ?R = "\<lambda>(w', c', p', ok). turn_keeps w c w' c' \<and> (ok \<longrightarrow> \<not> can_write c' \<or> \<not> has_output c') \<and>
    (ok \<and> p' \<longrightarrow> p \<or> write_fuel w' c' < write_fuel w c) \<and> (ok \<longrightarrow> write_fuel w' c' \<le> write_fuel w c) \<and>
    (p' \<or> \<not> p \<and> quiet c c')"
  have "?R (w', c', p', ok)"
  proof (rule iterate_rule [where I = ?I and R = ?R, OF assms(1) [unfolded do_write_def]])
    show "?I (w, c, p)" using assms(2,3) by (auto simp: write_inv_def wrote_refl)
  next
    fix s s' assume I: "?I s" and "Some (write_turn s) = Some (Again s')"
    moreover obtain w1 c1 p1 w2 c2 p2 where s: "s = (w1, c1, p1)" "s' = (w2, c2, p2)" by (metis prod_cases3)
    ultimately have inv: "write_inv (w1, c1, p1)" and t: "write_turn (w1, c1, p1) = Again (w2, c2, p2)" by auto
    note turn = write_turn_Again [OF inv t]
    have "wrote w c w2 c2" using turn(1) I wrote_trans [of w c w1 c1 w2 c2] unfolding s by (simp add: turn_keeps_def)
    moreover have "p2 \<or> \<not> p \<and> quiet c c2" using turn(4) I quiet_trans [of c c1 c2] unfolding s by auto
    ultimately show "?I s'" using I turn(1,3) unfolding s by (auto simp: write_inv_def turn_keeps_def)
  next
    fix s r assume I: "?I s" and "Some (write_turn s) = Some (Stop r)"
    moreover obtain w1 c1 p1 where s: "s = (w1, c1, p1)" by (metis prod_cases3)
    moreover obtain w2 c2 p2 ok2 where r: "r = (w2, c2, p2, ok2)" by (metis prod_cases4)
    ultimately have inv: "write_inv (w1, c1, p1)" and t: "write_turn (w1, c1, p1) = Stop (w2, c2, p2, ok2)" by auto
    note turn = write_turn_Stop [OF inv t]
    have "wrote w c w2 c2" using turn(1) I wrote_trans [of w c w1 c1 w2 c2] unfolding s by (simp add: turn_keeps_def)
    moreover have "p2 \<or> \<not> p \<and> quiet c c2" using turn(4) I quiet_trans [of c c1 c2] unfolding s by auto
    ultimately show "?R r" using I turn(1-3) unfolding s r by (auto simp: turn_keeps_def)
  qed
  then show ?thesis by simp
qed

section \<open>What reaches the wire\<close>

lemma sends_body_simps [simp]:
  "sends_body (kernel (accepted w fd data rs)) c s = sends_body (kernel w) c s"
  "sends_body k (c\<lparr>can_write := b\<rparr>) s = sends_body k c s"
  "sends_body k (advance_out w c n) s = sends_body k c s"
  by (simp_all add: sends_body_def split: option.split)

lemma sends_out_simps [simp]:
  "sends_out (kernel (accepted w fd data rs)) c s = sends_out (kernel w) c s"
  "sends_out k (c\<lparr>can_write := b\<rparr>) s = sends_out k c s"
  by (simp_all add: sends_out_def pending_def)

lemma sends_out_sent:
  assumes "out_inv c" "n \<le> length (pending c)" "sends_out (kernel w) c s" "k = kernel (accepted w fd data rs)"
  shows "\<exists>s'. sends_out k (advance_out w c n) s' \<and> s = take n (pending c) @ s'"
proof -
  obtain b where b: "s = pending c @ b" "sends_body (kernel w) c b" using assms(3) by (auto simp: sends_out_def)
  have "sends_body k (advance_out w c n) b" using b(2) assms(4) by simp
  then have "sends_out k (advance_out w c n) (drop n (pending c) @ b)"
    using advance_out_pending [OF assms(1,2)] by (auto simp: sends_out_def)
  then show ?thesis using b(1) by (auto simp flip: append_assoc)
qed

lemma sends_out_file:
  assumes "source_inv c" "fd_valid (c_file c)" "out_pending c = 0" "out_inv c" "sends_out (kernel w) c s"
    and "n \<le> length (file_slice (kernel w) c)" "k = kernel (accepted w fd data rs)"
  shows "\<exists>s'. sends_out k (after_file w c n) s' \<and> s = take n (file_slice (kernel w) c) @ s'"
proof -
  let ?f = "file_bytes (kernel w) (c_file c)" and ?o = "nat (c_file_off c)"
  have pend: "pending c = []" using out_drained [OF assms(4,3)] by (simp add: pending_def)
  then have s: "0 \<le> c_file_off c" "length s = c_file_left c" "s = take (c_file_left c) (drop ?o ?f)"
    using assms(2,5) by (auto simp: sends_out_def sends_body_def)
  have n: "n \<le> c_file_left c" "n \<le> kSendfileMax" using assms(6) by (simp_all add: file_slice_def)
  then have slice: "take n (file_slice (kernel w) c) = take n s" by (simp add: file_slice_def s(3) min_def)
  have off: "nat (c_file_off c + int n) = ?o + n" using s(1) by simp
  have rest: "drop n s = take (c_file_left c - n) (drop (?o + n) ?f)"
    by (subst s(3)) (simp add: drop_take add.commute)
  have len: "length (take (c_file_left c - n) (drop (?o + n) ?f)) = c_file_left c - n"
    unfolding rest [symmetric] using s(2) by simp
  have "sends_body k (after_file w c n) (drop n s)"
  proof (cases "c_file_left c = n")
    case True
    have "after_file w c n = (advance_file w c n)\<lparr>c_file := -1\<rparr>"
      using True n by (simp add: after_file_def advance_file_def)
    then show ?thesis
      using True assms(1,2) s(2) by (simp add: sends_body_def fd_valid_def source_inv_def advance_file_def)
  next
    case False
    then have "after_file w c n = advance_file w c n" using n by (simp add: after_file_def advance_file_def)
    then show ?thesis
      unfolding rest using assms(2,7) s(1) n len by (simp add: sends_body_def advance_file_def off accepted_def)
  qed
  then have "sends_out k (after_file w c n) (drop n s)" using pend by (simp add: sends_out_def pending_def)
  with slice show ?thesis by auto
qed

definition delivers :: "int \<Rightarrow> string \<Rightarrow> Worker \<Rightarrow> Connection \<Rightarrow> bool" where
  "delivers fd goal w c \<longleftrightarrow>
     c_fd c = fd \<and> (\<exists>s. sends_out (kernel w) c s \<and> wire (kernel w) fd @ s = goal)"

lemma send_turn_delivers:
  assumes "out_inv c" "delivers fd goal w c"
  shows "case send_turn w c p of Again (w', c', p') \<Rightarrow> delivers fd goal w' c'
    | Stop (w', c', p', ok) \<Rightarrow> delivers fd goal w' c'"
  using assms(1)
proof (cases rule: send_turn_cases [of c w p])
  case (part w' n m rs)
  obtain s where s: "sends_out (kernel w) c s" "wire (kernel w) fd @ s = goal" "c_fd c = fd"
    using assms(2) by (auto simp: delivers_def)
  from sends_out_sent [OF assms(1) _ s(1) refl, of n] part(2) s(2,3) show ?thesis
    unfolding part(3,4) by (fastforce simp: delivers_def)
next
  case (all w' n m rs)
  obtain s where s: "sends_out (kernel w) c s" "wire (kernel w) fd @ s = goal" "c_fd c = fd"
    using assms(2) by (auto simp: delivers_def)
  from sends_out_sent [OF assms(1) _ s(1) refl, of n] all(2) s(2,3) show ?thesis
    unfolding all(3,4) by (fastforce simp: delivers_def)
qed (use assms(2) in \<open>auto simp: delivers_def\<close>)

lemma sendfile_turn_delivers:
  assumes "out_inv c" "source_inv c" "fd_valid (c_file c)" "out_pending c = 0" "delivers fd goal w c"
  shows "case sendfile_turn w c p of Again (w', c', p') \<Rightarrow> delivers fd goal w' c'
    | Stop (w', c', p', ok) \<Rightarrow> delivers fd goal w' c'"
proof (cases rule: sendfile_turn_cases [of w c p])
  case (sent w' n m rs c')
  obtain s where s: "sends_out (kernel w) c s" "wire (kernel w) fd @ s = goal" "c_fd c = fd"
    using assms(5) by (auto simp: delivers_def)
  from sends_out_file [OF assms(2-4,1) s(1) sent(3) refl] s(2,3) have "delivers fd goal w' c'"
    unfolding sent(5,6) by (fastforce simp: delivers_def)
  then have "delivers fd goal w' (c'\<lparr>can_write := False\<rparr>)" by (simp add: delivers_def)
  with \<open>delivers fd goal w' c'\<close> sent(7) show ?thesis by auto
qed (use assms(5) in \<open>auto simp: delivers_def\<close>)

lemma refill_delivers:
  assumes "refill_from_producer c = Some c'" "out_inv c" "source_inv c" "c_producer c \<noteq> None"
    "out_pending c = 0" "delivers fd goal w c"
  shows "delivers fd goal w c'"
proof -
  have out: "c_out c = []" "c_out_off c = 0" using out_drained [OF assms(2,5)] by simp_all
  have "same_io c c'" using refill_same(1) [OF assms(1)] assms(3) by (simp add: source_inv_def)
  then have c': "c_out_off c' = 0" "c_fd c' = c_fd c" using out by (simp_all add: same_io_def)
  obtain s where s: "sends_body (kernel w) c s" "wire (kernel w) fd @ s = goal" "c_fd c = fd"
    using assms(6) out by (auto simp: delivers_def sends_out_def pending_def)
  from refill_stream [OF assms(1,3,4) s(1)] show ?thesis
    using s(2,3) c' out by (auto simp: delivers_def sends_out_def pending_def)
qed

lemma write_turn_delivers:
  assumes "write_inv (w, c, p)" "delivers fd goal w c"
  shows "case write_turn (w, c, p) of Again (w', c', p') \<Rightarrow> delivers fd goal w' c'
    | Stop (w', c', p', ok) \<Rightarrow> delivers fd goal w' c'"
proof -
  have inv: "out_inv c" "source_inv c" using assms(1) by (simp_all add: write_inv_def)
  show ?thesis
    using send_turn_delivers [OF inv(1) assms(2), of p] sendfile_turn_delivers [OF inv _ _ assms(2), of p]
      refill_delivers [OF _ inv _ _ assms(2)] assms(2)
    by (auto simp: write_turn_def split: option.split)
qed

lemma do_write_delivers:
  assumes "do_write w c p = Some (w', c', p', ok)" "out_inv c" "source_inv c" "delivers fd goal w c"
  shows "delivers fd goal w' c'"
proof -
  let ?I = "\<lambda>(w, c, p). write_inv (w, c, p) \<and> delivers fd goal w c"
  have "case (w', c', p', ok) of (w', c', p', ok) \<Rightarrow> delivers fd goal w' c'"
  proof (rule iterate_rule [where I = ?I and R = "\<lambda>(w', c', p', ok). delivers fd goal w' c'",
        OF assms(1) [unfolded do_write_def]])
    show "?I (w, c, p)" using assms by (simp add: write_inv_def)
  next
    fix s s' assume "?I s" "Some (write_turn s) = Some (Again s')"
    then show "?I s'"
      using write_turn_delivers [of "fst s" "fst (snd s)" "snd (snd s)" fd goal] writing.turn_keeps [of s s']
      by (auto simp: case_prod_beta)
  next
    fix s r assume "?I s" "Some (write_turn s) = Some (Stop r)"
    then show "case r of (w', c', p', ok) \<Rightarrow> delivers fd goal w' c'"
      using write_turn_delivers [of "fst s" "fst (snd s)" "snd (snd s)" fd goal] by (auto simp: case_prod_beta)
  qed
  then show ?thesis by simp
qed

section \<open>Properties\<close>

lemma delivers_done:
  assumes "delivers fd goal w c" "out_inv c" "\<not> has_output c"
  shows "wire (kernel w) fd = goal"
  using assms by (auto simp: delivers_def sends_out_def sends_body_def has_output_def body_source_active_def
      out_pending_inv pending_def)


definition sample_connection :: Connection where
  "sample_connection = (new_connection 7 default_limits 0 (\<lambda>_. SP))\<lparr>c_out := ''hello''\<rparr>"

definition sample_sender :: Worker where
  "sample_sender =
     demo_worker [] (idle_kernel\<lparr>sends := (\<lambda>_. [SendIntr, Sent 2, Sent 9])\<rparr>)"

lemmas sample_simps [run_simps] =
  sample_connection_def sample_sender_def new_connection_def demo_worker_def new_worker_def idle_kernel_def
  sys_mono_us_def default_config_def to_us_def

lemmas write_defs [run_simps] =
  do_write_def iterate_total write_turn_def send_turn_def sendfile_turn_def sys_send_def sys_sendfile_def
  out_pending_def advance_out_def advance_file_def note_sent_def note_sendfile_def


text \<open>The bytes of a body of declared length, counted against the declaration.\<close>

lemma refill_loop_sized:
  assumes "refill_loop c more_data = Some (c', more')" "c_stream_sized c" "\<not> c_chunked c"
  shows "length (c_out c') + c_stream_left c' = length (c_out c) + c_stream_left c"
  using assms
proof (induction c more_data rule: refill_loop.induct)
  case (1 c more_data)
  show ?case
  proof (cases "more_data \<and> length (c_out c) < kProducerLowWater")
    case True
    with "1.prems" obtain c1 m1 where t: "refill_turn c = Some (c1, m1)" "refill_loop c1 m1 = Some (c', more')"
      by (subst (asm) refill_loop.simps) (auto split: option.splits)
    have "length (c_out c1) + c_stream_left c1 = length (c_out c) + c_stream_left c"
      using refill_turn_ok [OF t(1)] "1.prems"(2,3) by (cases; auto simp: encode_piece_def)
    moreover have "c_stream_sized c1" "\<not> c_chunked c1"
      using refill_turn_same(1) [OF t(1)] "1.prems"(2,3) by (auto simp: same_io_def)
    ultimately show ?thesis using "1.IH" [OF True t(1) refl t(2)] by simp
  next
    case False
    with "1.prems"(1) show ?thesis by (subst (asm) refill_loop.simps) auto
  qed
qed

text \<open>C16: A streaming body with a declared length never exceeds it, whatever the producer does: every
  byte a refill queues is taken off what is left of the declaration, which never goes below zero,
  and when the producer stops short of the declaration the connection is marked to be closed, so
  that the peer cannot take the next response for the rest of the body. A refill of a connection
  that is not over queues at least the low-water mark, so a body is never stuck.\<close>

theorem declared_length_respected:
  assumes "c_stream_sized c" and "\<not> c_chunked c" and "refill_from_producer c = Some c'" and "c_producer c \<noteq> None"
  shows "length (c_out c') + c_stream_left c' = length (c_out c) + c_stream_left c \<and>
    (c_producer c' = None \<and> c_stream_left c' \<noteq> 0 \<longrightarrow> close_after_write c') \<and>
    (c_producer c' \<noteq> None \<longrightarrow> kProducerLowWater \<le> length (c_out c'))"
proof -
  have ns: "\<not> (c_chunked c \<and> c_stream_sized c)" using assms by simp
  obtain c1 m where l: "refill_loop c True = Some (c1, m)" "c' = (if \<not> m then finish_stream c1 else c1)"
    using assms(3) by (auto simp: refill_from_producer_def split: option.splits)
  have c1: "c_stream_sized c1" "\<not> c_chunked c1" "m \<Longrightarrow> kProducerLowWater \<le> length (c_out c1)"
    "c_producer c \<noteq> None \<Longrightarrow> c_producer c1 \<noteq> None"
    using refill_loop_ok [OF l(1) ns] assms(1,2) by (auto simp: same_io_def)
  have "c_stream_left (finish_stream c1) = c_stream_left c1"
    by (simp add: finish_stream_def Let_def)
  then show ?thesis
    using refill_loop_sized [OF l(1) assms(1,2)] l(2) c1 refill_same(2) [OF assms(3) ns] assms(4)
    by (cases m) (auto simp: encode_end_def)
qed

text \<open>A producer of one piece, for a body declared one byte longer.\<close>

definition short_connection :: Connection where
  "short_connection = (new_connection 7 default_limits 0 (\<lambda>_. SP))
     \<lparr>c_producer := Some (Producer (\<lambda>out tr. Inr (False, out @ ''ab'', tr, Producer (\<lambda>out tr. Inl [])))),
      c_stream_sized := True, c_stream_left := 3\<rparr>"

theorem declared_length_respected_witness:
  "\<exists>c'. refill_from_producer short_connection = Some c' \<and> c_out c' = ''ab'' \<and> c_stream_left c' = 1 \<and>
     close_after_write c'"
proof -
  have "\<exists>c'. refill_from_producer short_connection = Some c' \<and> c_out c' = ''ab'' \<and> c_producer c' = None"
    by (simp add: refill_from_producer_def refill_loop.simps refill_turn_def accept_piece_def finish_stream_def
        short_connection_def new_connection_def kProducerLowWater_def Let_def)
  then obtain c' where r: "refill_from_producer short_connection = Some c'" "c_out c' = ''ab''" "c_producer c' = None"
    by blast
  have "c_stream_sized short_connection" "\<not> c_chunked short_connection" "c_producer short_connection \<noteq> None"
      "c_out short_connection = []" "c_stream_left short_connection = 3"
    by (simp_all add: short_connection_def new_connection_def)
  with declared_length_respected [OF this(1,2) r(1) this(3)] r show ?thesis by auto
qed

end
