(* ===== verification/Connection_Input.thy ===== *)
theory Connection_Input
  imports Connection_Output
begin

text \<open>
  The receiving side of a connection: \<^verbatim>\<open>do_read\<close>, \<^verbatim>\<open>process\<close>, \<^verbatim>\<open>dispatch\<close>, \<^verbatim>\<open>queue_error\<close> and
  \<^verbatim>\<open>record_response\<close> of \<^verbatim>\<open>src/src/server/server.cpp\<close>, the invariant \<open>conn_inv\<close> of a connection,
  and that each of them keeps it and returns.
\<close>

section \<open>Reading\<close>

definition read_turn :: "WriteState \<Rightarrow> (WriteState, IoResult) Step option" where
  "read_turn = (\<lambda>(w, c, progress).
     if bb_size (c_in c) < max_in_buffer w then
       Option.bind (prepare (fresh_memory (kernel w)) (c_in c) kReadSize) (\<lambda>(b, dst).
         let c = c\<lparr>c_in := b\<rparr>;
             (r, k) = sys_recv (c_fd c) kReadSize (kernel w);
             w = w\<lparr>kernel := k\<rparr>
         in Some (case r of
             Received s \<Rightarrow>
               if s \<noteq> [] then
                 Again (w\<lparr>metrics := (metrics w)\<lparr>bytes_received :=
                            bump (bytes_received (metrics w)) (word_of_nat (length s))\<rparr>\<rparr>,
                        c\<lparr>c_in := commit (write_at b dst s) (length s), last_active_us := now_us w\<rparr>, True)
               else Stop (w, c\<lparr>peer_closed := True\<rparr>, True, True)
           | RecvIntr \<Rightarrow> Again (w, c, progress)
           | RecvAgain \<Rightarrow> Stop (w, c\<lparr>can_read := False\<rparr>, progress, True)
           | RecvFail \<Rightarrow> Stop (w, c, progress, False)))
     else Some (Stop (w, c, progress, True)))"

definition do_read :: "Worker \<Rightarrow> Connection \<Rightarrow> bool \<Rightarrow> IoResult option" where
  "do_read w c progress = iterate read_turn (w, c, progress)"

section \<open>Responding\<close>

definition count_response :: "WorkerMetrics \<Rightarrow> int \<Rightarrow> WorkerMetrics" where
  "count_response m st =
     (let m = m\<lparr>requests_total := bump (requests_total m) 1\<rparr>;
          cls = st sdiv 100
      in if cls \<ge> 1 \<and> cls \<le> 5
         then m\<lparr>responses_by_class := bump_at (responses_by_class m) (nat cls)\<rparr> else m)"

definition record_response :: "Worker \<Rightarrow> Connection \<Rightarrow> int \<Rightarrow> Worker \<times> Connection" where
  "record_response w c st =
     (let w = w\<lparr>metrics := count_response (metrics w) st\<rparr>;
          w = (if request_start_us c \<noteq> 0 then
                 let (now, k) = sys_mono_us (kernel w)
                 in w\<lparr>kernel := k, metrics := observe_latency_us (metrics w) (now - request_start_us c)\<rparr>
               else w)
      in (w, c\<lparr>request_start_us := 0\<rparr>))"

text \<open>\<^verbatim>\<open>date_.get(std::time(nullptr))\<close>.\<close>

definition current_date :: "Worker \<Rightarrow> string \<times> Worker" where
  "current_date w =
     (let (now, k) = sys_time (kernel w); (d, dc) = date_get (date_cache w) now
      in (d, w\<lparr>kernel := k, date_cache := dc\<rparr>))"

text \<open>\<^verbatim>\<open>static_cast<off_t>\<close> of a 64-bit unsigned number.\<close>

definition to_off :: "size_t \<Rightarrow> int" where
  "to_off n = sint (word_of_nat n :: 64 word)"

definition attach_body :: "Connection \<Rightarrow> Response \<Rightarrow> Framing \<Rightarrow> Connection" where
  "attach_body c res framing =
     (if fd_valid (res_file res) then
        (if file_length res > 0
         then c\<lparr>c_file := res_file res, c_file_off := to_off (file_offset res), c_file_left := file_length res\<rparr>
         else c)
      else (case producer res of
          Some pr \<Rightarrow>
            let c = c\<lparr>c_chunked := (framing = Chunked), c_stream_sized := (stream_length res \<noteq> None),
                      c_stream_left := (case stream_length res of Some n \<Rightarrow> n | None \<Rightarrow> 0),
                      c_trailers := no_headers\<rparr>
            in if \<not> (c_stream_sized c \<and> c_stream_left c = 0) then c\<lparr>c_producer := Some pr\<rparr> else c
        | None \<Rightarrow> c\<lparr>c_out := c_out c @ res_body res\<rparr>))"

definition reply_options :: "Worker \<Rightarrow> Request \<Rightarrow> string \<Rightarrow> HeadOptions" where
  "reply_options w rq d =
     \<lparr>opt_keep_alive = (keep_alive rq \<and> \<not> draining w), http10_client = is_http10 rq, date = d\<rparr>"

lemma reply_options_dispatched [simp]: "reply_options (w\<lparr>w_dispatched := n\<rparr>) rq d = reply_options w rq d"
  by (simp add: reply_options_def)

definition dispatch :: "Worker \<Rightarrow> Connection \<Rightarrow> Request \<Rightarrow> Worker \<times> Connection" where
  "dispatch w c rq =
     (let res = router_dispatch (w_routes w (w_dispatched w)) rq new_response;
          w = w\<lparr>w_dispatched := Suc (w_dispatched w)\<rparr>;
          (d, w') = current_date w;
          opts = reply_options w rq d;
          (out, framing) = write_head (c_out c) res opts;
          c = c\<lparr>c_out := out\<rparr>;
          c = (if \<not> opt_keep_alive opts \<or> framing = CloseDelimited then c\<lparr>close_after_write := True\<rparr> else c);
          c = (if req_method rq \<noteq> ''HEAD'' \<and> framing \<noteq> NoBody then attach_body c res framing else c)
      in record_response w' c (status res))"

definition error_response :: "int \<Rightarrow> string \<Rightarrow> Response" where
  "error_response st detail =
     text_response st (reason_phrase st @ '': '' @ detail @ [LF]) default_type"

definition queue_error :: "Worker \<Rightarrow> Connection \<Rightarrow> int \<Rightarrow> string \<Rightarrow> Worker \<times> Connection" where
  "queue_error w c st detail =
     (let res = error_response st detail;
          (d, w) = current_date w;
          (out, _) = write_head (c_out c) res \<lparr>opt_keep_alive = False, http10_client = False, date = d\<rparr>;
          c = c\<lparr>c_out := out @ res_body res, close_after_write := True\<rparr>
      in record_response w c st)"

section \<open>Processing\<close>

definition kContinue :: string where
  "kContinue = ''HTTP/1.1 100 Continue'' @ kCRLF @ kCRLF"

text \<open>A turn that ends the loop answers the worker, the connection and \<^verbatim>\<open>progress\<close>.\<close>

definition process_turn :: "WriteState \<Rightarrow> (WriteState, WriteState) Step" where
  "process_turn = (\<lambda>(w, c, progress).
     if \<not> close_after_write c \<and> \<not> body_source_active c \<and> out_pending c < kOutHighWater then
       let data = readable (c_in c) in
       if data = [] then Stop (w, c, progress)
       else
         let c = (if request_start_us c = 0 then c\<lparr>request_start_us := now_us w\<rparr> else c);
             (p, used) = feed (c_parser c) data;
             c = c\<lparr>c_parser := p, c_in := consume (c_in c) used\<rparr>;
             progress = (progress \<or> used \<noteq> 0)
         in if failed p then
              let w = w\<lparr>metrics := (metrics w)\<lparr>parse_errors := bump (parse_errors (metrics w)) 1\<rparr>\<rparr>;
                  (w, c) = queue_error w c (status_for (error p)) (error_detail p)
              in Stop (w, c, True)
            else
              let (c, progress) =
                    (if expect_continue (req p) \<and> \<not> continue_sent c \<and> headers_complete p \<and> \<not> parser_done p
                     then (c\<lparr>c_out := c_out c @ kContinue, continue_sent := True\<rparr>, True)
                     else (c, progress))
              in if \<not> parser_done p then Stop (w, c, progress)
                 else
                   let (rq, p) = take_request p;
                       (w, c) = dispatch w (c\<lparr>c_parser := p\<rparr>) rq
                   in Again (w, c\<lparr>continue_sent := False\<rparr>, True)
     else Stop (w, c, progress))"

definition process :: "Worker \<Rightarrow> Connection \<Rightarrow> WriteState option" where
  "process w c = iterate (\<lambda>s. Some (process_turn s)) (w, c, False)"

section \<open>The invariant\<close>

definition in_inv :: "Worker \<Rightarrow> Connection \<Rightarrow> bool" where
  "in_inv w c \<longleftrightarrow> bb_inv (c_in c) \<and> length (readable (c_in c)) < max_in_buffer w + kReadSize \<and>
     max_in_buffer w \<le> 2 ^ 61"

definition idle_parser :: "Worker \<Rightarrow> Connection \<Rightarrow> bool" where
  "idle_parser w c \<longleftrightarrow> parser_inv (c_parser c) \<and> limits (c_parser c) = w_limits w \<and>
     \<not> parser_done (c_parser c) \<and> (failed (c_parser c) \<longrightarrow> close_after_write c)"

definition conn_inv :: "Worker \<Rightarrow> Connection \<Rightarrow> bool" where
  "conn_inv w c \<longleftrightarrow> in_inv w c \<and> idle_parser w c \<and> out_inv c \<and> source_inv c"

lemma conn_inv_new:
  assumes "limits_ok (w_limits w)" "max_in_buffer w \<le> 2 ^ 61"
  shows "conn_inv w (new_connection fd (w_limits w) now mem)"
proof -
  have b: "bb_inv (new_buffer mem)" by (simp add: bb_inv_def new_buffer_def)
  have "length (readable (new_buffer mem)) = 0" by (simp add: length_readable [OF b]) (simp add: new_buffer_def)
  then show ?thesis
    using assms b parser_inv_new [OF assms(1)]
    by (simp add: conn_inv_def in_inv_def idle_parser_def new_connection_def out_inv_def source_inv_def
        fd_valid_def kReadSize_def parser_done_def failed_def) (simp add: new_parser_def)
qed

section \<open>What reading does\<close>

text \<open>The bytes that wait in a socket, and a bound on the calls of \<^verbatim>\<open>recv\<close> they can give.\<close>

fun recv_text :: "RecvResult list \<Rightarrow> string" where
  "recv_text [] = []"
| "recv_text (Received s # rs) = s @ recv_text rs"
| "recv_text (_ # rs) = recv_text rs"

fun recv_weight :: "RecvResult list \<Rightarrow> nat" where
  "recv_weight [] = 0"
| "recv_weight (Received s # rs) = 5 * length s + 1 + recv_weight rs"
| "recv_weight (_ # rs) = 1 + recv_weight rs"

text \<open>Reading moves \<open>data\<close> from the socket to the end of the buffer and counts it; of the connection it
  changes the buffer, the time of the last activity and what it learnt about the socket.\<close>

definition heard :: "Worker \<Rightarrow> Connection \<Rightarrow> string \<Rightarrow> Worker \<Rightarrow> Connection \<Rightarrow> bool" where
  "heard w c data w' c' \<longleftrightarrow>
     (\<exists>rs. w' = w\<lparr>kernel := (kernel w)\<lparr>recvs := (recvs (kernel w))(c_fd c := rs)\<rparr>,
            metrics := (metrics w)\<lparr>bytes_received := bytes_received (metrics w) + word_of_nat (length data)\<rparr>\<rparr> \<and>
        recv_text (recvs (kernel w) (c_fd c)) = data @ recv_text rs \<and>
        recv_weight rs + 5 * length data \<le> recv_weight (recvs (kernel w) (c_fd c))) \<and>
     (\<exists>b t r e. c' = c\<lparr>c_in := b, last_active_us := t, can_read := r, peer_closed := e\<rparr>) \<and>
     readable (c_in c') = readable (c_in c) @ data \<and> (can_read c' \<longrightarrow> can_read c)"

lemma heard_trans:
  assumes "heard w c d1 w1 c1" "heard w1 c1 d2 w2 c2"
  shows "heard w c (d1 @ d2) w2 c2"
proof -
  obtain rs1 where 1: "w1 = w\<lparr>kernel := (kernel w)\<lparr>recvs := (recvs (kernel w))(c_fd c := rs1)\<rparr>,
        metrics := (metrics w)\<lparr>bytes_received := bytes_received (metrics w) + word_of_nat (length d1)\<rparr>\<rparr>"
      "recv_text (recvs (kernel w) (c_fd c)) = d1 @ recv_text rs1"
      "recv_weight rs1 + 5 * length d1 \<le> recv_weight (recvs (kernel w) (c_fd c))"
    using assms(1) unfolding heard_def by blast
  obtain b1 t1 r1 e1 where c1: "c1 = c\<lparr>c_in := b1, last_active_us := t1, can_read := r1, peer_closed := e1\<rparr>"
      "readable (c_in c1) = readable (c_in c) @ d1" "can_read c1 \<longrightarrow> can_read c"
    using assms(1) unfolding heard_def by blast
  obtain rs2 where 2: "w2 = w1\<lparr>kernel := (kernel w1)\<lparr>recvs := (recvs (kernel w1))(c_fd c1 := rs2)\<rparr>,
        metrics := (metrics w1)\<lparr>bytes_received := bytes_received (metrics w1) + word_of_nat (length d2)\<rparr>\<rparr>"
      "recv_text (recvs (kernel w1) (c_fd c1)) = d2 @ recv_text rs2"
      "recv_weight rs2 + 5 * length d2 \<le> recv_weight (recvs (kernel w1) (c_fd c1))"
    using assms(2) unfolding heard_def by blast
  obtain b2 t2 r2 e2 where c2: "c2 = c1\<lparr>c_in := b2, last_active_us := t2, can_read := r2, peer_closed := e2\<rparr>"
      "readable (c_in c2) = readable (c_in c1) @ d2" "can_read c2 \<longrightarrow> can_read c1"
    using assms(2) unfolding heard_def by blast
  have fd: "c_fd c1 = c_fd c" using c1(1) by simp
  have "w2 = w\<lparr>kernel := (kernel w)\<lparr>recvs := (recvs (kernel w))(c_fd c := rs2)\<rparr>,
        metrics := (metrics w)\<lparr>bytes_received := bytes_received (metrics w) + word_of_nat (length (d1 @ d2))\<rparr>\<rparr>"
    unfolding 2(1) 1(1) by (simp add: fd add.assoc)
  moreover have "c2 = c\<lparr>c_in := b2, last_active_us := t2, can_read := r2, peer_closed := e2\<rparr>"
    unfolding c2(1) c1(1) by simp
  ultimately show ?thesis
    unfolding heard_def using 1 2(2,3) c1(2,3) c2(2,3)
    by (intro conjI exI [of _ rs2] exI [of _ b2] exI [of _ t2] exI [of _ r2] exI [of _ e2]) (simp_all add: fd)
qed

lemma sys_recv_ok:
  assumes "sys_recv fd n k = (r, k')" "0 < n"
  obtains rs data where "k' = k\<lparr>recvs := (recvs k)(fd := rs)\<rparr>"
    "data = (case r of Received s \<Rightarrow> s | _ \<Rightarrow> [])" "length data \<le> n"
    "recv_text (recvs k fd) = data @ recv_text rs" "recv_weight rs + 5 * length data \<le> recv_weight (recvs k fd)"
    "r \<noteq> RecvAgain \<longrightarrow> recv_weight rs + 4 * length data < recv_weight (recvs k fd)"
proof (cases "recvs k fd")
  case Nil
  show ?thesis by (rule that [of "[]" "[]"]) (use assms Nil in \<open>auto simp: sys_recv_def fun_upd_idem\<close>)
next
  case (Cons x rs)
  show ?thesis
  proof (cases x)
    case (Received s)
    let ?rs = "if length s \<le> n then rs else Received (drop n s) # rs"
    show ?thesis
      by (rule that [of ?rs "take n s"]) (use assms Cons Received in \<open>auto simp: sys_recv_def split: if_splits\<close>)
  qed (rule that [of rs "[]"]; use assms Cons in \<open>auto simp: sys_recv_def\<close>)+
qed

text \<open>The turn after \<^verbatim>\<open>prepare\<close> gave room and \<^verbatim>\<open>recv\<close> answered.\<close>

lemma read_turn_after:
  assumes "bb_size (c_in c) < max_in_buffer w"
    and "prepare (fresh_memory (kernel w)) (c_in c) kReadSize = Some (b, dst)"
    and "sys_recv (c_fd c) kReadSize (kernel w) = (r, k')"
  shows "r = Received s \<Longrightarrow> s \<noteq> [] \<Longrightarrow> read_turn (w, c, p) =
      Some (Again (w\<lparr>kernel := k', metrics := (metrics w)\<lparr>bytes_received :=
                            bytes_received (metrics w) + word_of_nat (length s)\<rparr>\<rparr>,
              c\<lparr>c_in := commit (write_at b dst s) (length s), last_active_us := now_us w\<rparr>, True))"
    and "r = Received [] \<Longrightarrow> read_turn (w, c, p) =
      Some (Stop (w\<lparr>kernel := k'\<rparr>, c\<lparr>c_in := b, peer_closed := True\<rparr>, True, True))"
    and "r = RecvIntr \<Longrightarrow> read_turn (w, c, p) = Some (Again (w\<lparr>kernel := k'\<rparr>, c\<lparr>c_in := b\<rparr>, p))"
    and "r = RecvAgain \<Longrightarrow> read_turn (w, c, p) =
      Some (Stop (w\<lparr>kernel := k'\<rparr>, c\<lparr>c_in := b, can_read := False\<rparr>, p, True))"
    and "r = RecvFail \<Longrightarrow> read_turn (w, c, p) = Some (Stop (w\<lparr>kernel := k'\<rparr>, c\<lparr>c_in := b\<rparr>, p, False))"
  using assms by (simp_all add: read_turn_def bump_def)

lemma heard_nothing:
  assumes "k' = (kernel w)\<lparr>recvs := (recvs (kernel w))(c_fd c := rs)\<rparr>"
    "recv_text (recvs (kernel w) (c_fd c)) = recv_text rs" "recv_weight rs \<le> recv_weight (recvs (kernel w) (c_fd c))"
    "readable b = readable (c_in c)" "bb_inv b" "in_inv w c" "r \<longrightarrow> can_read c"
  shows "heard w c [] (w\<lparr>kernel := k'\<rparr>) (c\<lparr>c_in := b, can_read := r, peer_closed := e\<rparr>) \<and>
    in_inv (w\<lparr>kernel := k'\<rparr>) (c\<lparr>c_in := b, can_read := r, peer_closed := e\<rparr>)"
proof
  show "heard w c [] (w\<lparr>kernel := k'\<rparr>) (c\<lparr>c_in := b, can_read := r, peer_closed := e\<rparr>)"
    unfolding heard_def
  proof (intro conjI)
    show "\<exists>b' t r' e'. c\<lparr>c_in := b, can_read := r, peer_closed := e\<rparr> =
        c\<lparr>c_in := b', last_active_us := t, can_read := r', peer_closed := e'\<rparr>"
      by (intro exI [of _ b] exI [of _ "last_active_us c"] exI [of _ r] exI [of _ e]) simp
  qed (use assms in \<open>auto intro!: exI [of _ rs]\<close>)
  show "in_inv (w\<lparr>kernel := k'\<rparr>) (c\<lparr>c_in := b, can_read := r, peer_closed := e\<rparr>)"
    using assms(4-6) by (simp add: in_inv_def)
qed

lemma heard_data:
  assumes "k' = (kernel w)\<lparr>recvs := (recvs (kernel w))(c_fd c := rs)\<rparr>"
    "recv_text (recvs (kernel w) (c_fd c)) = s @ recv_text rs"
    "recv_weight rs + 5 * length s \<le> recv_weight (recvs (kernel w) (c_fd c))"
    "readable b = readable (c_in c) @ s"
  shows "heard w c s (w\<lparr>kernel := k', metrics := (metrics w)\<lparr>bytes_received :=
      bytes_received (metrics w) + word_of_nat (length s)\<rparr>\<rparr>) (c\<lparr>c_in := b, last_active_us := t\<rparr>)"
  unfolding heard_def
proof (intro conjI)
  show "\<exists>b' t' r' e'. c\<lparr>c_in := b, last_active_us := t\<rparr> =
      c\<lparr>c_in := b', last_active_us := t', can_read := r', peer_closed := e'\<rparr>"
    by (intro exI [of _ b] exI [of _ t] exI [of _ "can_read c"] exI [of _ "peer_closed c"]) simp
qed (use assms in \<open>auto intro!: exI [of _ rs]\<close>)

abbreviation waiting :: "Worker \<Rightarrow> Connection \<Rightarrow> nat" where
  "waiting w c \<equiv> recv_weight (recvs (kernel w) (c_fd c))"

lemma read_turn_ok:
  assumes inv: "in_inv w c" and size: "bb_size (c_in c) < max_in_buffer w"
  obtains (again) w' c' p' data where "read_turn (w, c, p) = Some (Again (w', c', p'))" "heard w c data w' c'"
      "in_inv w' c'" "p' = (p \<or> data \<noteq> [])" "peer_closed c' = peer_closed c"
      "waiting w' c + 4 * length data < waiting w c"
  | (closed) w' c' where "read_turn (w, c, p) = Some (Stop (w', c', True, True))" "heard w c [] w' c'"
      "in_inv w' c'" "waiting w' c < waiting w c" "peer_closed c'"
  | (stop) w' c' ok where "read_turn (w, c, p) = Some (Stop (w', c', p, ok))" "heard w c [] w' c'"
      "in_inv w' c'" "ok \<Longrightarrow> \<not> can_read c'" "peer_closed c' = peer_closed c"
proof -
  let ?f = "fresh_memory (kernel w)"
  have bb: "bb_inv (c_in c)" "length (readable (c_in c)) < max_in_buffer w" "max_in_buffer w \<le> 2 ^ 61"
    using assms length_readable [of "c_in c"] by (auto simp: in_inv_def bb_size_def bb_inv_def)
  then have room: "length (readable (c_in c)) + kReadSize \<le> 2 ^ 62" by (simp add: kReadSize_def)
  obtain b where b: "prepare ?f (c_in c) kReadSize = Some (b, bb_wpos b)" "bb_inv b" "readable b = readable (c_in c)"
    using prepare_law [OF bb(1) room, of ?f] by blast
  obtain r k' where rk: "sys_recv (c_fd c) kReadSize (kernel w) = (r, k')" by fastforce
  have "0 < kReadSize" by (simp add: kReadSize_def)
  with rk obtain rs data where rs: "k' = (kernel w)\<lparr>recvs := (recvs (kernel w))(c_fd c := rs)\<rparr>"
    "data = (case r of Received s \<Rightarrow> s | _ \<Rightarrow> [])" "length data \<le> kReadSize"
    "recv_text (recvs (kernel w) (c_fd c)) = data @ recv_text rs"
    "recv_weight rs + 5 * length data \<le> recv_weight (recvs (kernel w) (c_fd c))"
    "r \<noteq> RecvAgain \<longrightarrow> recv_weight rs + 4 * length data < recv_weight (recvs (kernel w) (c_fd c))"
    by (rule sys_recv_ok)
  have left: "waiting (w\<lparr>kernel := k'\<rparr>) c = recv_weight rs" using rs(1) by simp
  note turn = read_turn_after [OF size b(1) rk, where p = p]
  have quiet: "heard w c [] (w\<lparr>kernel := k'\<rparr>) (c\<lparr>c_in := b, can_read := r', peer_closed := e\<rparr>)"
    "in_inv (w\<lparr>kernel := k'\<rparr>) (c\<lparr>c_in := b, can_read := r', peer_closed := e\<rparr>)"
    if "data = []" "r' \<longrightarrow> can_read c" for r' e
    using heard_nothing [OF rs(1) _ _ b(3,2) inv that(2), of e] rs(4,5) that(1) by simp_all
  have same: "c\<lparr>c_in := b, can_read := can_read c, peer_closed := e\<rparr> = c\<lparr>c_in := b, peer_closed := e\<rparr>"
    "c\<lparr>c_in := b, can_read := x, peer_closed := peer_closed c\<rparr> = c\<lparr>c_in := b, can_read := x\<rparr>"
    "c\<lparr>c_in := b, can_read := can_read c\<rparr> = c\<lparr>c_in := b\<rparr>" for e x by simp_all
  show ?thesis
  proof (cases r)
    case (Received s)
    show ?thesis
    proof (cases "s = []")
      case True
      show ?thesis
        by (rule closed [OF turn(2)]) (use quiet [of "can_read c" True, unfolded same] left rs Received True in simp_all)
    next
      case False
      let ?b = "commit (write_at b (bb_wpos b) s) (length s)"
      have "receive ?f (c_in c) kReadSize s = Some ?b" using b(1) by (simp add: receive_def)
      then have nb: "bb_inv ?b" "readable ?b = readable (c_in c) @ s"
        using receive_law [OF bb(1) _ room, of s ?f] rs(2,3) Received by auto
      have h: "heard w c s (w\<lparr>kernel := k', metrics := (metrics w)\<lparr>bytes_received :=
          bytes_received (metrics w) + word_of_nat (length s)\<rparr>\<rparr>) (c\<lparr>c_in := ?b, last_active_us := now_us w\<rparr>)"
        by (rule heard_data [OF rs(1)]) (use rs nb Received in simp_all)
      show ?thesis
        by (rule again [OF turn(1) [OF Received False] h])
          (use left nb bb rs Received False in \<open>simp_all add: in_inv_def\<close>)
    qed
  next
    case RecvIntr
    show ?thesis
      by (rule again [OF turn(3) [OF RecvIntr], of "[]"])
        (use quiet [of "can_read c" "peer_closed c", unfolded same] left rs RecvIntr in simp_all)
  next
    case RecvAgain
    show ?thesis
      by (rule stop [OF turn(4) [OF RecvAgain]])
        (use quiet [of False "peer_closed c", unfolded same] rs RecvAgain in simp_all)
  next
    case RecvFail
    show ?thesis
      by (rule stop [OF turn(5) [OF RecvFail]])
        (use quiet [of "can_read c" "peer_closed c", unfolded same] rs RecvFail in simp_all)
  qed
qed

lemma read_turn_full: "\<not> bb_size (c_in c) < max_in_buffer w \<Longrightarrow> read_turn (w, c, p) = Some (Stop (w, c, p, True))"
  by (simp add: read_turn_def)

lemma heard_same:
  assumes "heard w c data w' c'"
  shows "c_fd c' = c_fd c" "max_in_buffer w' = max_in_buffer w"
  using assms by (auto simp: heard_def)

lemma heard_refl: "heard w c [] w c"
  unfolding heard_def
proof (intro conjI)
  show "\<exists>b t r e. c = c\<lparr>c_in := b, last_active_us := t, can_read := r, peer_closed := e\<rparr>"
    by (intro exI [of _ "c_in c"] exI [of _ "last_active_us c"] exI [of _ "can_read c"]
        exI [of _ "peer_closed c"]) simp
qed (auto intro!: exI [of _ "recvs (kernel w) (c_fd c)"] simp: fun_upd_idem)

definition read_inv :: "WriteState \<Rightarrow> bool" where
  "read_inv = (\<lambda>(w, c, p). in_inv w c)"

definition read_bound :: "WriteState \<Rightarrow> nat" where
  "read_bound = (\<lambda>(w, c, p). waiting w c)"

interpretation reading: bounded_loop read_turn read_inv read_bound
proof
  fix s s' :: WriteState
  obtain w c p where s: "s = (w, c, p)" by (metis prod_cases3)
  assume inv: "read_inv s"
  then have i: "in_inv w c" by (simp add: s read_inv_def)
  show "read_turn s \<noteq> None"
  proof (cases "bb_size (c_in c) < max_in_buffer w")
    case True
    then show ?thesis unfolding s by (rule read_turn_ok [OF i, of p]) simp_all
  qed (simp add: s read_turn_full)
  assume "read_turn s = Some (Again s')"
  moreover obtain w' c' p' where s': "s' = (w', c', p')" by (metis prod_cases3)
  ultimately have t: "read_turn (w, c, p) = Some (Again (w', c', p'))" by (simp add: s)
  then have size: "bb_size (c_in c) < max_in_buffer w" using read_turn_full [of c w p] by fastforce
  show "read_inv s'" "read_bound s' < read_bound s"
    unfolding s s' read_inv_def read_bound_def prod.case
    by (rule read_turn_ok [OF i size, of p]; use t in \<open>auto dest: heard_same\<close>)+
qed

lemma do_read_returns: "in_inv w c \<Longrightarrow> do_read w c p \<noteq> None"
  unfolding do_read_def by (rule reading.loop_returns) (simp add: read_inv_def)

text \<open>What holds in the middle of reading.\<close>

definition read_so_far :: "Worker \<Rightarrow> Connection \<Rightarrow> bool \<Rightarrow> WriteState \<Rightarrow> bool" where
  "read_so_far w c p = (\<lambda>(w', c', p').
     \<exists>data. heard w c data w' c' \<and> in_inv w' c' \<and> p' = (p \<or> data \<noteq> []) \<and> peer_closed c' = peer_closed c \<and>
       waiting w' c + 4 * length data + of_bool (data \<noteq> []) \<le> waiting w c)"

definition read_done :: "Worker \<Rightarrow> Connection \<Rightarrow> bool \<Rightarrow> IoResult \<Rightarrow> bool" where
  "read_done w c p = (\<lambda>(w', c', p', ok).
     \<exists>data. heard w c data w' c' \<and> in_inv w' c' \<and>
       (if p' \<and> \<not> p then waiting w' c + 4 * length data < waiting w c
        else data = [] \<and> peer_closed c' = peer_closed c \<or> p) \<and>
       waiting w' c + 4 * length data \<le> waiting w c \<and>
       (ok \<longrightarrow> \<not> can_read c' \<or> peer_closed c' \<or> max_in_buffer w \<le> length (readable (c_in c'))))"

lemma read_so_far_again:
  assumes "read_so_far w c p (w1, c1, p1)" "read_turn (w1, c1, p1) = Some (Again s')"
  shows "read_so_far w c p s'"
proof -
  obtain d1 where d1: "heard w c d1 w1 c1" "in_inv w1 c1" "p1 = (p \<or> d1 \<noteq> [])" "peer_closed c1 = peer_closed c"
      "waiting w1 c + 4 * length d1 + of_bool (d1 \<noteq> []) \<le> waiting w c"
    using assms(1) unfolding read_so_far_def by auto
  have fd: "c_fd c1 = c_fd c" using heard_same [OF d1(1)] by simp
  have size: "bb_size (c_in c1) < max_in_buffer w1" using read_turn_full [of c1 w1 p1] assms(2) by fastforce
  show ?thesis
  proof (rule read_turn_ok [OF d1(2) size, of p1])
    fix w2 c2 p2 data
    assume t: "read_turn (w1, c1, p1) = Some (Again (w2, c2, p2))" "heard w1 c1 data w2 c2" "in_inv w2 c2"
      "p2 = (p1 \<or> data \<noteq> [])" "peer_closed c2 = peer_closed c1" "waiting w2 c1 + 4 * length data < waiting w1 c1"
    have "heard w c (d1 @ data) w2 c2" by (rule heard_trans [OF d1(1) t(2)])
    moreover have "waiting w2 c + 4 * length (d1 @ data) + of_bool (d1 @ data \<noteq> []) \<le> waiting w c"
      using t(6) d1(5) fd by simp
    ultimately have "read_so_far w c p (w2, c2, p2)"
      unfolding read_so_far_def using t(3-5) d1(3,4) by (auto intro!: exI [of _ "d1 @ data"])
    then show ?thesis using assms(2) t(1) by simp
  qed (use assms(2) in simp_all)
qed

lemma read_so_far_stop:
  assumes "read_so_far w c p (w1, c1, p1)" "read_turn (w1, c1, p1) = Some (Stop r)"
  shows "read_done w c p r"
proof -
  obtain d1 where d1: "heard w c d1 w1 c1" "in_inv w1 c1" "p1 = (p \<or> d1 \<noteq> [])" "peer_closed c1 = peer_closed c"
      "waiting w1 c + 4 * length d1 + of_bool (d1 \<noteq> []) \<le> waiting w c"
    using assms(1) unfolding read_so_far_def by auto
  have fd: "c_fd c1 = c_fd c" "max_in_buffer w1 = max_in_buffer w" using heard_same [OF d1(1)] by simp_all
  have sz: "bb_size (c_in c1) = length (readable (c_in c1))"
    using d1(2) length_readable [of "c_in c1"] by (simp add: in_inv_def bb_size_def bb_inv_def)
  show ?thesis
  proof (cases "bb_size (c_in c1) < max_in_buffer w1")
    case False
    then have "r = (w1, c1, p1, True)" using assms(2) read_turn_full by fastforce
    then show ?thesis
      unfolding read_done_def using d1 False fd(2) sz by (auto intro!: exI [of _ d1])
  next
    case True
    then show ?thesis
    proof (rule read_turn_ok [OF d1(2), of p1])
      fix w2 c2
      assume t: "read_turn (w1, c1, p1) = Some (Stop (w2, c2, True, True))" "heard w1 c1 [] w2 c2" "in_inv w2 c2"
        "waiting w2 c1 < waiting w1 c1" "peer_closed c2"
      have "heard w c d1 w2 c2" using heard_trans [OF d1(1) t(2)] by simp
      then have "read_done w c p (w2, c2, True, True)"
        unfolding read_done_def using t(3-5) d1(5) fd(1) by (auto intro!: exI [of _ d1])
      then show ?thesis using assms(2) t(1) by simp
    next
      fix w2 c2 ok
      assume t: "read_turn (w1, c1, p1) = Some (Stop (w2, c2, p1, ok))" "heard w1 c1 [] w2 c2" "in_inv w2 c2"
        "ok \<Longrightarrow> \<not> can_read c2" "peer_closed c2 = peer_closed c1"
      have "waiting w2 c1 \<le> waiting w1 c1" using t(2) by (auto simp: heard_def)
      moreover have "heard w c d1 w2 c2" using heard_trans [OF d1(1) t(2)] by simp
      ultimately have "read_done w c p (w2, c2, p1, ok)"
        unfolding read_done_def using t(3-5) d1(3-5) fd(1) by (auto intro!: exI [of _ d1])
      then show ?thesis using assms(2) t(1) by simp
    qed (use assms(2) in simp)
  qed
qed

lemma do_read_ok:
  assumes "do_read w c p = Some r" "in_inv w c"
  shows "read_done w c p r"
proof (rule iterate_rule [where I = "read_so_far w c p", OF assms(1) [unfolded do_read_def]])
  show "read_so_far w c p (w, c, p)"
    using assms(2) by (auto simp: read_so_far_def intro!: exI [of _ "[]"] heard_refl)
next
  fix s s' :: WriteState
  assume "read_so_far w c p s" "read_turn s = Some (Again s')"
  then show "read_so_far w c p s'" by (cases s) (simp add: read_so_far_again)
next
  fix s :: WriteState and r
  assume "read_so_far w c p s" "read_turn s = Some (Stop r)"
  then show "read_done w c p r" by (cases s) (simp add: read_so_far_stop)
qed

end
