(* ===== verification/Connection_Process.thy ===== *)
theory Connection_Process
  imports Connection_Input
begin

text \<open>
  What \<^verbatim>\<open>process\<close> does with the requests it finds in the input: it keeps the invariant of the
  connection and returns; every turn of its loop that goes on consumed input; and what it queues are
  the responses to the requests that the input holds, in the order of the requests.
\<close>

section \<open>What responding leaves alone\<close>

text \<open>Responding reads clocks, calls a handler and counts; it does no input or output.\<close>

definition essence :: "Worker \<Rightarrow> Worker" where
  "essence w = w\<lparr>metrics := new_metrics, date_cache := new_date_cache, w_dispatched := 0,
     kernel := (kernel w)\<lparr>mono_reads := 0, wall_reads := 0\<rparr>\<rparr>"

definition same_world :: "Worker \<Rightarrow> Worker \<Rightarrow> bool" where
  "same_world w w' \<longleftrightarrow> essence w' = essence w"

lemma same_world_refl [simp]: "same_world w w"
  by (simp add: same_world_def)

lemma same_world_trans: "same_world w w1 \<Longrightarrow> same_world w1 w2 \<Longrightarrow> same_world w w2"
  by (simp add: same_world_def)

lemma same_worldD:
  assumes "same_world w w'"
  shows "w_limits w' = w_limits w" "max_in_buffer w' = max_in_buffer w" "w_routes w' = w_routes w"
    "draining w' = draining w" "now_us w' = now_us w" "conns w' = conns w"
    "recvs (kernel w') = recvs (kernel w)" "sends (kernel w') = sends (kernel w)"
    "wire (kernel w') = wire (kernel w)" "file_bytes (kernel w') = file_bytes (kernel w)"
    "fin_sent (kernel w') = fin_sent (kernel w)"
  using assms [unfolded same_world_def, THEN arg_cong [of _ _ w_limits]]
    assms [unfolded same_world_def, THEN arg_cong [of _ _ max_in_buffer]]
    assms [unfolded same_world_def, THEN arg_cong [of _ _ w_routes]]
    assms [unfolded same_world_def, THEN arg_cong [of _ _ draining]]
    assms [unfolded same_world_def, THEN arg_cong [of _ _ now_us]]
    assms [unfolded same_world_def, THEN arg_cong [of _ _ conns]]
    assms [unfolded same_world_def, THEN arg_cong [of _ _ "\<lambda>w. recvs (kernel w)"]]
    assms [unfolded same_world_def, THEN arg_cong [of _ _ "\<lambda>w. sends (kernel w)"]]
    assms [unfolded same_world_def, THEN arg_cong [of _ _ "\<lambda>w. wire (kernel w)"]]
    assms [unfolded same_world_def, THEN arg_cong [of _ _ "\<lambda>w. file_bytes (kernel w)"]]
    assms [unfolded same_world_def, THEN arg_cong [of _ _ "\<lambda>w. fin_sent (kernel w)"]]
  by (simp_all add: essence_def)

lemma same_world_update [simp]:
  "same_world w (w'\<lparr>metrics := m\<rparr>) = same_world w w'" "same_world w (w'\<lparr>date_cache := d\<rparr>) = same_world w w'"
  "same_world w (w'\<lparr>w_dispatched := n\<rparr>) = same_world w w'"
  "same_world w (w\<lparr>kernel := (kernel w)\<lparr>mono_reads := i\<rparr>\<rparr>)"
  "same_world w (w\<lparr>kernel := (kernel w)\<lparr>wall_reads := i\<rparr>\<rparr>)"
  by (simp_all add: same_world_def essence_def)

lemma current_date_world:
  assumes "current_date w = (d, w')"
  shows "same_world w w'" "w_dispatched w' = w_dispatched w" "metrics w' = metrics w"
    "d = fst (date_get (date_cache w) (wall_clock (kernel w) (wall_reads (kernel w))))"
  using assms by (auto simp: current_date_def sys_time_def Let_def split: prod.splits)

lemma record_response_world:
  "same_world w (fst (record_response w c st))" "snd (record_response w c st) = c\<lparr>request_start_us := 0\<rparr>"
  "w_dispatched (fst (record_response w c st)) = w_dispatched w"
  by (simp_all add: record_response_def sys_mono_us_def Let_def)

section \<open>The bytes a response queues\<close>

definition has_body :: "Request \<Rightarrow> Response \<Rightarrow> HeadOptions \<Rightarrow> bool" where
  "has_body rq res opts \<longleftrightarrow> req_method rq \<noteq> ''HEAD'' \<and> snd (write_head [] res opts) \<noteq> NoBody"

text \<open>The head, and the body when it is a string; a file or a stream is sent later, from its source.\<close>

definition queued :: "Request \<Rightarrow> Response \<Rightarrow> HeadOptions \<Rightarrow> string" where
  "queued rq res opts =
     fst (write_head [] res opts) @
     (if has_body rq res opts \<and> \<not> fd_valid (res_file res) \<and> producer res = None then res_body res else [])"

definition refusal :: "ParseError \<Rightarrow> string \<Rightarrow> string \<Rightarrow> string" where
  "refusal e detail d =
     (let res = error_response (status_for e) detail
      in fst (write_head [] res \<lparr>opt_keep_alive = False, http10_client = False, date = d\<rparr>) @ res_body res)"

definition input_same :: "Connection \<Rightarrow> Connection \<Rightarrow> bool" where
  "input_same c c' \<longleftrightarrow> c_fd c' = c_fd c \<and> c_in c' = c_in c \<and> c_parser c' = c_parser c \<and>
     can_read c' = can_read c \<and> can_write c' = can_write c \<and> peer_closed c' = peer_closed c \<and>
     c_out_off c' = c_out_off c \<and> continue_sent c' = continue_sent c"

lemma write_head_append: "write_head out res opts = (out @ fst (write_head [] res opts), snd (write_head [] res opts))"
  by (simp add: write_head_shape)

lemma attach_body_ok:
  assumes "\<not> body_source_active c" "source_inv c" "framing = Chunked \<longrightarrow> stream_length res = None"
  shows "source_inv (attach_body c res framing)" "input_same c (attach_body c res framing)"
    "c_out (attach_body c res framing) =
       c_out c @ (if \<not> fd_valid (res_file res) \<and> producer res = None then res_body res else [])"
    "close_after_write (attach_body c res framing) = close_after_write c"
  using assms
  by (auto simp: attach_body_def source_inv_def body_source_active_def input_same_def Let_def
      split: option.splits if_splits)

lemma chunked_unsized: "snd (write_head [] res opts) = Chunked \<Longrightarrow> stream_length res = None"
  by (auto simp: write_head_shape choose_framing_def split: if_splits option.splits)

text \<open>The body a response stands for, under the framing of its head.\<close>

definition body_text :: "Kernel \<Rightarrow> Request \<Rightarrow> Response \<Rightarrow> HeadOptions \<Rightarrow> string \<Rightarrow> bool" where
  "body_text k rq res opts b =
     (if \<not> has_body rq res opts then b = []
      else if fd_valid (res_file res) then
        (if file_length res > 0 then
           0 \<le> to_off (file_offset res) \<and> length b = file_length res \<and>
           b = take (file_length res) (drop (nat (to_off (file_offset res))) (file_bytes k (res_file res)))
         else b = [])
      else (case producer res of
          Some pr \<Rightarrow>
            (if stream_length res = Some 0 then b = []
             else body_stream (snd (write_head [] res opts) = Chunked) (stream_length res \<noteq> None) pr no_headers
                    (case stream_length res of Some n \<Rightarrow> n | None \<Rightarrow> 0) b)
        | None \<Rightarrow> b = res_body res))"

lemma body_text_files: "file_bytes k' = file_bytes k \<Longrightarrow> body_text k' rq res opts b = body_text k rq res opts b"
  by (simp add: body_text_def)

lemma attach_body_sends:
  assumes "has_body rq res opts" "fr = snd (write_head [] res opts)" "body_text k rq res opts b"
    and "\<not> body_source_active c" "out_inv c"
  shows "sends_out k (attach_body c res fr) (pending c @ b)"
proof -
  have c: "\<not> fd_valid (c_file c)" "c_producer c = None" using assms(4) by (simp_all add: body_source_active_def)
  have off: "c_out_off c \<le> length (c_out c)" using assms(5) by (auto simp: out_inv_def)
  show ?thesis
    using assms(1-3) c off
    by (auto simp: sends_out_def sends_body_def attach_body_def body_text_def pending_def Let_def
        split: option.splits if_splits)
qed

text \<open>The connection after a response was queued.\<close>

definition replied :: "Connection \<Rightarrow> Request \<Rightarrow> Response \<Rightarrow> HeadOptions \<Rightarrow> Connection" where
  "replied c rq res opts =
     (let c1 = c\<lparr>c_out := c_out c @ fst (write_head [] res opts)\<rparr>;
          fr = snd (write_head [] res opts);
          c2 = (if \<not> opt_keep_alive opts \<or> fr = CloseDelimited then c1\<lparr>close_after_write := True\<rparr> else c1)
      in if has_body rq res opts then attach_body c2 res fr else c2)"

lemma replied_ok:
  assumes "\<not> body_source_active c" "source_inv c" "out_inv c"
  shows "source_inv (replied c rq res opts)" "input_same c (replied c rq res opts)"
    "out_inv (replied c rq res opts)" "pending (replied c rq res opts) = pending c @ queued rq res opts"
    "body_text k rq res opts b \<Longrightarrow>
       sends_out k (replied c rq res opts) (pending c @ fst (write_head [] res opts) @ b)"
proof -
  let ?h = "fst (write_head [] res opts)" and ?fr = "snd (write_head [] res opts)"
  let ?c1 = "c\<lparr>c_out := c_out c @ ?h\<rparr>"
  define c2 where "c2 = (if \<not> opt_keep_alive opts \<or> ?fr = CloseDelimited then ?c1\<lparr>close_after_write := True\<rparr> else ?c1)"
  have r: "replied c rq res opts = (if has_body rq res opts then attach_body c2 res ?fr else c2)"
    by (simp add: replied_def c2_def Let_def)
  have c2: "\<not> body_source_active c2" "source_inv c2" "input_same c c2" "c_out c2 = c_out c @ ?h"
      "pending c2 = pending c @ ?h" "out_inv c2"
    using assms by (auto simp: c2_def body_source_active_def source_inv_def input_same_def pending_def out_inv_def)
  note att = attach_body_ok [OF c2(1,2), of ?fr res]
  show s: "source_inv (replied c rq res opts)" "input_same c (replied c rq res opts)"
    using att c2 chunked_unsized [of res opts] by (simp_all add: r input_same_def)
  have "c_out (replied c rq res opts) = c_out c @ queued rq res opts"
    using att c2 chunked_unsized [of res opts] by (simp add: r queued_def)
  moreover have "c_out_off (replied c rq res opts) = c_out_off c" using s(2) by (simp add: input_same_def)
  ultimately show "out_inv (replied c rq res opts)"
    "pending (replied c rq res opts) = pending c @ queued rq res opts"
    using assms(3) by (auto simp: pending_def out_inv_def)
  assume b: "body_text k rq res opts b"
  show "sends_out k (replied c rq res opts) (pending c @ ?h @ b)"
  proof (cases "has_body rq res opts")
    case True
    with attach_body_sends [OF True refl b c2(1,6)] c2(5) show ?thesis by (simp add: r)
  next
    case False
    with b c2(1,5) show ?thesis
      by (simp add: r body_text_def sends_out_def sends_body_def body_source_active_def)
  qed
qed

lemma dispatch_ok:
  assumes "dispatch w c rq = (w', c')" "\<not> body_source_active c" "source_inv c" "out_inv c"
  obtains d where
    "d = fst (date_get (date_cache w) (wall_clock (kernel w) (wall_reads (kernel w))))"
    "pending c' = pending c @ queued rq (router_dispatch (w_routes w (w_dispatched w)) rq new_response) (reply_options w rq d)"
    "same_world w w'" "w_dispatched w' = Suc (w_dispatched w)" "input_same c c'" "out_inv c'" "source_inv c'"
    "request_start_us c' = 0"
    "c' = (replied c rq (router_dispatch (w_routes w (w_dispatched w)) rq new_response) (reply_options w rq d))\<lparr>request_start_us := 0\<rparr>"
proof -
  let ?res = "router_dispatch (w_routes w (w_dispatched w)) rq new_response"
  let ?w1 = "w\<lparr>w_dispatched := Suc (w_dispatched w)\<rparr>"
  obtain d w2 where dw: "current_date ?w1 = (d, w2)" by fastforce
  note date = current_date_world [OF dw, simplified]
  let ?opts = "reply_options w rq d"
  have "dispatch w c rq = record_response w2 (replied c rq ?res ?opts) (status ?res)"
    unfolding dispatch_def replied_def Let_def dw prod.case has_body_def write_head_append [of "c_out c"] by simp
  then have r: "same_world w2 w'" "c' = (replied c rq ?res ?opts)\<lparr>request_start_us := 0\<rparr>" "w_dispatched w' = w_dispatched w2"
    using assms(1) record_response_world [of w2 "replied c rq ?res ?opts" "status ?res"] by (simp_all add: prod_eq_iff)
  note ok = replied_ok(1-4) [OF assms(2-4), of rq ?res ?opts]
  show ?thesis
  proof (rule that [of d])
    show "same_world w w'" using r(1) date(1) same_world_trans by (simp add: same_world_def essence_def)
    show "pending c' = pending c @ queued rq ?res ?opts" "out_inv c'" "input_same c c'" "source_inv c'"
      using ok by (simp_all add: r(2) pending_def out_inv_def input_same_def source_inv_def)
  qed (use date r in simp_all)
qed

lemma sends_out_world:
  "file_bytes k' = file_bytes k \<Longrightarrow>
     sends_out k' (c\<lparr>request_start_us := t, continue_sent := b\<rparr>) s = sends_out k c s"
  by (simp add: sends_out_def sends_body_def pending_def cong: option.case_cong split: option.split)

lemma queue_error_ok:
  assumes "queue_error w c (status_for e) detail = (w', c')" "source_inv c" "out_inv c"
  obtains d where "d = fst (date_get (date_cache w) (wall_clock (kernel w) (wall_reads (kernel w))))"
    "pending c' = pending c @ refusal e detail d" "same_world w w'" "w_dispatched w' = w_dispatched w"
    "input_same c c'" "out_inv c'" "source_inv c'" "close_after_write c'" "request_start_us c' = 0"
    "c_producer c' = c_producer c" "body_source_active c' = body_source_active c"
proof -
  obtain d w2 where dw: "current_date w = (d, w2)" by fastforce
  note date = current_date_world [OF dw]
  let ?c = "c\<lparr>c_out := c_out c @ refusal e detail d, close_after_write := True\<rparr>"
  have "queue_error w c (status_for e) detail = record_response w2 ?c (status_for e)"
    unfolding queue_error_def Let_def dw prod.case write_head_append [of "c_out c"]
    by (simp add: refusal_def Let_def)
  then have r: "same_world w2 w'" "c' = ?c\<lparr>request_start_us := 0\<rparr>" "w_dispatched w' = w_dispatched w2"
    using assms(1) record_response_world [of w2 ?c "status_for e"] by (simp_all add: prod_eq_iff)
  show ?thesis
    by (rule that [of d])
      (use r date assms(2,3) same_world_trans [OF date(1) r(1)] in \<open>auto simp: pending_def out_inv_def
         source_inv_def input_same_def body_source_active_def\<close>)
qed

section \<open>The turns of process\<close>

lemma feed_done_uses:
  assumes "feed p data = (q, used)" "parser_done q" "\<not> parser_done p" "parser_inv p"
  shows "0 < used"
proof (cases "turn p data")
  case (Return p' n)
  then have "p' = q" using assms(1) by (simp add: feed_Return)
  with turn_Return_cases [OF Return] assms(2,3) show ?thesis by (auto simp: parser_done_def)
next
  case (Continue p' n)
  have "0 < n"
  proof (cases "in_body p")
    case True
    then have "turn_body p data = Continue p' n" using Continue by (auto simp: turn_def in_body_def)
    moreover have "0 < remaining p" using assms(4) True by (simp add: parser_inv_def size_inv_def)
    ultimately show ?thesis using turn_body_Continue(1,2) by fastforce
  next
    case False
    with turn_line_Continue [OF Continue] show ?thesis by simp
  qed
  then show ?thesis using assms(1) by (auto simp: feed_Continue [OF Continue])
qed

text \<open>What the parser makes of the input in one turn.\<close>

definition start_clock :: "Worker \<Rightarrow> Connection \<Rightarrow> Connection" where
  "start_clock w c = (if request_start_us c = 0 then c\<lparr>request_start_us := now_us w\<rparr> else c)"

definition fed :: "Worker \<Rightarrow> Connection \<Rightarrow> RequestParser \<Rightarrow> size_t \<Rightarrow> Connection" where
  "fed w c q used = (start_clock w c)\<lparr>c_parser := q, c_in := consume (c_in c) used\<rparr>"

definition may_process :: "Connection \<Rightarrow> bool" where
  "may_process c \<longleftrightarrow> \<not> close_after_write c \<and> \<not> body_source_active c \<and> out_pending c < kOutHighWater \<and>
     readable (c_in c) \<noteq> []"

definition says_continue :: "Connection \<Rightarrow> RequestParser \<Rightarrow> bool" where
  "says_continue c q \<longleftrightarrow> expect_continue (req q) \<and> \<not> continue_sent c \<and> headers_complete q"

lemma fed_simps [simp]:
  "c_parser (fed w c q used) = q" "c_in (fed w c q used) = consume (c_in c) used" "c_fd (fed w c q used) = c_fd c"
  "c_out (fed w c q used) = c_out c" "c_out_off (fed w c q used) = c_out_off c"
  "c_file (fed w c q used) = c_file c" "c_file_left (fed w c q used) = c_file_left c"
  "c_producer (fed w c q used) = c_producer c" "c_chunked (fed w c q used) = c_chunked c"
  "c_stream_sized (fed w c q used) = c_stream_sized c" "can_read (fed w c q used) = can_read c"
  "can_write (fed w c q used) = can_write c" "peer_closed (fed w c q used) = peer_closed c"
  "close_after_write (fed w c q used) = close_after_write c" "continue_sent (fed w c q used) = continue_sent c"
  by (simp_all add: fed_def start_clock_def)

lemma process_turn_idle: "\<not> may_process c \<Longrightarrow> process_turn (w, c, p) = Stop (w, c, p)"
  by (auto simp: process_turn_def may_process_def Let_def)

lemma process_turn_feeds:
  assumes "may_process c" "feed (c_parser c) (readable (c_in c)) = (q, used)"
  shows "failed q \<Longrightarrow> process_turn (w, c, p) =
      (let (w', c') = queue_error (w\<lparr>metrics := (metrics w)\<lparr>parse_errors := bump (parse_errors (metrics w)) 1\<rparr>\<rparr>)
             (fed w c q used) (status_for (error q)) (error_detail q)
       in Stop (w', c', True))"
    and "\<not> failed q \<Longrightarrow> \<not> parser_done q \<Longrightarrow> process_turn (w, c, p) =
      (if says_continue c q
       then Stop (w, (fed w c q used)\<lparr>c_out := c_out c @ kContinue, continue_sent := True\<rparr>, True)
       else Stop (w, fed w c q used, p \<or> used \<noteq> 0))"
    and "\<not> failed q \<Longrightarrow> parser_done q \<Longrightarrow> process_turn (w, c, p) =
      (let (w', c') = dispatch w ((fed w c q used)\<lparr>c_parser := reset q\<rparr>) (req q)
       in Again (w', c'\<lparr>continue_sent := False\<rparr>, True))"
proof -
  have q: "feed (c_parser (start_clock w c)) (readable (c_in c)) = (q, used)"
    "c_in (start_clock w c) = c_in c" "continue_sent (start_clock w c) = continue_sent c"
    "c_out (start_clock w c) = c_out c"
    using assms(2) by (simp_all add: start_clock_def)
  have "process_turn (w, c, p) =
     (let c1 = fed w c q used; p1 = (p \<or> used \<noteq> 0) in
      if failed q then
        let (w', c') = queue_error (w\<lparr>metrics := (metrics w)\<lparr>parse_errors := bump (parse_errors (metrics w)) 1\<rparr>\<rparr>)
              c1 (status_for (error q)) (error_detail q)
        in Stop (w', c', True)
      else
        let (c2, p2) =
          (if expect_continue (req q) \<and> \<not> continue_sent c1 \<and> headers_complete q \<and> \<not> parser_done q
           then (c1\<lparr>c_out := c_out c1 @ kContinue, continue_sent := True\<rparr>, True) else (c1, p1))
        in if \<not> parser_done q then Stop (w, c2, p2)
           else let (w', c') = dispatch w (c2\<lparr>c_parser := reset q\<rparr>) (req q)
                in Again (w', c'\<lparr>continue_sent := False\<rparr>, True))"
    unfolding process_turn_def prod.case start_clock_def [symmetric] Let_def q prod.case
    using assms(1) by (simp add: may_process_def fed_def q take_request_def)
  note turn = this [unfolded Let_def]
  show "failed q \<Longrightarrow> process_turn (w, c, p) =
      (let (w', c') = queue_error (w\<lparr>metrics := (metrics w)\<lparr>parse_errors := bump (parse_errors (metrics w)) 1\<rparr>\<rparr>)
             (fed w c q used) (status_for (error q)) (error_detail q)
       in Stop (w', c', True))"
    "\<not> failed q \<Longrightarrow> \<not> parser_done q \<Longrightarrow> process_turn (w, c, p) =
      (if says_continue c q
       then Stop (w, (fed w c q used)\<lparr>c_out := c_out c @ kContinue, continue_sent := True\<rparr>, True)
       else Stop (w, fed w c q used, p \<or> used \<noteq> 0))"
    "\<not> failed q \<Longrightarrow> parser_done q \<Longrightarrow> process_turn (w, c, p) =
      (let (w', c') = dispatch w ((fed w c q used)\<lparr>c_parser := reset q\<rparr>) (req q)
       in Again (w', c'\<lparr>continue_sent := False\<rparr>, True))"
    unfolding turn by (simp_all add: says_continue_def Let_def)
qed

lemma may_process_input:
  assumes "conn_inv w c" "feed (c_parser c) (readable (c_in c)) = (q, used)"
  shows "used \<le> length (readable (c_in c))" "bb_inv (consume (c_in c) used)"
    "readable (consume (c_in c) used) = drop used (readable (c_in c))"
    "parser_inv q" "limits q = w_limits w" "addressable (readable (c_in c))"
proof -
  have inv: "bb_inv (c_in c)" "length (readable (c_in c)) < max_in_buffer w + kReadSize" "max_in_buffer w \<le> 2 ^ 61"
      "parser_inv (c_parser c)" "limits (c_parser c) = w_limits w"
    using assms(1) by (simp_all add: conn_inv_def in_inv_def idle_parser_def)
  then show a: "addressable (readable (c_in c))" by (simp add: addressable_def kReadSize_def)
  show u: "used \<le> length (readable (c_in c))" using feed_le [of "c_parser c" "readable (c_in c)"] assms(2) by simp
  show "bb_inv (consume (c_in c) used)" "readable (consume (c_in c) used) = drop used (readable (c_in c))"
    using consume_law [OF inv(1) u] by simp_all
  show "parser_inv q" "limits q = w_limits w"
    using parser_inv_feed [OF inv(4) a] limits_feed [of "c_parser c" "readable (c_in c)"] inv(5) assms(2) by simp_all
qed

lemma fed_inv:
  assumes "conn_inv w c" "feed (c_parser c) (readable (c_in c)) = (q, used)"
  shows "in_inv w (fed w c q used)" "out_inv (fed w c q used)" "source_inv (fed w c q used)"
    "pending (fed w c q used) = pending c" "body_source_active (fed w c q used) = body_source_active c"
  using assms(1) may_process_input [OF assms]
  by (auto simp: conn_inv_def in_inv_def out_inv_def source_inv_def pending_def body_source_active_def)

lemma conn_inv_world:
  assumes "same_world w w'" "in_inv w c" "input_same c c'" "out_inv c'" "source_inv c'"
    and "parser_inv (c_parser c)" "limits (c_parser c) = w_limits w" "\<not> parser_done (c_parser c)"
    and "failed (c_parser c) \<longrightarrow> close_after_write c'"
  shows "conn_inv w' c'"
  using assms same_worldD(1,2) [OF assms(1)]
  by (simp add: conn_inv_def in_inv_def idle_parser_def input_same_def)

lemma process_turn_cases:
  assumes inv: "conn_inv w c"
  obtains (idle) "\<not> may_process c" "process_turn (w, c, p) = Stop (w, c, p)"
  | (refused) q used w' c' d where "may_process c" "feed (c_parser c) (readable (c_in c)) = (q, used)" "failed q"
      "process_turn (w, c, p) = Stop (w', c', True)" "pending c' = pending c @ refusal (error q) (error_detail q) d"
      "input_same (fed w c q used) c'" "same_world w w'" "w_dispatched w' = w_dispatched w" "close_after_write c'"
      "conn_inv w' c'" "c_producer c' = c_producer c" "\<not> body_source_active c'"
  | (waits) q used c' p' where "may_process c" "feed (c_parser c) (readable (c_in c)) = (q, used)"
      "\<not> failed q" "\<not> parser_done q" "process_turn (w, c, p) = Stop (w, c', p')"
      "pending c' = pending c @ (if says_continue c q then kContinue else [])"
      "input_same ((fed w c q used)\<lparr>continue_sent := continue_sent c \<or> says_continue c q\<rparr>) c'"
      "p' = (p \<or> used \<noteq> 0 \<or> says_continue c q)" "conn_inv w c'" "\<not> body_source_active c'"
      "close_after_write c' = close_after_write c"
  | (answers) q used w' c' d where "may_process c" "feed (c_parser c) (readable (c_in c)) = (q, used)"
      "parser_done q" "0 < used" "process_turn (w, c, p) = Again (w', c', True)"
      "pending c' = pending c @
         queued (req q) (router_dispatch (w_routes w (w_dispatched w)) (req q) new_response) (reply_options w (req q) d)"
      "input_same ((fed w c q used)\<lparr>c_parser := reset q, continue_sent := False\<rparr>) c'"
      "same_world w w'" "w_dispatched w' = Suc (w_dispatched w)" "conn_inv w' c'"
      "\<And>b. body_text (kernel w) (req q) (router_dispatch (w_routes w (w_dispatched w)) (req q) new_response)
         (reply_options w (req q) d) b \<Longrightarrow> sends_out (kernel w') c' (pending c @
           fst (write_head [] (router_dispatch (w_routes w (w_dispatched w)) (req q) new_response)
             (reply_options w (req q) d)) @ b)"
proof (cases "may_process c")
  case False
  then show ?thesis using idle process_turn_idle by blast
next
  case True
  obtain q used where f: "feed (c_parser c) (readable (c_in c)) = (q, used)" by fastforce
  note input = may_process_input [OF inv f]
  note fedi = fed_inv [OF inv f]
  note turn = process_turn_feeds [OF True f, of w p]
  let ?c = "fed w c q used"
  consider (bad) "failed q" | (part) "\<not> failed q" "\<not> parser_done q" | (full) "\<not> failed q" "parser_done q" by blast
  then show ?thesis
  proof cases
    case bad
    let ?w = "w\<lparr>metrics := (metrics w)\<lparr>parse_errors := bump (parse_errors (metrics w)) 1\<rparr>\<rparr>"
    obtain w' c' where e: "queue_error ?w ?c (status_for (error q)) (error_detail q) = (w', c')" by fastforce
    then show ?thesis
    proof (rule queue_error_ok [OF _ fedi(3,2)])
      fix d
      assume "pending c' = pending ?c @ refusal (error q) (error_detail q) d" "same_world ?w w'"
        "w_dispatched w' = w_dispatched ?w" "input_same ?c c'" "out_inv c'" "source_inv c'" "close_after_write c'"
        "c_producer c' = c_producer ?c" "body_source_active c' = body_source_active ?c"
      moreover from this have "same_world w w'" by (simp add: same_world_def essence_def)
      moreover have "\<not> body_source_active c" using True by (simp add: may_process_def)
      moreover have "conn_inv w' c'"
        by (rule conn_inv_world [of w _ ?c])
          (use calculation input fedi bad in \<open>simp_all add: parser_done_def failed_def\<close>)
      ultimately show ?thesis
        by (intro refused [OF True f bad, of w' c' d]) (use turn(1) [OF bad] e fedi(4,5) in simp_all)
    qed
  next
    case part
    let ?says = "says_continue c q"
    let ?c' = "if ?says then ?c\<lparr>c_out := c_out c @ kContinue, continue_sent := True\<rparr> else ?c"
    have out: "out_inv ?c'" "source_inv ?c'" "pending ?c' = pending c @ (if ?says then kContinue else [])"
        "\<not> body_source_active ?c'"
      using fedi True
      by (auto simp: out_inv_def source_inv_def pending_def body_source_active_def may_process_def)
    have "conn_inv w ?c'"
      using out(1,2) fedi(1) input part by (simp add: conn_inv_def idle_parser_def in_inv_def)
    with out show ?thesis
      by (intro waits [OF True f part, of ?c' "p \<or> used \<noteq> 0 \<or> ?says"])
        (use turn(2) [OF part] in \<open>simp_all add: input_same_def\<close>)
  next
    case full
    let ?c1 = "?c\<lparr>c_parser := reset q\<rparr>"
    have used: "0 < used" using feed_done_uses [OF f full(2)] inv by (simp add: conn_inv_def idle_parser_def)
    have c1: "\<not> body_source_active ?c1" "source_inv ?c1" "out_inv ?c1" "pending ?c1 = pending c" "in_inv w ?c1"
      using fedi True
      by (simp_all add: out_inv_def source_inv_def pending_def body_source_active_def may_process_def in_inv_def)
    obtain w' c' where d: "dispatch w ?c1 (req q) = (w', c')" by fastforce
    then show ?thesis
    proof (rule dispatch_ok [OF _ c1(1-3)])
      fix dt
      assume p: "pending c' = pending ?c1 @ queued (req q) (router_dispatch (w_routes w (w_dispatched w)) (req q)
          new_response) (reply_options w (req q) dt)" "same_world w w'" "w_dispatched w' = Suc (w_dispatched w)"
        "input_same ?c1 c'" "out_inv c'" "source_inv c'"
        "c' = (replied ?c1 (req q) (router_dispatch (w_routes w (w_dispatched w)) (req q) new_response)
           (reply_options w (req q) dt))\<lparr>request_start_us := 0\<rparr>"
      have "conn_inv w' c'"
        by (rule conn_inv_world [OF p(2) c1(5) p(4-6)])
          (use input parser_inv_reset [of q] in \<open>simp_all add: reset_new limits_reset parser_done_def failed_def new_parser_def\<close>)
      then have "conn_inv w' (c'\<lparr>continue_sent := False\<rparr>)"
        by (simp add: conn_inv_def in_inv_def idle_parser_def out_inv_def source_inv_def)
      moreover have "file_bytes (kernel w') = file_bytes (kernel w)" using same_worldD(10) [OF p(2)] .
      moreover note replied_ok(5) [OF c1(1-3), unfolded c1(4)]
      ultimately show ?thesis
        by (intro answers [OF True f full(2) used, of w' "c'\<lparr>continue_sent := False\<rparr>" dt])
          (use turn(3) [OF full] d p c1(4) in \<open>simp_all add: input_same_def pending_def sends_out_world\<close>)
    qed
  qed
qed

section \<open>The loop\<close>

definition process_inv :: "WriteState \<Rightarrow> bool" where
  "process_inv = (\<lambda>(w, c, p). conn_inv w c)"

definition process_bound :: "WriteState \<Rightarrow> nat" where
  "process_bound = (\<lambda>(w, c, p). length (readable (c_in c)))"

lemma process_turn_Again:
  assumes "conn_inv w c" "process_turn (w, c, p) = Again (w', c', p')"
  obtains q used d where "may_process c" "feed (c_parser c) (readable (c_in c)) = (q, used)"
      "parser_done q" "0 < used" "p'" "readable (c_in c') = drop used (readable (c_in c))"
      "pending c' = pending c @
         queued (req q) (router_dispatch (w_routes w (w_dispatched w)) (req q) new_response) (reply_options w (req q) d)"
      "input_same ((fed w c q used)\<lparr>c_parser := reset q, continue_sent := False\<rparr>) c'"
      "same_world w w'" "w_dispatched w' = Suc (w_dispatched w)" "conn_inv w' c'"
      "\<And>b. body_text (kernel w) (req q) (router_dispatch (w_routes w (w_dispatched w)) (req q) new_response)
         (reply_options w (req q) d) b \<Longrightarrow> sends_out (kernel w') c' (pending c @
           fst (write_head [] (router_dispatch (w_routes w (w_dispatched w)) (req q) new_response)
             (reply_options w (req q) d)) @ b)"
  using assms(1)
proof (cases rule: process_turn_cases [of w c p])
  case (answers q used w1 c1 d)
  have "c1 = c'" "w1 = w'" "p'" using answers(5) assms(2) by simp_all
  with answers may_process_input(3) [OF assms(1) answers(2)] show ?thesis
    by (intro that [OF answers(1-4), of d]) (simp_all add: input_same_def)
qed (use assms(2) in simp_all)

interpretation processing: bounded_loop "\<lambda>s. Some (process_turn s)" process_inv process_bound
proof
  fix s s' :: WriteState
  assume inv: "process_inv s" and "Some (process_turn s) = Some (Again s')"
  moreover obtain w c p w' c' p' where s: "s = (w, c, p)" "s' = (w', c', p')" by (metis prod_cases3)
  ultimately have i: "conn_inv w c" "process_turn (w, c, p) = Again (w', c', p')" by (simp_all add: process_inv_def)
  then show "process_inv s'" "process_bound s' < process_bound s"
    unfolding s process_inv_def process_bound_def prod.case
    by (rule process_turn_Again; simp add: may_process_def)+
qed simp

lemma process_returns: "conn_inv w c \<Longrightarrow> process w c \<noteq> None"
  unfolding process_def by (rule processing.loop_returns) (simp add: process_inv_def)

section \<open>The conversation\<close>

text \<open>What a parser makes of an input, as far as it was read: the requests it completed, and the
  error that ended it. The parser may be shown any prefix \<open>x\<close> of what is left.\<close>

datatype ParseEvent = Got Request | Bad ParseError string

inductive parses :: "RequestParser \<Rightarrow> string \<Rightarrow> ParseEvent list \<Rightarrow> RequestParser \<Rightarrow> string \<Rightarrow> bool"
  for p data where
  start: "parses p data [] p data"
| part: "parses p data evs p1 (x @ y) \<Longrightarrow> feed p1 x = (q, used) \<Longrightarrow> \<not> failed q \<Longrightarrow> \<not> parser_done q \<Longrightarrow>
    parses p data evs q (drop used x @ y)"
| got: "parses p data evs p1 (x @ y) \<Longrightarrow> feed p1 x = (q, used) \<Longrightarrow> parser_done q \<Longrightarrow>
    parses p data (evs @ [Got (req q)]) (reset q) (drop used x @ y)"
| bad: "parses p data evs p1 (x @ y) \<Longrightarrow> feed p1 x = (q, used) \<Longrightarrow> failed q \<Longrightarrow>
    parses p data (evs @ [Bad (error q) (error_detail q)]) q (drop used x @ y)"

text \<open>More input changes nothing of what was understood, and conversations compose.\<close>

lemma parses_more: "parses p data evs p' rest \<Longrightarrow> parses p (data @ more_data) evs p' (rest @ more_data)"
  by (induction rule: parses.induct) (auto intro: parses.intros)

lemma parses_trans:
  assumes "parses p1 d1 evs2 p2 d2" "parses p d evs1 p1 d1"
  shows "parses p d (evs1 @ evs2) p2 d2"
  using assms(1)
proof (induction rule: parses.induct)
  case start
  with assms(2) show ?case by simp
next
  case (got evs p1 x y q used)
  from parses.got [OF got.IH got.hyps(2,3)] show ?case by simp
next
  case (bad evs p1 x y q used)
  from parses.bad [OF bad.IH bad.hyps(2,3)] show ?case by simp
qed (rule parses.part)

lemmas parses_all =
  parses.part [where y = "[]", simplified] parses.got [where y = "[]", simplified] parses.bad [where y = "[]", simplified]

text \<open>The bytes queued for an event, when it is the \<open>n\<close>-th dispatch and the date is \<open>d\<close>.\<close>

fun reply_text :: "Worker \<Rightarrow> nat \<Rightarrow> ParseEvent \<Rightarrow> string \<Rightarrow> string" where
  "reply_text w n (Got rq) d =
     queued rq (router_dispatch (w_routes w n) rq new_response) (reply_options w rq d)"
| "reply_text w n (Bad e detail) d = refusal e detail d"

fun replies :: "Worker \<Rightarrow> nat \<Rightarrow> ParseEvent list \<Rightarrow> string list \<Rightarrow> string" where
  "replies w n (ev # evs) (d # ds) = reply_text w n ev d @ replies w (Suc n) evs ds"
| "replies w n _ _ = []"

lemma replies_snoc:
  "length ds = length evs \<Longrightarrow>
     replies w n (evs @ [ev]) (ds @ [d]) = replies w n evs ds @ reply_text w (n + length evs) ev d"
  by (induction evs ds arbitrary: n rule: list_induct2') simp_all

lemma reply_text_world: "same_world w w' \<Longrightarrow> reply_text w' n ev d = reply_text w n ev d"
  using same_worldD(3,4) [of w w'] by (cases ev) (simp_all add: reply_options_def)

text \<open>A connection in the middle of processing the input it had at first.\<close>

definition conversing :: "Worker \<Rightarrow> Connection \<Rightarrow> WriteState \<Rightarrow> ParseEvent list \<Rightarrow> string list \<Rightarrow> bool" where
  "conversing w c = (\<lambda>(w', c', p') evs ds.
     length ds = length evs \<and> conn_inv w' c' \<and> same_world w w' \<and>
     parses (c_parser c) (readable (c_in c)) evs (c_parser c') (readable (c_in c')))"

definition answered :: "Worker \<Rightarrow> Connection \<Rightarrow> WriteState \<Rightarrow> bool" where
  "answered w c = (\<lambda>(w', c', p').
     \<exists>evs ds cont. conversing w c (w', c', p') evs ds \<and>
       pending c' = pending c @ replies w (w_dispatched w) evs ds @ cont \<and> cont \<in> {[], kContinue} \<and>
       c_fd c' = c_fd c \<and> can_read c' = can_read c \<and> can_write c' = can_write c \<and> peer_closed c' = peer_closed c)"

definition answering :: "Worker \<Rightarrow> Connection \<Rightarrow> WriteState \<Rightarrow> bool" where
  "answering w c = (\<lambda>(w', c', p').
     \<exists>evs ds. conversing w c (w', c', p') evs ds \<and> w_dispatched w' = w_dispatched w + length evs \<and>
       pending c' = pending c @ replies w (w_dispatched w) evs ds \<and>
       c_fd c' = c_fd c \<and> can_read c' = can_read c \<and> can_write c' = can_write c \<and> peer_closed c' = peer_closed c)"

lemma input_sameD:
  assumes "input_same c c'"
  shows "c_fd c' = c_fd c" "c_in c' = c_in c" "c_parser c' = c_parser c" "can_read c' = can_read c"
    "can_write c' = can_write c" "peer_closed c' = peer_closed c" "continue_sent c' = continue_sent c"
  using assms by (simp_all add: input_same_def)

lemma answering_again:
  assumes "answering w c (w1, c1, p1)" "process_turn (w1, c1, p1) = Again (w2, c2, p2)"
  shows "answering w c (w2, c2, p2)"
proof -
  obtain evs ds where e: "length ds = length evs" "conn_inv w1 c1" "same_world w w1"
      "parses (c_parser c) (readable (c_in c)) evs (c_parser c1) (readable (c_in c1))"
      "w_dispatched w1 = w_dispatched w + length evs" "pending c1 = pending c @ replies w (w_dispatched w) evs ds"
      "c_fd c1 = c_fd c" "can_read c1 = can_read c" "can_write c1 = can_write c" "peer_closed c1 = peer_closed c"
    using assms(1) by (auto simp: answering_def conversing_def)
  show ?thesis
  proof (rule process_turn_Again [OF e(2) assms(2)])
    fix q used d
    assume t: "feed (c_parser c1) (readable (c_in c1)) = (q, used)" "parser_done q"
      "readable (c_in c2) = drop used (readable (c_in c1))"
      "pending c2 = pending c1 @
         queued (req q) (router_dispatch (w_routes w1 (w_dispatched w1)) (req q) new_response) (reply_options w1 (req q) d)"
      "input_same ((fed w1 c1 q used)\<lparr>c_parser := reset q, continue_sent := False\<rparr>) c2"
      "same_world w1 w2" "w_dispatched w2 = Suc (w_dispatched w1)" "conn_inv w2 c2"
    have "parses (c_parser c) (readable (c_in c)) (evs @ [Got (req q)]) (c_parser c2) (readable (c_in c2))"
      using parses_all(2) [OF e(4) t(1,2)] t(3) input_sameD(3) [OF t(5)] by simp
    moreover have "pending c2 = pending c @ replies w (w_dispatched w) (evs @ [Got (req q)]) (ds @ [d])"
      using t(4) e(6) reply_text_world [OF e(3), of "w_dispatched w1" "Got (req q)" d]
      by (simp add: replies_snoc [OF e(1)] e(5))
    moreover have "same_world w w2" using e(3) t(6) by (rule same_world_trans)
    ultimately show ?thesis
      using e(1,5,7-10) t(7,8) input_sameD [OF t(5)] unfolding answering_def conversing_def prod.case
      by (intro exI [of _ "evs @ [Got (req q)]"] exI [of _ "ds @ [d]"]) simp
  qed
qed

lemma answering_stop:
  assumes "answering w c (w1, c1, p1)" "process_turn (w1, c1, p1) = Stop r"
  shows "answered w c r"
proof -
  obtain evs ds where e: "length ds = length evs" "conn_inv w1 c1" "same_world w w1"
      "parses (c_parser c) (readable (c_in c)) evs (c_parser c1) (readable (c_in c1))"
      "w_dispatched w1 = w_dispatched w + length evs" "pending c1 = pending c @ replies w (w_dispatched w) evs ds"
      "c_fd c1 = c_fd c" "can_read c1 = can_read c" "can_write c1 = can_write c" "peer_closed c1 = peer_closed c"
    using assms(1) by (auto simp: answering_def conversing_def)
  from e(2) show ?thesis
  proof (cases rule: process_turn_cases [of w1 c1 p1])
    case idle
    then have "r = (w1, c1, p1)" using assms(2) by simp
    with e show ?thesis unfolding answered_def conversing_def by (auto intro!: exI [of _ evs] exI [of _ ds])
  next
    case (refused q used w2 c2 d)
    have "parses (c_parser c) (readable (c_in c)) (evs @ [Bad (error q) (error_detail q)]) (c_parser c2) (readable (c_in c2))"
      using parses_all(3) [OF e(4) refused(2,3)] input_sameD(2,3) [OF refused(6)] may_process_input(3) [OF e(2) refused(2)]
      by simp
    moreover have "pending c2 = pending c @ replies w (w_dispatched w) (evs @ [Bad (error q) (error_detail q)]) (ds @ [d])"
      using refused(5) e(6) by (simp add: replies_snoc [OF e(1)])
    moreover have "same_world w w2" using e(3) refused(7) by (rule same_world_trans)
    ultimately have "answered w c (w2, c2, True)"
      using e(1,7-10) refused(10) input_sameD [OF refused(6)] unfolding answered_def conversing_def prod.case
      by (intro exI [of _ "evs @ [Bad (error q) (error_detail q)]"] exI [of _ "ds @ [d]"] exI [of _ "[]"]) simp
    then show ?thesis using assms(2) refused(4) by simp
  next
    case (waits q used c2 p2)
    have "parses (c_parser c) (readable (c_in c)) evs (c_parser c2) (readable (c_in c2))"
      using parses_all(1) [OF e(4) waits(2-4)] input_sameD(2,3) [OF waits(7)] may_process_input(3) [OF e(2) waits(2)]
      by simp
    then have "answered w c (w1, c2, p2)"
      using e(1,3,6-10) waits(6,9) input_sameD [OF waits(7)] unfolding answered_def conversing_def prod.case
      by (intro exI [of _ evs] exI [of _ ds] exI [of _ "if says_continue c1 q then kContinue else []"]) simp
    then show ?thesis using assms(2) waits(5) by simp
  qed (use assms(2) in simp)
qed

lemma process_answers:
  assumes "process w c = Some r" "conn_inv w c"
  shows "answered w c r"
proof (rule iterate_rule [where I = "answering w c", OF assms(1) [unfolded process_def]])
  show "answering w c (w, c, False)"
    unfolding answering_def conversing_def using assms(2) parses.start
    by (auto intro!: exI [of _ "[]"])
next
  fix s s' :: WriteState
  assume "answering w c s" "Some (process_turn s) = Some (Again s')"
  then show "answering w c s'" by (cases s; cases s') (auto intro: answering_again)
next
  fix s r :: WriteState
  assume "answering w c s" "Some (process_turn s) = Some (Stop r)"
  then show "answered w c r" by (cases s) (auto intro: answering_stop)
qed

section \<open>Progress\<close>

text \<open>What processing uses up: input, the right to send a 100, and the life of the connection. A
  response may bring a producer, which costs less than the byte of input it took.\<close>

definition input_fuel :: "Connection \<Rightarrow> nat" where
  "input_fuel c = 4 * length (readable (c_in c)) + of_bool (\<not> continue_sent c) +
     of_bool (c_producer c \<noteq> None) + of_bool (\<not> close_after_write c)"

text \<open>A connection on which a call of \<^verbatim>\<open>process\<close> had nothing to do.\<close>

definition nothing_to_do :: "Worker \<Rightarrow> Connection \<Rightarrow> Connection \<Rightarrow> bool" where
  "nothing_to_do w c c' \<longleftrightarrow> c' = c \<and> \<not> may_process c \<or>
     length (readable (c_in c')) \<le> tail_bound (w_limits w) \<and> \<not> body_source_active c' \<and>
     \<not> close_after_write c' \<and> pending c' = pending c \<and> \<not> close_after_write c \<and> \<not> body_source_active c \<and>
     readable (c_in c') = readable (c_in c)"

lemma process_turn_Again_fuel:
  assumes "conn_inv w c" "process_turn (w, c, p) = Again (w', c', p')"
  shows "input_fuel c' < input_fuel c \<and> p'"
proof (rule process_turn_Again [OF assms])
  fix q used
  assume t: "may_process c" "0 < used" "p'" "readable (c_in c') = drop used (readable (c_in c))"
  then have "length (readable (c_in c')) < length (readable (c_in c))" by (simp add: may_process_def)
  then have "4 * length (readable (c_in c')) + 4 \<le> 4 * length (readable (c_in c))" by simp
  moreover have "c_producer c = None" "\<not> close_after_write c"
    using t(1) by (simp_all add: may_process_def body_source_active_def)
  ultimately show ?thesis using t(3) by (simp add: input_fuel_def)
qed

lemma process_turn_Stop_fuel:
  assumes "conn_inv w c" "process_turn (w, c, p) = Stop (w', c', p')"
  shows "(p \<or> (if p' then input_fuel c' < input_fuel c else w' = w \<and> nothing_to_do w c c')) \<and>
    input_fuel c' \<le> input_fuel c \<and> (p \<longrightarrow> p')"
  using assms(1)
proof (cases rule: process_turn_cases [of w c p])
  case idle
  then have "w' = w" "c' = c" "p' = p" using assms(2) by simp_all
  with idle show "(p \<or> (if p' then input_fuel c' < input_fuel c else w' = w \<and> nothing_to_do w c c')) \<and>
    input_fuel c' \<le> input_fuel c \<and> (p \<longrightarrow> p')"
    by (auto simp: nothing_to_do_def)
next
  case (refused q used w1 c1 d)
  have eq: "c1 = c'" "p'" using refused(4) assms(2) by simp_all
  have "length (readable (c_in c')) \<le> length (readable (c_in c))"
    using may_process_input(1,3) [OF assms(1) refused(2)] input_sameD(2) [OF refused(6)] eq by simp
  moreover have "\<not> close_after_write c" "c_producer c = None" "close_after_write c'" "continue_sent c' = continue_sent c"
    using refused(1,9) input_sameD(7) [OF refused(6)] eq by (simp_all add: may_process_def body_source_active_def)
  moreover have "c_producer c' = None" using refused(11) eq calculation(3) by simp
  ultimately show "(p \<or> (if p' then input_fuel c' < input_fuel c else w' = w \<and> nothing_to_do w c c')) \<and>
    input_fuel c' \<le> input_fuel c \<and> (p \<longrightarrow> p')"
    using eq by (auto simp: input_fuel_def)
next
  case (waits q used c1 p1)
  have eq: "c1 = c'" "p' = (p \<or> used \<noteq> 0 \<or> says_continue c q)" "w' = w" using waits(5,8) assms(2) by simp_all
  note input = may_process_input [OF assms(1) waits(2)]
  have len: "readable (c_in c') = drop used (readable (c_in c))"
    using input(3) input_sameD(2) [OF waits(7)] eq by simp
  have c: "\<not> close_after_write c" "c_producer c = None" "close_after_write c' = close_after_write c" "c_producer c' = None"
      "continue_sent c' = (continue_sent c \<or> says_continue c q)" "\<not> body_source_active c'" "\<not> body_source_active c"
    using waits(1,10,11) input_sameD(7) [OF waits(7)] eq by (simp_all add: may_process_def body_source_active_def)
  have "readable (c_in c) \<noteq> []" using waits(1) by (simp add: may_process_def)
  then have dec: "used \<noteq> 0 \<Longrightarrow> length (readable (c_in c')) < length (readable (c_in c))" unfolding len by simp
  have says: "says_continue c q \<Longrightarrow> \<not> continue_sent c" by (simp add: says_continue_def)
  have "length (readable (c_in c')) \<le> tail_bound (w_limits w)"
    using feed_waits [of "c_parser c" "readable (c_in c)"] waits(2-4) input(6) assms(1) len
    by (simp add: conn_inv_def idle_parser_def)
  then have stuck: "nothing_to_do w c c'" if "used = 0" "\<not> says_continue c q"
    using that waits(6) eq c len by (simp add: nothing_to_do_def)
  have "input_fuel c' \<le> input_fuel c" using c says len by (auto simp: input_fuel_def)
  then show "(p \<or> (if p' then input_fuel c' < input_fuel c else w' = w \<and> nothing_to_do w c c')) \<and>
    input_fuel c' \<le> input_fuel c \<and> (p \<longrightarrow> p')"
    using c says dec stuck eq len by (auto simp: input_fuel_def)
qed (use assms(2) in simp_all)

lemma process_progress:
  assumes "process w c = Some (w', c', p')" "conn_inv w c"
  shows "if p' then input_fuel c' < input_fuel c else w' = w \<and> nothing_to_do w c c' \<and> input_fuel c' \<le> input_fuel c"
proof -
  let ?I = "\<lambda>(w1, c1, p1). conn_inv w1 c1 \<and> (if p1 then input_fuel c1 < input_fuel c else w1 = w \<and> c1 = c)"
  let ?R = "\<lambda>(w', c', p'). if p' then input_fuel c' < input_fuel c
      else w' = w \<and> nothing_to_do w c c' \<and> input_fuel c' \<le> input_fuel c"
  have "?R (w', c', p')"
  proof (rule iterate_rule [where I = ?I and R = ?R, OF assms(1) [unfolded process_def]])
    show "?I (w, c, False)" using assms(2) by simp
  next
    fix s s' assume I: "?I s" and "Some (process_turn s) = Some (Again s')"
    moreover obtain w1 c1 p1 w2 c2 p2 where s: "s = (w1, c1, p1)" "s' = (w2, c2, p2)" by (metis prod_cases3)
    ultimately have t: "conn_inv w1 c1" "process_turn (w1, c1, p1) = Again (w2, c2, p2)" by auto
    have "process_inv s'"
      using processing.turn_keeps [of s s'] t s by (simp add: process_inv_def)
    then show "?I s'" using process_turn_Again_fuel [OF t] I s by (auto simp: process_inv_def split: if_splits)
  next
    fix s r assume I: "?I s" and "Some (process_turn s) = Some (Stop r)"
    moreover obtain w1 c1 p1 w2 c2 p2 where s: "s = (w1, c1, p1)" "r = (w2, c2, p2)" by (metis prod_cases3)
    ultimately have t: "conn_inv w1 c1" "process_turn (w1, c1, p1) = Stop (w2, c2, p2)" by auto
    show "?R r" using process_turn_Stop_fuel [OF t] I unfolding s by (auto split: if_splits)
  qed
  then show ?thesis by simp
qed

section \<open>Whole responses\<close>

definition whole_reply :: "Worker \<Rightarrow> ParseEvent \<Rightarrow> string \<Rightarrow> bool" where
  "whole_reply w ev s =
     (case ev of
        Got rq \<Rightarrow> \<exists>n d b. let res = router_dispatch (w_routes w n) rq new_response; opts = reply_options w rq d in
          s = fst (write_head [] res opts) @ b \<and> body_text (kernel w) rq res opts b
      | Bad e detail \<Rightarrow> \<exists>d. s = refusal e detail d)"

text \<open>Handlers whose files are as long as they say and whose producers keep their contract.\<close>

definition lawful_routes :: "Worker \<Rightarrow> bool" where
  "lawful_routes w \<longleftrightarrow> (\<forall>n rq d. \<exists>b.
     body_text (kernel w) rq (router_dispatch (w_routes w n) rq new_response) (reply_options w rq d) b)"

text \<open>What a conversation puts on the wire: a whole response per event, in order, and 100 responses
  between them.\<close>

inductive transcript :: "Worker \<Rightarrow> ParseEvent list \<Rightarrow> string \<Rightarrow> bool" for w where
  nothing: "transcript w [] []"
| reply: "transcript w evs out \<Longrightarrow> whole_reply w ev s \<Longrightarrow> transcript w (evs @ [ev]) (out @ s)"
| continue: "transcript w evs out \<Longrightarrow> transcript w evs (out @ kContinue)"

lemma transcript_append:
  assumes "transcript w evs2 out2" "transcript w evs1 out1"
  shows "transcript w (evs1 @ evs2) (out1 @ out2)"
  using assms(1)
proof (induction rule: transcript.induct)
  case nothing
  with assms(2) show ?case by simp
next
  case (reply evs out ev s)
  from transcript.reply [OF reply.IH reply.hyps(2)] show ?case by simp
next
  case (continue evs out)
  from transcript.continue [OF continue.IH] show ?case by simp
qed

lemma whole_reply_cong:
  assumes "w_routes w' = w_routes w" "draining w' = draining w" "file_bytes (kernel w') = file_bytes (kernel w)"
  shows "whole_reply w' = whole_reply w"
  using assms body_text_files [OF assms(3)]
  by (intro ext) (simp add: whole_reply_def reply_options_def split: ParseEvent.split)

lemma transcript_cong:
  assumes "whole_reply w' = whole_reply w" "transcript w' evs out"
  shows "transcript w evs out"
  using assms(2) by (induction rule: transcript.induct) (auto simp: assms(1) intro: transcript.intros)

lemma sends_out_idle: "\<not> body_source_active c \<Longrightarrow> sends_out k c s \<longleftrightarrow> s = pending c"
  by (simp add: sends_out_def sends_body_def body_source_active_def)

definition talking :: "Worker \<Rightarrow> Connection \<Rightarrow> string \<Rightarrow> WriteState \<Rightarrow> bool" where
  "talking w c s0 = (\<lambda>(w', c', p'). \<exists>evs out. conn_inv w' c' \<and> same_world w w' \<and>
     parses (c_parser c) (readable (c_in c)) evs (c_parser c') (readable (c_in c')) \<and>
     transcript w evs out \<and> sends_out (kernel w') c' (s0 @ out))"

lemma whole_reply_world: "same_world w w' \<Longrightarrow> whole_reply w' = whole_reply w"
  using same_worldD(3,4,10) by (intro whole_reply_cong)

lemma lawful_world: "same_world w w' \<Longrightarrow> lawful_routes w' = lawful_routes w"
  using same_worldD(3,4,10) [of w w'] body_text_files [of "kernel w'" "kernel w"]
  by (simp add: lawful_routes_def reply_options_def)

lemma talking_again:
  assumes "talking w c s0 (w1, c1, p1)" "process_turn (w1, c1, p1) = Again (w2, c2, p2)" "lawful_routes w"
  shows "talking w c s0 (w2, c2, p2)"
proof -
  obtain evs out where e: "conn_inv w1 c1" "same_world w w1"
      "parses (c_parser c) (readable (c_in c)) evs (c_parser c1) (readable (c_in c1))"
      "transcript w evs out" "sends_out (kernel w1) c1 (s0 @ out)"
    using assms(1) by (auto simp: talking_def)
  show ?thesis
  proof (rule process_turn_Again [OF e(1) assms(2)])
    fix q :: RequestParser and used d
    let ?res = "router_dispatch (w_routes w1 (w_dispatched w1)) (req q) new_response" and ?opts = "reply_options w1 (req q) d"
    assume t: "may_process c1" "feed (c_parser c1) (readable (c_in c1)) = (q, used)" "parser_done q"
        "readable (c_in c2) = drop used (readable (c_in c1))"
        "input_same ((fed w1 c1 q used)\<lparr>c_parser := reset q, continue_sent := False\<rparr>) c2"
        "same_world w1 w2" "conn_inv w2 c2"
      and sends: "\<And>b. body_text (kernel w1) (req q) ?res ?opts b \<Longrightarrow>
        sends_out (kernel w2) c2 (pending c1 @ fst (write_head [] ?res ?opts) @ b)"
    have "\<exists>b. body_text (kernel w1) (req q) ?res ?opts b"
      using assms(3) lawful_world [OF e(2)] by (simp add: lawful_routes_def)
    then obtain b where b: "body_text (kernel w1) (req q) ?res ?opts b" by blast
    have "pending c1 = s0 @ out" using e(5) t(1) by (simp add: sends_out_idle may_process_def)
    then have s: "sends_out (kernel w2) c2 (s0 @ out @ fst (write_head [] ?res ?opts) @ b)"
      using sends [OF b] by simp
    have "whole_reply w1 (Got (req q)) (fst (write_head [] ?res ?opts) @ b)"
      unfolding whole_reply_def Let_def using b by auto
    then have "transcript w (evs @ [Got (req q)]) (out @ fst (write_head [] ?res ?opts) @ b)"
      using transcript.reply [OF e(4)] whole_reply_world [OF e(2)] by simp
    moreover have "parses (c_parser c) (readable (c_in c)) (evs @ [Got (req q)]) (c_parser c2) (readable (c_in c2))"
      using parses_all(2) [OF e(3) t(2,3)] t(4) input_sameD(3) [OF t(5)] by simp
    moreover have "same_world w w2" using e(2) t(6) by (rule same_world_trans)
    ultimately show ?thesis using t(7) s unfolding talking_def by auto
  qed
qed

lemma talking_stop:
  assumes "talking w c s0 (w1, c1, p1)" "process_turn (w1, c1, p1) = Stop r"
  shows "talking w c s0 r"
proof -
  obtain evs out where e: "conn_inv w1 c1" "same_world w w1"
      "parses (c_parser c) (readable (c_in c)) evs (c_parser c1) (readable (c_in c1))"
      "transcript w evs out" "sends_out (kernel w1) c1 (s0 @ out)"
    using assms(1) by (auto simp: talking_def)
  from e(1) show ?thesis
  proof (cases rule: process_turn_cases [of w1 c1 p1])
    case idle
    then show ?thesis using assms by simp
  next
    case (refused q used w2 c2 d)
    have "pending c1 = s0 @ out" using e(5) refused(1) by (simp add: sends_out_idle may_process_def)
    then have s: "sends_out (kernel w2) c2 (s0 @ out @ refusal (error q) (error_detail q) d)"
      using refused(5,12) by (simp add: sends_out_idle)
    have "whole_reply w (Bad (error q) (error_detail q)) (refusal (error q) (error_detail q) d)"
      by (auto simp: whole_reply_def)
    from transcript.reply [OF e(4) this] s
    have "talking w c s0 (w2, c2, True)"
      using parses_all(3) [OF e(3) refused(2,3)] input_sameD(2,3) [OF refused(6)]
        may_process_input(3) [OF e(1) refused(2)] same_world_trans [OF e(2) refused(7)] refused(10)
      unfolding talking_def by auto
    then show ?thesis using assms(2) refused(4) by simp
  next
    case (waits q used c2 p2)
    let ?cont = "if says_continue c1 q then kContinue else []"
    have "pending c1 = s0 @ out" using e(5) waits(1) by (simp add: sends_out_idle may_process_def)
    then have s: "sends_out (kernel w1) c2 (s0 @ out @ ?cont)" using waits(6,10) by (simp add: sends_out_idle)
    have "transcript w evs (out @ ?cont)" using e(4) transcript.continue [OF e(4)] by simp
    with s have "talking w c s0 (w1, c2, p2)"
      using parses_all(1) [OF e(3) waits(2-4)] input_sameD(2,3) [OF waits(7)]
        may_process_input(3) [OF e(1) waits(2)] e(2) waits(9)
      unfolding talking_def by auto
    then show ?thesis using assms(2) waits(5) by simp
  qed (use assms(2) in simp)
qed

lemma process_talks:
  assumes "process w c = Some r" "conn_inv w c" "lawful_routes w" "sends_out (kernel w) c s0"
  shows "talking w c s0 r"
proof (rule iterate_rule [where I = "talking w c s0", OF assms(1) [unfolded process_def]])
  show "talking w c s0 (w, c, False)"
    using assms(2,4) parses.start transcript.nothing by (force simp: talking_def)
next
  fix s s' :: WriteState
  assume "talking w c s0 s" "Some (process_turn s) = Some (Again s')"
  then show "talking w c s0 s'" using assms(3) by (cases s; cases s') (auto intro: talking_again)
next
  fix s r :: WriteState
  assume "talking w c s0 s" "Some (process_turn s) = Some (Stop r)"
  then show "talking w c s0 r" by (cases s) (auto intro: talking_stop)
qed

section \<open>Properties\<close>


text \<open>A connection that has received a request.\<close>

definition sample_request :: string where
  "sample_request = ''GET / HTTP/1.1'' @ kCRLF @ ''Host: a'' @ kCRLF @ kCRLF"

definition asked_connection :: Connection where
  "asked_connection = (new_connection 7 default_limits 0 (\<lambda>_. SP))\<lparr>c_in :=
     \<lparr>bb_data = (\<lambda>i. sample_request ! i), bb_cap = 64, bb_rpos = 0, bb_wpos = length sample_request\<rparr>\<rparr>"

lemma asked_readable: "bb_inv (c_in asked_connection)" "readable (c_in asked_connection) = sample_request"
proof -
  show inv: "bb_inv (c_in asked_connection)"
    by (simp add: bb_inv_def asked_connection_def sample_request_def)
  show "readable (c_in asked_connection) = sample_request"
    unfolding readable_inv [OF inv] by (simp add: asked_connection_def map_nth)
qed

lemma demo_conn_inv:
  "conn_inv (demo_worker rts k) (new_connection fd default_limits now mem)"
  using conn_inv_new [of "demo_worker rts k" fd now mem] sample_limits by simp

lemma asked_conn_inv: "conn_inv (demo_worker rts k) asked_connection"
proof -
  have "length sample_request \<le> 27" by (simp add: sample_request_def)
  with demo_conn_inv [of rts k 7 0 "\<lambda>_. SP"] asked_readable show ?thesis
    unfolding conn_inv_def in_inv_def idle_parser_def out_inv_def source_inv_def
    by (simp add: asked_connection_def kReadSize_def)
qed


end
