(* ===== verification/Connection_Drive.thy ===== *)
theory Connection_Drive
  imports Connection_Process
begin

text \<open>
  \<^verbatim>\<open>Server::Worker::drive\<close> of \<^verbatim>\<open>src/src/server/server.cpp\<close>: reading, processing and writing until
  nothing makes progress. It returns, it keeps the invariant, and when it asks to wait for an event,
  the kernel owes the connection that event.
\<close>

section \<open>The loop\<close>

text \<open>The bytes a peer already sent are read and dropped before a close.\<close>

lemma sys_recv_shrinks:
  "sys_recv fd n k = (Received s, k') \<Longrightarrow> s \<noteq> [] \<Longrightarrow> 0 < n \<Longrightarrow> recv_weight (recvs k' fd) < recv_weight (recvs k fd)"
  by (rule sys_recv_ok [of fd n k "Received s" k']) simp_all

function drain_recv :: "int \<Rightarrow> Kernel \<Rightarrow> Kernel" where
  "drain_recv fd k =
     (case sys_recv fd 4096 k of
        (Received s, k') \<Rightarrow> if s \<noteq> [] then drain_recv fd k' else k'
      | (_, k') \<Rightarrow> k')"
  by pat_completeness auto
termination
  by (relation "measure (\<lambda>(fd, k). recv_weight (recvs k fd))") (auto dest: sys_recv_shrinks [OF sym])

declare drain_recv.simps [simp del]

type_synonym DriveState = "Worker \<times> Connection"
type_synonym DriveResult = "Worker \<times> Connection \<times> bool"

text \<open>What follows the loop.\<close>

definition drive_end :: "Worker \<Rightarrow> Connection \<Rightarrow> DriveResult" where
  "drive_end w c =
     (if has_output c then (w, c, True)
      else if close_after_write c then
        (w\<lparr>kernel := drain_recv (c_fd c) ((kernel w)\<lparr>fin_sent := (fin_sent (kernel w))(c_fd c := True)\<rparr>)\<rparr>, c, False)
      else (w, c, \<not> peer_closed c))"

definition wants_read :: "Worker \<Rightarrow> Connection \<Rightarrow> bool" where
  "wants_read w c \<longleftrightarrow>
     can_read c \<and> \<not> peer_closed c \<and> \<not> close_after_write c \<and> bb_size (c_in c) < max_in_buffer w"

text \<open>Reading and writing are skipped when they cannot do anything.\<close>

definition read_phase :: "Worker \<Rightarrow> Connection \<Rightarrow> IoResult option" where
  "read_phase w c = (if wants_read w c then do_read w c False else Some (w, c, False, True))"

definition write_phase :: "Worker \<Rightarrow> Connection \<Rightarrow> bool \<Rightarrow> IoResult option" where
  "write_phase w c progress =
     (if can_write c \<and> has_output c then do_write w c progress else Some (w, c, progress, True))"

definition drive_turn :: "DriveState \<Rightarrow> (DriveState, DriveResult) Step option" where
  "drive_turn = (\<lambda>(w, c).
     Option.bind (read_phase w c) (\<lambda>(w, c, progress, ok).
       if \<not> ok then Some (Stop (w, c, False))
       else Option.bind (process w c) (\<lambda>(w, c, p).
         Option.bind (write_phase w c (progress \<or> p)) (\<lambda>(w, c, progress, ok).
           Some (if \<not> ok then Stop (w, c, False)
                 else if progress then Again (w, c)
                 else Stop (drive_end w c))))))"

definition drive :: "Worker \<Rightarrow> Connection \<Rightarrow> DriveResult option" where
  "drive w c = iterate drive_turn (w, c)"

section \<open>The three phases of a turn\<close>

definition drive_fuel :: "Worker \<Rightarrow> Connection \<Rightarrow> nat" where
  "drive_fuel w c =
     waiting w c + input_fuel c + length (sends (kernel w) (c_fd c)) + of_bool (can_write c)"

definition awake :: "Worker \<Rightarrow> Worker \<Rightarrow> bool" where
  "awake w w' \<longleftrightarrow> w_limits w' = w_limits w \<and> max_in_buffer w' = max_in_buffer w \<and> w_routes w' = w_routes w \<and>
     draining w' = draining w \<and> now_us w' = now_us w \<and> conns w' = conns w \<and>
     file_bytes (kernel w') = file_bytes (kernel w)"

lemma awake_trans: "awake w w1 \<Longrightarrow> awake w1 w2 \<Longrightarrow> awake w w2"
  by (simp add: awake_def)

lemma awake_refl [simp]: "awake w w"
  by (simp add: awake_def)

lemma heard_conn_inv:
  assumes "heard w c data w' c'" "in_inv w' c'" "conn_inv w c"
  shows "conn_inv w' c'" "awake w w'" "input_fuel c' = input_fuel c + 4 * length data"
    "sends (kernel w') = sends (kernel w)" "c_fd c' = c_fd c" "can_write c' = can_write c"
    "close_after_write c' = close_after_write c" "has_output c' = has_output c"
proof -
  obtain b t r e where c': "c' = c\<lparr>c_in := b, last_active_us := t, can_read := r, peer_closed := e\<rparr>"
    and rd: "readable (c_in c') = readable (c_in c) @ data"
    using assms(1) unfolding heard_def by blast
  obtain rs m where w': "w' = w\<lparr>kernel := (kernel w)\<lparr>recvs := (recvs (kernel w))(c_fd c := rs)\<rparr>, metrics := m\<rparr>"
    using assms(1) unfolding heard_def by blast
  show "conn_inv w' c'" "awake w w'" "sends (kernel w') = sends (kernel w)" "c_fd c' = c_fd c"
    "can_write c' = can_write c" "close_after_write c' = close_after_write c" "has_output c' = has_output c"
    using assms(2,3) unfolding w' c'
    by (simp_all add: conn_inv_def idle_parser_def out_inv_def source_inv_def awake_def has_output_def
        out_pending_def body_source_active_def)
  show "input_fuel c' = input_fuel c + 4 * length data" using rd unfolding c' by (simp add: input_fuel_def)
qed

lemma wrote_conn_inv:
  assumes "turn_keeps w c w' c'" "conn_inv w c" "failed (c_parser c) \<longrightarrow> close_after_write c"
  shows "conn_inv w' c'" "awake w w'" "recvs (kernel w') = recvs (kernel w)" "c_fd c' = c_fd c"
    "c_in c' = c_in c" "continue_sent c' = continue_sent c" "close_after_write c \<longrightarrow> close_after_write c'"
    "can_read c' = can_read c" "peer_closed c' = peer_closed c"
proof -
  obtain rs data m where w': "w' = (accepted w (c_fd c) data rs)\<lparr>metrics := m\<rparr>"
    using assms(1) unfolding turn_keeps_def wrote_def by blast
  have c': "c_fd c' = c_fd c" "c_in c' = c_in c" "c_parser c' = c_parser c" "can_read c' = can_read c"
      "peer_closed c' = peer_closed c" "continue_sent c' = continue_sent c"
      "close_after_write c \<longrightarrow> close_after_write c'" "out_inv c'" "source_inv c'"
    using assms(1) by (simp_all add: turn_keeps_def wrote_def)
  show "conn_inv w' c'" using c' assms(2,3) unfolding w' by (simp add: conn_inv_def in_inv_def idle_parser_def accepted_def)
  show "awake w w'" "recvs (kernel w') = recvs (kernel w)" unfolding w' by (simp_all add: awake_def accepted_def)
  show "c_fd c' = c_fd c" "c_in c' = c_in c" "continue_sent c' = continue_sent c"
    "close_after_write c \<longrightarrow> close_after_write c'" "can_read c' = can_read c" "peer_closed c' = peer_closed c"
    using c' by simp_all
qed

lemma answered_conn_inv:
  assumes "answered w c (w', c', p')"
  shows "conn_inv w' c'" "awake w w'" "recvs (kernel w') = recvs (kernel w)" "sends (kernel w') = sends (kernel w)"
    "c_fd c' = c_fd c" "can_read c' = can_read c" "can_write c' = can_write c" "peer_closed c' = peer_closed c"
  using assms same_worldD [of w w'] by (auto simp: answered_def conversing_def awake_def)

lemma read_phase_ok:
  assumes "conn_inv w c"
  obtains w' c' p' ok data where "read_phase w c = Some (w', c', p', ok)" "conn_inv w' c'" "awake w w'"
    "heard w c data w' c'" "drive_fuel w' c' + of_bool p' \<le> drive_fuel w c" "has_output c' = has_output c"
    "\<not> p' \<Longrightarrow> readable (c_in c') = readable (c_in c) \<and> peer_closed c' = peer_closed c"
    "close_after_write c' = close_after_write c" "c_fd c' = c_fd c"
    "ok \<Longrightarrow> \<not> peer_closed c' \<Longrightarrow> \<not> close_after_write c' \<Longrightarrow> can_read c' \<Longrightarrow> max_in_buffer w \<le> length (readable (c_in c'))"
proof (cases "wants_read w c")
  case True
  have inv: "in_inv w c" using assms by (simp add: conn_inv_def)
  obtain w' c' p' ok where r: "do_read w c False = Some (w', c', p', ok)" using do_read_returns [OF inv, of False] by auto
  obtain data where d: "heard w c data w' c'" "in_inv w' c'"
      "if p' then waiting w' c + 4 * length data < waiting w c else data = [] \<and> peer_closed c' = peer_closed c"
      "waiting w' c + 4 * length data \<le> waiting w c"
      "ok \<longrightarrow> \<not> can_read c' \<or> peer_closed c' \<or> max_in_buffer w \<le> length (readable (c_in c'))"
    using do_read_ok [OF r inv] by (auto simp: read_done_def split: if_splits)
  note h = heard_conn_inv [OF d(1,2) assms]
  have "drive_fuel w' c' + of_bool p' \<le> drive_fuel w c"
    using d(3,4) h by (auto simp: drive_fuel_def split: if_splits)
  moreover have "\<not> p' \<Longrightarrow> readable (c_in c') = readable (c_in c)" using d(1,3) by (simp add: heard_def)
  ultimately show ?thesis
    by (intro that [of w' c' p' ok data]) (use r True d h in \<open>auto simp: read_phase_def split: if_splits\<close>)
next
  case False
  have sz: "bb_size (c_in c) = length (readable (c_in c))"
    using assms length_readable [of "c_in c"] by (simp add: conn_inv_def in_inv_def bb_size_def bb_inv_def)
  show ?thesis
    by (rule that [of w c False True "[]"])
      (use False assms sz heard_refl in \<open>auto simp: read_phase_def wants_read_def\<close>)
qed

lemma process_phase_ok:
  assumes "conn_inv w c"
  obtains w' c' p' where "process w c = Some (w', c', p')" "conn_inv w' c'" "awake w w'" "answered w c (w', c', p')"
    "drive_fuel w' c' + of_bool p' \<le> drive_fuel w c" "\<not> p' \<Longrightarrow> nothing_to_do w c c'" "can_read c' = can_read c"
    "peer_closed c' = peer_closed c" "c_fd c' = c_fd c"
proof -
  obtain w' c' p' where r: "process w c = Some (w', c', p')" using process_returns [OF assms] by auto
  note a = process_answers [OF r assms] and prog = process_progress [OF r assms]
  note i = answered_conn_inv [OF a]
  show ?thesis
    by (rule that [OF r i(1,2) a]) (use i prog in \<open>auto simp: drive_fuel_def split: if_splits\<close>)
qed

lemma drive_fuel_mono:
  assumes "recvs (kernel w') = recvs (kernel w)" "c_fd c' = c_fd c" "c_in c' = c_in c"
    "continue_sent c' = continue_sent c" "close_after_write c \<longrightarrow> close_after_write c'"
  shows "drive_fuel w' c' + write_fuel w c \<le> drive_fuel w c + write_fuel w' c'"
proof -
  have "of_bool (\<not> close_after_write c') \<le> (of_bool (\<not> close_after_write c) :: nat)" using assms(5) by auto
  then show ?thesis by (simp add: drive_fuel_def write_fuel_def input_fuel_def assms(1-4))
qed

lemma write_phase_ok:
  assumes "conn_inv w c"
  obtains w' c' p' ok where "write_phase w c p = Some (w', c', p', ok)" "conn_inv w' c'" "awake w w'"
    "turn_keeps w c w' c'" "ok \<Longrightarrow> p' \<Longrightarrow> \<not> p \<Longrightarrow> drive_fuel w' c' < drive_fuel w c"
    "ok \<Longrightarrow> drive_fuel w' c' \<le> drive_fuel w c" "p' \<or> \<not> p \<and> quiet c c'"
    "ok \<Longrightarrow> \<not> can_write c' \<or> \<not> has_output c'" "can_read c' = can_read c" "peer_closed c' = peer_closed c"
    "c_in c' = c_in c" "close_after_write c \<Longrightarrow> close_after_write c'" "c_fd c' = c_fd c"
proof (cases "can_write c \<and> has_output c")
  case True
  have inv: "out_inv c" "source_inv c" "failed (c_parser c) \<longrightarrow> close_after_write c"
    using assms by (simp_all add: conn_inv_def idle_parser_def)
  obtain w' c' p' ok where r: "do_write w c p = Some (w', c', p', ok)"
    using do_write_returns [OF inv(1,2), of w p] by (metis not_None_eq prod_cases4)
  have k: "turn_keeps w c w' c'" "ok \<longrightarrow> \<not> can_write c' \<or> \<not> has_output c'"
      "ok \<and> p' \<longrightarrow> p \<or> write_fuel w' c' < write_fuel w c" "ok \<longrightarrow> write_fuel w' c' \<le> write_fuel w c"
      "p' \<or> \<not> p \<and> quiet c c'"
    using do_write_keeps [OF r inv(1,2)] by blast+
  note i = wrote_conn_inv [OF k(1) assms inv(3)]
  have fuel: "write_fuel w' c' \<le> write_fuel w c \<Longrightarrow> drive_fuel w' c' \<le> drive_fuel w c"
    "write_fuel w' c' < write_fuel w c \<Longrightarrow> drive_fuel w' c' < drive_fuel w c"
    using drive_fuel_mono [OF i(3-7)] by simp_all
  show ?thesis
  proof (rule that [OF _ i(1,2) k(1) _ _ k(5) _ i(8,9,5) _ i(4)])
    show "write_phase w c p = Some (w', c', p', ok)" using r True by (simp add: write_phase_def)
  qed (use k(2-4) fuel i(7) in auto)
next
  case False
  have "turn_keeps w c w c" using assms by (simp add: turn_keeps_def conn_inv_def wrote_refl)
  with False show ?thesis
    by (intro that [of w c p True]) (use assms in \<open>auto simp: write_phase_def\<close>)
qed

lemma drive_turn_ok:
  assumes "conn_inv w c"
  obtains (broken) w' c' data where "drive_turn (w, c) = Some (Stop (w', c', False))" "conn_inv w' c'" "awake w w'"
      "heard w c data w' c'"
  | (phases) w1 c1 p1 data w2 c2 p2 w3 c3 p3 ok where
      "read_phase w c = Some (w1, c1, p1, True)" "process w1 c1 = Some (w2, c2, p2)"
      "write_phase w2 c2 (p1 \<or> p2) = Some (w3, c3, p3, ok)" "heard w c data w1 c1"
      "conn_inv w1 c1" "conn_inv w2 c2" "conn_inv w3 c3" "awake w w3" "c_fd c3 = c_fd c"
      "drive_turn (w, c) = Some (if \<not> ok then Stop (w3, c3, False) else if p3 then Again (w3, c3) else Stop (drive_end w3 c3))"
      "ok \<Longrightarrow> p3 \<Longrightarrow> drive_fuel w3 c3 < drive_fuel w c"
proof (rule read_phase_ok [OF assms])
  fix w1 c1 p1 ok1 data
  assume r: "read_phase w c = Some (w1, c1, p1, ok1)" "conn_inv w1 c1" "awake w w1" "heard w c data w1 c1"
    "drive_fuel w1 c1 + of_bool p1 \<le> drive_fuel w c" "c_fd c1 = c_fd c"
  show ?thesis
  proof (cases ok1)
    case False
    show ?thesis by (rule broken [OF _ r(2,3,4)]) (use r(1) False in \<open>simp add: drive_turn_def\<close>)
  next
    case True
    show ?thesis
    proof (rule process_phase_ok [OF r(2)])
      fix w2 c2 p2
      assume p: "process w1 c1 = Some (w2, c2, p2)" "conn_inv w2 c2" "awake w1 w2"
        "drive_fuel w2 c2 + of_bool p2 \<le> drive_fuel w1 c1" "c_fd c2 = c_fd c1"
      show ?thesis
      proof (rule write_phase_ok [OF p(2), of "p1 \<or> p2"])
        fix w3 c3 p3 ok
        assume t: "write_phase w2 c2 (p1 \<or> p2) = Some (w3, c3, p3, ok)" "conn_inv w3 c3" "awake w2 w3" "c_fd c3 = c_fd c2"
          and fuel: "ok \<Longrightarrow> p3 \<Longrightarrow> \<not> (p1 \<or> p2) \<Longrightarrow> drive_fuel w3 c3 < drive_fuel w2 c2"
            "ok \<Longrightarrow> drive_fuel w3 c3 \<le> drive_fuel w2 c2"
        have "awake w w3" using r(3) p(3) t(3) awake_trans by blast
        moreover have "drive_fuel w3 c3 < drive_fuel w c" if "ok" "p3"
          using that fuel r(5) p(4) by (cases p1; cases p2) auto
        ultimately show ?thesis
          using r True p t by (intro phases [of w1 c1 p1 w2 c2 p2 w3 c3 p3 ok]) (simp_all add: drive_turn_def)
      qed
    qed
  qed
qed

definition drive_inv :: "DriveState \<Rightarrow> bool" where
  "drive_inv = (\<lambda>(w, c). conn_inv w c)"

lemma drive_turn_Again:
  assumes "conn_inv w c" "drive_turn (w, c) = Some (Again (w', c'))"
  shows "conn_inv w' c' \<and> awake w w' \<and> drive_fuel w' c' < drive_fuel w c"
proof (rule drive_turn_ok [OF assms(1)])
  fix w3 c3 p3 ok
  assume t: "conn_inv w3 c3" "awake w w3"
    "drive_turn (w, c) = Some (if \<not> ok then Stop (w3, c3, False) else if p3 then Again (w3, c3) else Stop (drive_end w3 c3))"
    and fuel: "ok \<Longrightarrow> p3 \<Longrightarrow> drive_fuel w3 c3 < drive_fuel w c"
  have "ok" "p3" "w3 = w'" "c3 = c'" using t(3) assms(2) by (simp_all split: if_splits)
  with t fuel show ?thesis by simp
qed (use assms(2) in simp)

interpretation driving: bounded_loop drive_turn drive_inv "\<lambda>(w, c). drive_fuel w c"
proof
  fix s s' :: DriveState
  obtain w c w' c' where s: "s = (w, c)" "s' = (w', c')" by (cases s; cases s')
  assume "drive_inv s"
  then have inv: "conn_inv w c" by (simp add: s drive_inv_def)
  show "drive_turn s \<noteq> None" unfolding s by (rule drive_turn_ok [OF inv]) simp_all
  assume "drive_turn s = Some (Again s')"
  with drive_turn_Again [OF inv, of w' c']
  show "drive_inv s'" "(case s' of (w, c) \<Rightarrow> drive_fuel w c) < (case s of (w, c) \<Rightarrow> drive_fuel w c)"
    by (simp_all add: s drive_inv_def)
qed

lemma drive_returns: "conn_inv w c \<Longrightarrow> drive w c \<noteq> None"
  unfolding drive_def by (rule driving.loop_returns) (simp add: drive_inv_def)

section \<open>No event is missed\<close>

text \<open>A connection waits for the right thing: for room in the socket while it has output, for input
  otherwise. The sockets are edge-triggered, so an event comes only for what was exhausted.\<close>

definition awaits_event :: "Connection \<Rightarrow> bool" where
  "awaits_event c \<longleftrightarrow> (if has_output c then \<not> can_write c else \<not> can_read c)"

lemma quietD:
  assumes "quiet c c'"
  shows "has_output c' = has_output c" "close_after_write c' = close_after_write c" "can_read c' = can_read c"
    "peer_closed c' = peer_closed c" "c_in c' = c_in c"
  using assms by (auto simp: quiet_def has_output_def out_pending_def body_source_active_def)

lemma stuck_input:
  assumes "nothing_to_do w c c'" "\<not> has_output c'" "\<not> close_after_write c'" "tail_bound (w_limits w) < n"
    and "n \<le> length (readable (c_in c))"
  shows False
proof -
  have "\<not> may_process c" "c' = c" using assms(1,4,5) by (auto simp: nothing_to_do_def)
  with assms(2-5) show False
    by (auto simp: may_process_def has_output_def kOutHighWater_def)
qed

lemma drive_turn_awaits:
  assumes inv: "conn_inv w c" and tail: "tail_bound (w_limits w) < max_in_buffer w"
    and stop: "drive_turn (w, c) = Some (Stop (w', c', True))"
  shows "awaits_event c'"
proof -
  obtain w1 c1 p1 ok1 data where r: "read_phase w c = Some (w1, c1, p1, ok1)" "conn_inv w1 c1" "awake w w1"
      "\<not> p1 \<Longrightarrow> readable (c_in c1) = readable (c_in c) \<and> peer_closed c1 = peer_closed c"
      "ok1 \<Longrightarrow> \<not> peer_closed c1 \<Longrightarrow> \<not> close_after_write c1 \<Longrightarrow> can_read c1 \<Longrightarrow>
        max_in_buffer w \<le> length (readable (c_in c1))"
    by (rule read_phase_ok [OF inv]) blast
  have ok1: "ok1" using stop r(1) by (cases ok1) (simp_all add: drive_turn_def)
  obtain w2 c2 p2 where p: "process w1 c1 = Some (w2, c2, p2)" "conn_inv w2 c2"
      "\<not> p2 \<Longrightarrow> nothing_to_do w1 c1 c2" "can_read c2 = can_read c1" "peer_closed c2 = peer_closed c1"
    by (rule process_phase_ok [OF r(2)]) blast
  obtain w3 c3 p3 ok3 where t: "write_phase w2 c2 (p1 \<or> p2) = Some (w3, c3, p3, ok3)"
      "p3 \<or> \<not> (p1 \<or> p2) \<and> quiet c2 c3" "ok3 \<Longrightarrow> \<not> can_write c3 \<or> \<not> has_output c3"
    by (rule write_phase_ok [OF p(2), of "p1 \<or> p2"]) blast
  have step: "(if \<not> ok3 then Stop (w3, c3, False) else if p3 then Again (w3, c3) else Stop (drive_end w3 c3)) =
      Stop (w', c', True)"
    using stop r(1) ok1 p(1) t(1) by (simp add: drive_turn_def)
  then have ok3: "ok3" and p3: "\<not> p3" and e: "drive_end w3 c3 = (w', c', True)" by (auto split: if_splits)
  have c': "c' = c3" "has_output c3 \<or> \<not> close_after_write c3 \<and> \<not> peer_closed c3"
    using e by (auto simp: drive_end_def split: if_splits)
  have q: "quiet c2 c3" and np: "\<not> p1" "\<not> p2" using t(2) p3 by auto
  show ?thesis
  proof (cases "has_output c3")
    case True
    then show ?thesis using t(3) ok3 c' by (simp add: awaits_event_def)
  next
    case False
    have "\<not> can_read c3"
    proof
      assume "can_read c3"
      note ntd = p(3) [OF np(2)]
      have c2: "\<not> has_output c2" "\<not> close_after_write c2" "\<not> peer_closed c2" "can_read c2"
        using False c'(2) \<open>can_read c3\<close> quietD [OF q] by simp_all
      have "\<not> close_after_write c1" using ntd c2(2) by (auto simp: nothing_to_do_def)
      then have "max_in_buffer w \<le> length (readable (c_in c1))"
        using r(5) ok1 c2 p(4,5) by simp
      then show False
        using stuck_input [OF ntd c2(1,2), of "max_in_buffer w"] tail r(3) by (simp add: awake_def)
    qed
    then show ?thesis using False c' by (simp add: awaits_event_def)
  qed
qed

section \<open>The conversation\<close>

lemma drain_recv_drops:
  "\<exists>rs dropped. drain_recv fd k = k\<lparr>recvs := (recvs k)(fd := rs)\<rparr> \<and> recv_text (recvs k fd) = dropped @ recv_text rs"
proof (induction fd k rule: drain_recv.induct)
  case (1 fd k)
  obtain r k' where rk: "sys_recv fd 4096 k = (r, k')" by fastforce
  have "(0 :: nat) < 4096" by simp
  with rk obtain rs data where rs: "k' = k\<lparr>recvs := (recvs k)(fd := rs)\<rparr>" "recv_text (recvs k fd) = data @ recv_text rs"
    by (rule sys_recv_ok)
  show ?case
  proof (cases "\<exists>s. r = Received s \<and> s \<noteq> []")
    case True
    then obtain s where s: "r = Received s" "s \<noteq> []" by blast
    with "1.IH" [OF rk [symmetric] s(1) s(2)] obtain rs' dropped where
      "drain_recv fd k' = k'\<lparr>recvs := (recvs k')(fd := rs')\<rparr>" "recv_text (recvs k' fd) = dropped @ recv_text rs'"
      by blast
    moreover have "drain_recv fd k = drain_recv fd k'" using rk s by (simp add: drain_recv.simps [of fd k])
    moreover have "k'\<lparr>recvs := (recvs k')(fd := rs')\<rparr> = k\<lparr>recvs := (recvs k)(fd := rs')\<rparr>" by (simp add: rs(1))
    moreover have "recv_text (recvs k fd) = (data @ dropped) @ recv_text rs'" using calculation(2) rs by simp
    ultimately show ?thesis by metis
  next
    case False
    then have "drain_recv fd k = k'" using rk by (auto simp: drain_recv.simps [of fd k] split: RecvResult.split)
    with rs show ?thesis by blast
  qed
qed

definition converses :: "Worker \<Rightarrow> Connection \<Rightarrow> string \<Rightarrow> DriveState \<Rightarrow> bool" where
  "converses w c s0 = (\<lambda>(w', c'). \<exists>data evs out. conn_inv w' c' \<and> awake w w' \<and>
     recv_text (recvs (kernel w) (c_fd c)) = data @ recv_text (recvs (kernel w') (c_fd c)) \<and>
     parses (c_parser c) (readable (c_in c) @ data) evs (c_parser c') (readable (c_in c')) \<and>
     transcript w evs out \<and> delivers (c_fd c) (wire (kernel w) (c_fd c) @ s0 @ out) w' c')"

lemma whole_reply_awake: "awake w w' \<Longrightarrow> whole_reply w' = whole_reply w"
  by (rule whole_reply_cong) (simp_all add: awake_def)

lemma lawful_awake: "awake w w' \<Longrightarrow> lawful_routes w' = lawful_routes w"
  using body_text_files [of "kernel w'" "kernel w"] by (simp add: awake_def lawful_routes_def reply_options_def)

lemma sends_out_heard:
  "file_bytes k' = file_bytes k \<Longrightarrow>
     sends_out k' (c\<lparr>c_in := b, last_active_us := t, can_read := r, peer_closed := e\<rparr>) s = sends_out k c s"
  by (simp add: sends_out_def sends_body_def pending_def split: option.split)

lemma converses_read:
  assumes "converses w c s0 (w1, c1)" "heard w1 c1 more_data w2 c2" "conn_inv w2 c2" "awake w1 w2"
  shows "converses w c s0 (w2, c2)"
proof -
  obtain data evs out where e: "awake w w1" "recv_text (recvs (kernel w) (c_fd c)) = data @ recv_text (recvs (kernel w1) (c_fd c))"
      "parses (c_parser c) (readable (c_in c) @ data) evs (c_parser c1) (readable (c_in c1))"
      "transcript w evs out" "delivers (c_fd c) (wire (kernel w) (c_fd c) @ s0 @ out) w1 c1"
    using assms(1) by (auto simp: converses_def)
  have fd: "c_fd c1 = c_fd c" using e(5) by (simp add: delivers_def)
  obtain b t r x where c2: "c2 = c1\<lparr>c_in := b, last_active_us := t, can_read := r, peer_closed := x\<rparr>"
      "readable (c_in c2) = readable (c_in c1) @ more_data"
    using assms(2) unfolding heard_def by blast
  obtain rs m where w2: "w2 = w1\<lparr>kernel := (kernel w1)\<lparr>recvs := (recvs (kernel w1))(c_fd c1 := rs)\<rparr>, metrics := m\<rparr>"
      "recv_text (recvs (kernel w1) (c_fd c1)) = more_data @ recv_text rs"
    using assms(2) unfolding heard_def by blast
  have "parses (c_parser c) (readable (c_in c) @ data @ more_data) evs (c_parser c2) (readable (c_in c2))"
    using parses_more [OF e(3), of more_data] c2 by simp
  moreover have "recv_text (recvs (kernel w) (c_fd c)) = (data @ more_data) @ recv_text (recvs (kernel w2) (c_fd c))"
    using e(2) w2 fd by simp
  moreover have "delivers (c_fd c) (wire (kernel w) (c_fd c) @ s0 @ out) w2 c2"
    using e(5) sends_out_heard [of "kernel w2" "kernel w1"] by (simp add: delivers_def c2(1) w2(1))
  ultimately show ?thesis
    using assms(3) awake_trans [OF e(1) assms(4)] e(4) unfolding converses_def prod.case by blast
qed

lemma converses_process:
  assumes "converses w c s0 (w1, c1)" "process w1 c1 = Some (w2, c2, p)" "lawful_routes w"
  shows "converses w c s0 (w2, c2)"
proof -
  obtain data evs out where e: "conn_inv w1 c1" "awake w w1"
      "recv_text (recvs (kernel w) (c_fd c)) = data @ recv_text (recvs (kernel w1) (c_fd c))"
      "parses (c_parser c) (readable (c_in c) @ data) evs (c_parser c1) (readable (c_in c1))"
      "transcript w evs out" "delivers (c_fd c) (wire (kernel w) (c_fd c) @ s0 @ out) w1 c1"
    using assms(1) by (auto simp: converses_def)
  obtain s1 where s1: "sends_out (kernel w1) c1 s1" "wire (kernel w1) (c_fd c) @ s1 = wire (kernel w) (c_fd c) @ s0 @ out"
      "c_fd c1 = c_fd c"
    using e(6) by (auto simp: delivers_def)
  have "lawful_routes w1" using assms(3) lawful_awake [OF e(2)] by simp
  from process_talks [OF assms(2) e(1) this s1(1)] obtain evs' out' where t: "conn_inv w2 c2" "same_world w1 w2"
      "parses (c_parser c1) (readable (c_in c1)) evs' (c_parser c2) (readable (c_in c2))"
      "transcript w1 evs' out'" "sends_out (kernel w2) c2 (s1 @ out')"
    by (auto simp: talking_def)
  have "c_fd c2 = c_fd c1" using process_answers [OF assms(2) e(1)] by (auto simp: answered_def)
  moreover have "wire (kernel w2) (c_fd c) @ s1 @ out' = wire (kernel w) (c_fd c) @ s0 @ out @ out'"
    using s1(2) same_worldD(9) [OF t(2)] by simp
  ultimately have "delivers (c_fd c) (wire (kernel w) (c_fd c) @ s0 @ out @ out') w2 c2"
    using t(5) s1(3) unfolding delivers_def by (metis (no_types, lifting))
  moreover have "transcript w (evs @ evs') (out @ out')"
    using transcript_append [OF transcript_cong [OF whole_reply_awake [OF e(2)] t(4)] e(5)] .
  moreover have "recv_text (recvs (kernel w) (c_fd c)) = data @ recv_text (recvs (kernel w2) (c_fd c))"
    using e(3) same_worldD(7) [OF t(2)] by simp
  moreover have "awake w w2" using e(2) same_worldD [OF t(2)] by (simp add: awake_def)
  ultimately show ?thesis
    using t(1) parses_trans [OF t(3) e(4)] unfolding converses_def prod.case by blast
qed

lemma converses_write:
  assumes "converses w c s0 (w1, c1)" "write_phase w1 c1 p = Some (w2, c2, p2, ok)"
  shows "converses w c s0 (w2, c2)"
proof -
  obtain data evs out where e: "conn_inv w1 c1" "awake w w1"
      "recv_text (recvs (kernel w) (c_fd c)) = data @ recv_text (recvs (kernel w1) (c_fd c))"
      "parses (c_parser c) (readable (c_in c) @ data) evs (c_parser c1) (readable (c_in c1))"
      "transcript w evs out" "delivers (c_fd c) (wire (kernel w) (c_fd c) @ s0 @ out) w1 c1"
    using assms(1) by (auto simp: converses_def)
  show ?thesis
  proof (cases "can_write c1 \<and> has_output c1")
    case True
    then have r: "do_write w1 c1 p = Some (w2, c2, p2, ok)" using assms(2) by (simp add: write_phase_def)
    have inv: "out_inv c1" "source_inv c1" "failed (c_parser c1) \<longrightarrow> close_after_write c1"
      using e(1) by (simp_all add: conn_inv_def idle_parser_def)
    have k: "turn_keeps w1 c1 w2 c2" using do_write_keeps [OF r inv(1,2)] by blast
    note i = wrote_conn_inv [OF k e(1) inv(3)]
    have "c_parser c2 = c_parser c1" using k by (simp add: turn_keeps_def wrote_def)
    with e do_write_delivers [OF r inv(1,2) e(6)] i(1,3,5) awake_trans [OF e(2) i(2)] show ?thesis
      unfolding converses_def by auto
  next
    case False
    with assms show ?thesis by (simp add: write_phase_def split: if_splits)
  qed
qed

text \<open>After the loop, the answer of \<^verbatim>\<open>drive\<close>: what it dropped of the input is not part of the
  conversation, and only a connection that is to be closed drops anything.\<close>

definition conversed :: "Worker \<Rightarrow> Connection \<Rightarrow> string \<Rightarrow> DriveResult \<Rightarrow> bool" where
  "conversed w c s0 = (\<lambda>(w', c', ok). \<exists>data dropped evs out. conn_inv w' c' \<and> awake w w' \<and>
     recv_text (recvs (kernel w) (c_fd c)) = data @ dropped @ recv_text (recvs (kernel w') (c_fd c)) \<and>
     (ok \<longrightarrow> dropped = []) \<and>
     parses (c_parser c) (readable (c_in c) @ data) evs (c_parser c') (readable (c_in c')) \<and>
     transcript w evs out \<and> delivers (c_fd c) (wire (kernel w) (c_fd c) @ s0 @ out) w' c')"

lemma converses_end:
  assumes "converses w c s0 (w1, c1)"
  shows "conversed w c s0 (w1, c1, ok)" "conversed w c s0 (drive_end w1 c1)"
proof -
  obtain data evs out where e: "conn_inv w1 c1" "awake w w1"
      "recv_text (recvs (kernel w) (c_fd c)) = data @ recv_text (recvs (kernel w1) (c_fd c))"
      "parses (c_parser c) (readable (c_in c) @ data) evs (c_parser c1) (readable (c_in c1))"
      "transcript w evs out" "delivers (c_fd c) (wire (kernel w) (c_fd c) @ s0 @ out) w1 c1"
    using assms by (auto simp: converses_def)
  have same: "conversed w c s0 (w1, c1, ok)" for ok
    unfolding conversed_def prod.case
    by (rule exI [of _ data], rule exI [of _ "[]"], rule exI [of _ evs], rule exI [of _ out]) (use e in simp)
  then show "conversed w c s0 (w1, c1, ok)" .
  show "conversed w c s0 (drive_end w1 c1)"
  proof (cases "has_output c1 \<or> \<not> close_after_write c1")
    case True
    then show ?thesis using same by (auto simp: drive_end_def)
  next
    case False
    let ?k = "(kernel w1)\<lparr>fin_sent := (fin_sent (kernel w1))(c_fd c1 := True)\<rparr>"
    obtain rs dropped where d: "drain_recv (c_fd c1) ?k = ?k\<lparr>recvs := (recvs ?k)(c_fd c1 := rs)\<rparr>"
        "recv_text (recvs ?k (c_fd c1)) = dropped @ recv_text rs"
      using drain_recv_drops [of "c_fd c1" ?k] by blast
    have fd: "c_fd c1 = c_fd c" using e(6) by (simp add: delivers_def)
    let ?w = "w1\<lparr>kernel := ?k\<lparr>recvs := (recvs ?k)(c_fd c1 := rs)\<rparr>\<rparr>"
    have "drive_end w1 c1 = (?w, c1, False)" using False d(1) by (simp add: drive_end_def)
    moreover have "sends_out (kernel ?w) c1 s = sends_out (kernel w1) c1 s" for s
      by (simp add: sends_out_def sends_body_def split: option.split)
    then have "delivers (c_fd c) (wire (kernel w) (c_fd c) @ s0 @ out) ?w c1" using e(6) by (simp add: delivers_def)
    moreover have "conn_inv ?w c1" using e(1) by (simp add: conn_inv_def in_inv_def idle_parser_def)
    moreover have "awake w ?w" using e(2) by (simp add: awake_def)
    moreover have "recv_text (recvs (kernel w) (c_fd c)) = data @ dropped @ recv_text (recvs (kernel ?w) (c_fd c))"
      using e(3) d(2) fd by simp
    ultimately show ?thesis
      unfolding conversed_def using e(4,5)
      by (simp only: prod.case) (intro exI [of _ data] exI [of _ dropped] exI [of _ evs] exI [of _ out], simp)
  qed
qed

lemma drive_turn_converses:
  assumes I: "converses w c s0 (w0, c0)" and "lawful_routes w" and "drive_turn (w0, c0) = Some x"
  shows "case x of Again s \<Rightarrow> converses w c s0 s | Stop r \<Rightarrow> conversed w c s0 r"
proof -
  have inv: "conn_inv w0 c0" using I by (auto simp: converses_def)
  show ?thesis
  proof (rule drive_turn_ok [OF inv])
    fix w' c' data
    assume "drive_turn (w0, c0) = Some (Stop (w', c', False))" "conn_inv w' c'" "awake w0 w'" "heard w0 c0 data w' c'"
    then show ?thesis using converses_end(1) [OF converses_read [OF I]] assms(3) by auto
  next
    fix w1 c1 p1 data w2 c2 p2 w3 c3 p3 ok
    assume ph: "process w1 c1 = Some (w2, c2, p2)" "write_phase w2 c2 (p1 \<or> p2) = Some (w3, c3, p3, ok)"
      "heard w0 c0 data w1 c1" "conn_inv w1 c1"
      "drive_turn (w0, c0) = Some (if \<not> ok then Stop (w3, c3, False) else if p3 then Again (w3, c3) else Stop (drive_end w3 c3))"
    have "awake w0 w1" using heard_conn_inv(2) [OF ph(3) _ inv] ph(4) by (simp add: conn_inv_def)
    then have "converses w c s0 (w3, c3)"
      using converses_write [OF converses_process [OF converses_read [OF I ph(3,4)] ph(1) assms(2)] ph(2)] by simp
    with converses_end [of w c s0 w3 c3] show ?thesis using ph(5) assms(3) by (simp split: if_splits)
  qed
qed

lemma drive_converses:
  assumes "drive w c = Some r" "conn_inv w c" "lawful_routes w" "sends_out (kernel w) c s0"
  shows "conversed w c s0 r"
proof (rule iterate_rule [where I = "converses w c s0", OF assms(1) [unfolded drive_def]])
  show "converses w c s0 (w, c)"
    unfolding converses_def prod.case
    by (rule exI [of _ "[]"], rule exI [of _ "[]"], rule exI [of _ "[]"])
      (use assms(2,4) parses.start transcript.nothing in \<open>auto simp: delivers_def\<close>)
next
  fix s s' :: DriveState
  assume "converses w c s0 s" "drive_turn s = Some (Again s')"
  then show "converses w c s0 s'" using drive_turn_converses [OF _ assms(3)] by (cases s) fastforce
next
  fix s :: DriveState and r
  assume "converses w c s0 s" "drive_turn s = Some (Stop r)"
  then show "conversed w c s0 r" using drive_turn_converses [OF _ assms(3)] by (cases s) fastforce
qed

section \<open>Properties\<close>

lemma drive_awaits:
  assumes "drive w c = Some (w', c', ok)" "conn_inv w c" "tail_bound (w_limits w) < max_in_buffer w"
  shows "ok \<Longrightarrow> awaits_event c'"
proof -
  let ?I = "\<lambda>(w1, c1). conn_inv w1 c1 \<and> awake w w1"
  let ?R = "\<lambda>(w', c', ok). ok \<longrightarrow> awaits_event c'"
  have "?R (w', c', ok)"
  proof (rule iterate_rule [where I = ?I and R = ?R, OF assms(1) [unfolded drive_def]])
    show "?I (w, c)" using assms(2) by simp
  next
    fix s s' :: DriveState
    assume I: "?I s" and t: "drive_turn s = Some (Again s')"
    obtain w1 c1 w2 c2 where s: "s = (w1, c1)" "s' = (w2, c2)" by (cases s; cases s')
    have "conn_inv w2 c2 \<and> awake w1 w2" using drive_turn_Again [of w1 c1 w2 c2] I t s by simp
    then show "?I s'" using I awake_trans [of w w1 w2] s by simp
  next
    fix s :: DriveState and r
    assume I: "?I s" and t: "drive_turn s = Some (Stop r)"
    obtain w1 c1 w2 c2 ok2 where s: "s = (w1, c1)" "r = (w2, c2, ok2)" by (cases s; cases r)
    have "tail_bound (w_limits w1) < max_in_buffer w1" using I assms(3) s by (simp add: awake_def)
    then show "?R r" using drive_turn_awaits [of w1 c1 w2 c2] I t s by auto
  qed
  then show "ok \<Longrightarrow> awaits_event c'" by simp
qed


lemma demo_room: "tail_bound (w_limits (demo_worker rts k)) < max_in_buffer (demo_worker rts k)"
  by (simp add: tail_bound_def default_limits_def)


lemma drive_keeps:
  assumes "drive w c = Some (w', c', ok)" "conn_inv w c"
  shows "conn_inv w' c' \<and> awake w w'"
proof -
  let ?I = "\<lambda>(w1, c1). conn_inv w1 c1 \<and> awake w w1"
  let ?R = "\<lambda>(w', c', ok). conn_inv w' c' \<and> awake w w'"
  have fin: "?R (drive_end w1 c1)" if "conn_inv w1 c1" "awake w w1" for w1 c1
  proof -
    let ?k = "(kernel w1)\<lparr>fin_sent := (fin_sent (kernel w1))(c_fd c1 := True)\<rparr>"
    obtain rs where "drain_recv (c_fd c1) ?k = ?k\<lparr>recvs := (recvs ?k)(c_fd c1 := rs)\<rparr>"
      using drain_recv_drops [of "c_fd c1" ?k] by blast
    with that show ?thesis by (auto simp: drive_end_def conn_inv_def in_inv_def idle_parser_def awake_def)
  qed
  have "?R (w', c', ok)"
  proof (rule iterate_rule [where I = ?I and R = ?R, OF assms(1) [unfolded drive_def]])
    show "?I (w, c)" using assms(2) by simp
  next
    fix s s' :: DriveState
    assume I: "?I s" and t: "drive_turn s = Some (Again s')"
    obtain w1 c1 w2 c2 where s: "s = (w1, c1)" "s' = (w2, c2)" by (cases s; cases s')
    have "conn_inv w2 c2 \<and> awake w1 w2" using drive_turn_Again [of w1 c1 w2 c2] I t s by simp
    then show "?I s'" using I awake_trans [of w w1 w2] s by simp
  next
    fix s :: DriveState and r
    assume I: "?I s" and t: "drive_turn s = Some (Stop r)"
    obtain w1 c1 where s: "s = (w1, c1)" by (cases s)
    with I have inv: "conn_inv w1 c1" "awake w w1" by simp_all
    show "?R r"
    proof (rule drive_turn_ok [OF inv(1)])
      fix w2 c2 assume "drive_turn (w1, c1) = Some (Stop (w2, c2, False))" "conn_inv w2 c2" "awake w1 w2"
      then show ?thesis using t s awake_trans [OF inv(2)] by auto
    next
      fix w3 c3 p3 ok3
      assume "conn_inv w3 c3" "awake w1 w3"
        "drive_turn (w1, c1) = Some (if \<not> ok3 then Stop (w3, c3, False) else if p3 then Again (w3, c3) else Stop (drive_end w3 c3))"
      then show ?thesis using t s awake_trans [OF inv(2)] fin [of w3 c3] by (auto split: if_splits)
    qed
  qed
  then show ?thesis by simp
qed


lemma empty_routes_lawful: "lawful_routes (demo_worker [] k)"
proof -
  have "\<exists>b. body_text k' rq (router_dispatch [] rq new_response) opt b" for k' rq opt
    by (cases "has_body rq (router_dispatch [] rq new_response) opt")
      (simp_all add: body_text_def router_dispatch_def text_response_def new_response_def fd_valid_def)
  then show ?thesis by (simp add: lawful_routes_def)
qed


end
