(* ===== verification/Connection_Frame.thy ===== *)
theory Connection_Frame
  imports Connection_Drive
begin

text \<open>
  What driving a connection leaves alone: every other socket, every other connection, the
  configuration and the counters of the event loop. The worker uses it to see that an event of one
  connection does not disturb another.
\<close>

section \<open>The frame\<close>

text \<open>The counters that belong to the loop and to the life of the connections.\<close>

definition lifecycle :: "WorkerMetrics \<Rightarrow> u64 list" where
  "lifecycle m = [connections_accepted m, connections_closed m, connections_timed_out m, accept_errors m,
     loop_wakeups m, loop_events m]"

definition forget :: "int \<Rightarrow> Worker \<Rightarrow> Worker" where
  "forget fd w = w\<lparr>kernel := (kernel w)\<lparr>recvs := (recvs (kernel w))(fd := []), sends := (sends (kernel w))(fd := []),
     wire := (wire (kernel w))(fd := []), fin_sent := (fin_sent (kernel w))(fd := False)\<rparr>\<rparr>"

definition outside :: "int \<Rightarrow> Worker \<Rightarrow> Worker" where
  "outside fd w = forget fd (essence w)"

definition beside :: "int \<Rightarrow> Worker \<Rightarrow> Worker \<Rightarrow> bool" where
  "beside fd w w' \<longleftrightarrow> outside fd w' = outside fd w \<and> lifecycle (metrics w') = lifecycle (metrics w) \<and>
     mono_reads (kernel w) \<le> mono_reads (kernel w')"

lemma beside_refl [simp]: "beside fd w w"
  by (simp add: beside_def)

lemma beside_trans: "beside fd w w1 \<Longrightarrow> beside fd w1 w2 \<Longrightarrow> beside fd w w2"
  by (simp add: beside_def)

lemma outside_proj:
  assumes "outside fd w' = outside fd w"
  shows "f (outside fd w') = f (outside fd w)"
  using assms by simp

lemma besideD:
  assumes "beside fd w w'"
  shows "conns w' = conns w" "w_limits w' = w_limits w" "max_in_buffer w' = max_in_buffer w" "w_routes w' = w_routes w"
    "listener w' = listener w" "wake w' = wake w" "draining w' = draining w" "now_us w' = now_us w"
    "drain_deadline_us w' = drain_deadline_us w" "tick_us w' = tick_us w" "w_grace w' = w_grace w"
    "idle_timeout_us w' = idle_timeout_us w" "header_timeout_us w' = header_timeout_us w"
proof -
  have e: "outside fd w' = outside fd w" using assms by (simp add: beside_def)
  show "conns w' = conns w" "w_limits w' = w_limits w" "max_in_buffer w' = max_in_buffer w" "w_routes w' = w_routes w"
    "listener w' = listener w" "wake w' = wake w" "draining w' = draining w" "now_us w' = now_us w"
    "drain_deadline_us w' = drain_deadline_us w" "tick_us w' = tick_us w" "w_grace w' = w_grace w"
    "idle_timeout_us w' = idle_timeout_us w" "header_timeout_us w' = header_timeout_us w"
    using outside_proj [OF e, of conns] outside_proj [OF e, of w_limits] outside_proj [OF e, of max_in_buffer]
      outside_proj [OF e, of w_routes] outside_proj [OF e, of listener] outside_proj [OF e, of wake]
      outside_proj [OF e, of draining] outside_proj [OF e, of now_us] outside_proj [OF e, of drain_deadline_us]
      outside_proj [OF e, of tick_us] outside_proj [OF e, of w_grace] outside_proj [OF e, of idle_timeout_us]
      outside_proj [OF e, of header_timeout_us]
    by (simp_all add: outside_def forget_def essence_def)
qed

lemma beside_kernel:
  assumes "beside fd w w'"
  shows "file_bytes (kernel w') = file_bytes (kernel w)" "mono_clock (kernel w') = mono_clock (kernel w)"
    "accepts (kernel w') = accepts (kernel w)" "mono_reads (kernel w) \<le> mono_reads (kernel w')"
    "fresh_memory (kernel w') = fresh_memory (kernel w)"
proof -
  have e: "outside fd w' = outside fd w" using assms by (simp add: beside_def)
  show "file_bytes (kernel w') = file_bytes (kernel w)" "mono_clock (kernel w') = mono_clock (kernel w)"
    "accepts (kernel w') = accepts (kernel w)" "fresh_memory (kernel w') = fresh_memory (kernel w)"
    using outside_proj [OF e, of "\<lambda>w. file_bytes (kernel w)"] outside_proj [OF e, of "\<lambda>w. mono_clock (kernel w)"]
      outside_proj [OF e, of "\<lambda>w. accepts (kernel w)"] outside_proj [OF e, of "\<lambda>w. fresh_memory (kernel w)"]
    by (simp_all add: outside_def forget_def essence_def)
  show "mono_reads (kernel w) \<le> mono_reads (kernel w')" using assms by (simp add: beside_def)
qed

lemma beside_sockets:
  assumes "beside fd w w'" "fd' \<noteq> fd"
  shows "recvs (kernel w') fd' = recvs (kernel w) fd'" "sends (kernel w') fd' = sends (kernel w) fd'"
    "wire (kernel w') fd' = wire (kernel w) fd'" "fin_sent (kernel w') fd' = fin_sent (kernel w) fd'"
proof -
  have e: "outside fd w' = outside fd w" using assms by (simp add: beside_def)
  show "recvs (kernel w') fd' = recvs (kernel w) fd'" "sends (kernel w') fd' = sends (kernel w) fd'"
    "wire (kernel w') fd' = wire (kernel w) fd'" "fin_sent (kernel w') fd' = fin_sent (kernel w) fd'"
    using outside_proj [OF e, of "\<lambda>w. recvs (kernel w) fd'"] outside_proj [OF e, of "\<lambda>w. sends (kernel w) fd'"]
      outside_proj [OF e, of "\<lambda>w. wire (kernel w) fd'"] outside_proj [OF e, of "\<lambda>w. fin_sent (kernel w) fd'"] assms(2)
    by (simp_all add: outside_def forget_def essence_def)
qed

section \<open>The phases\<close>

lemma heard_beside: "heard w c data w' c' \<Longrightarrow> beside (c_fd c) w w'"
  unfolding heard_def by (elim conjE exE) (simp add: beside_def outside_def forget_def essence_def lifecycle_def)

lemma wrote_beside: "wrote w c w' c' \<Longrightarrow> beside (c_fd c) w w'"
  unfolding wrote_def
  by (elim conjE exE) (simp add: accepted_def beside_def outside_def forget_def essence_def lifecycle_def)

lemma drain_beside:
  "beside fd w (w\<lparr>kernel := drain_recv fd ((kernel w)\<lparr>fin_sent := (fin_sent (kernel w))(fd := True)\<rparr>)\<rparr>)"
proof -
  let ?k = "(kernel w)\<lparr>fin_sent := (fin_sent (kernel w))(fd := True)\<rparr>"
  obtain rs where "drain_recv fd ?k = ?k\<lparr>recvs := (recvs ?k)(fd := rs)\<rparr>"
    using drain_recv_drops [of fd ?k] by blast
  then show ?thesis by (simp add: beside_def outside_def forget_def essence_def)
qed

definition counted :: "Worker \<Rightarrow> Worker \<Rightarrow> bool" where
  "counted w w' \<longleftrightarrow> lifecycle (metrics w') = lifecycle (metrics w) \<and> mono_reads (kernel w) \<le> mono_reads (kernel w')"

lemma counted_refl [simp]: "counted w w"
  by (simp add: counted_def)

lemma counted_trans: "counted w w1 \<Longrightarrow> counted w1 w2 \<Longrightarrow> counted w w2"
  by (simp add: counted_def)

lemma record_response_counted: "counted w (fst (record_response w c st))"
  by (simp add: counted_def record_response_def sys_mono_us_def count_response_def observe_latency_us_def
      lifecycle_def Let_def)

lemma current_date_counted: "counted w (snd (current_date w))"
  by (simp add: counted_def current_date_def sys_time_def Let_def split: prod.split)

lemma dispatch_counted: "counted w (fst (dispatch w c rq))"
proof -
  let ?w = "w\<lparr>w_dispatched := Suc (w_dispatched w)\<rparr>"
  obtain d w1 where cd: "current_date ?w = (d, w1)" by (cases "current_date ?w")
  have "counted w w1" using current_date_counted [of ?w] cd by (simp add: counted_def)
  moreover have "\<exists>c1 st. dispatch w c rq = record_response w1 c1 st"
    unfolding dispatch_def Let_def cd case_prod_beta snd_conv by blast
  then obtain c1 st where "dispatch w c rq = record_response w1 c1 st" by blast
  ultimately show ?thesis using counted_trans [OF _ record_response_counted [of w1 c1 st]] by simp
qed

lemma queue_error_counted: "counted w (fst (queue_error w c st detail))"
proof -
  obtain d w1 where cd: "current_date w = (d, w1)" by (cases "current_date w")
  have "counted w w1" using current_date_counted [of w] cd by simp
  moreover have "\<exists>c1. queue_error w c st detail = record_response w1 c1 st"
    unfolding queue_error_def Let_def cd case_prod_beta snd_conv by blast
  then obtain c1 where "queue_error w c st detail = record_response w1 c1 st" by blast
  ultimately show ?thesis using counted_trans [OF _ record_response_counted [of w1 c1 st]] by simp
qed

lemma process_turn_counted:
  "case process_turn (w, c, p) of Again (w', c', p') \<Rightarrow> counted w w' | Stop (w', c', p') \<Rightarrow> counted w w'"
proof -
  have d: "dispatch w c' rq = (w', c'') \<Longrightarrow> counted w w'" for c' rq w' c''
    using dispatch_counted [of w c' rq] by simp
  have q: "queue_error (w\<lparr>metrics := (metrics w)\<lparr>parse_errors := n\<rparr>\<rparr>) c' st e = (w', c'') \<Longrightarrow> counted w w'" for c' st e w' c'' n
    using queue_error_counted [of "w\<lparr>metrics := (metrics w)\<lparr>parse_errors := n\<rparr>\<rparr>" c' st e]
    by (simp add: counted_def lifecycle_def)
  show ?thesis by (auto simp: process_turn_def Let_def dest: d q split: prod.splits if_splits)
qed

lemma process_counted:
  assumes "process w c = Some (w', c', p')"
  shows "counted w w'"
proof -
  have "case (w', c', p') of (w', c', p') \<Rightarrow> counted w w'"
  proof (rule iterate_rule [where I = "\<lambda>(w1, c1, p1). counted w w1" and R = "\<lambda>(w1, c1, p1). counted w w1",
        OF assms [unfolded process_def]])
    fix s s' assume "case s of (w1, c1, p1) \<Rightarrow> counted w w1" "Some (process_turn s) = Some (Again s')"
    then show "case s' of (w1, c1, p1) \<Rightarrow> counted w w1"
      using process_turn_counted [of "fst s" "fst (snd s)" "snd (snd s)"] counted_trans by (auto split: prod.splits)
  next
    fix s r assume "case s of (w1, c1, p1) \<Rightarrow> counted w w1" "Some (process_turn s) = Some (Stop r)"
    then show "case r of (w1, c1, p1) \<Rightarrow> counted w w1"
      using process_turn_counted [of "fst s" "fst (snd s)" "snd (snd s)"] counted_trans by (auto split: prod.splits)
  qed simp
  then show ?thesis by simp
qed

lemma process_beside:
  assumes "process w c = Some (w', c', p')" "conn_inv w c"
  shows "beside fd w w'" "c_fd c' = c_fd c"
proof -
  have a: "answered w c (w', c', p')" by (rule process_answers [OF assms])
  show "beside fd w w'"
    using a process_counted [OF assms(1)]
    by (auto simp: answered_def conversing_def beside_def counted_def outside_def same_world_def)
  show "c_fd c' = c_fd c" using a by (auto simp: answered_def conversing_def)
qed

text \<open>One turn of \<^verbatim>\<open>drive\<close>, and all of it.\<close>

lemma drive_turn_beside:
  assumes "drive_turn (w, c) = Some r" "conn_inv w c"
  shows "case r of Again (w', c') \<Rightarrow> beside (c_fd c) w w' \<and> c_fd c' = c_fd c
    | Stop (w', c', ok) \<Rightarrow> beside (c_fd c) w w' \<and> c_fd c' = c_fd c"
proof (rule read_phase_ok [OF assms(2)])
  fix w1 c1 p1 ok1 data
  assume r: "read_phase w c = Some (w1, c1, p1, ok1)" "conn_inv w1 c1" "heard w c data w1 c1" "c_fd c1 = c_fd c"
  have b1: "beside (c_fd c) w w1" by (rule heard_beside [OF r(3)])
  show ?thesis
  proof (cases ok1)
    case False
    then show ?thesis using assms(1) r b1 by (auto simp: drive_turn_def)
  next
    case True
    obtain w2 c2 p2 where p: "process w1 c1 = Some (w2, c2, p2)"
      using process_returns [OF r(2)] by (metis not_None_eq prod_cases3)
    have b2: "beside (c_fd c) w w2" "c_fd c2 = c_fd c"
      using beside_trans [OF b1 process_beside(1) [OF p r(2)]] process_beside(2) [OF p r(2)] r(4) by simp_all
    have inv2: "conn_inv w2 c2"
      using process_answers [OF p r(2)] by (auto simp: answered_def conversing_def)
    show ?thesis
    proof (rule write_phase_ok [OF inv2, of "p1 \<or> p2"])
      fix w3 c3 p3 ok3
      assume wr: "write_phase w2 c2 (p1 \<or> p2) = Some (w3, c3, p3, ok3)" "turn_keeps w2 c2 w3 c3" "c_fd c3 = c_fd c2"
      have b3: "beside (c_fd c) w w3" "c_fd c3 = c_fd c"
        using beside_trans [OF b2(1) wrote_beside [of w2 c2 w3 c3, unfolded b2(2)]] wr(2,3) b2(2)
        by (simp_all add: turn_keeps_def)
      have "beside (c_fd c) w (fst (drive_end w3 c3))" "c_fd (fst (snd (drive_end w3 c3))) = c_fd c"
        using b3 drain_beside by (auto simp: drive_end_def intro: beside_trans)
      then show ?thesis using assms(1) r(1) True p wr(1) b3
        by (auto simp: drive_turn_def split: if_splits prod.splits)
    qed
  qed
qed

lemma drive_beside:
  assumes "drive w c = Some (w', c', ok)" "conn_inv w c"
  shows "beside (c_fd c) w w'" "c_fd c' = c_fd c"
proof -
  let ?I = "\<lambda>(w1, c1). conn_inv w1 c1 \<and> beside (c_fd c) w w1 \<and> c_fd c1 = c_fd c"
  let ?R = "\<lambda>(w', c', ok). beside (c_fd c) w w' \<and> c_fd c' = c_fd c"
  have "?R (w', c', ok)"
  proof (rule iterate_rule [where I = ?I and R = ?R, OF assms(1) [unfolded drive_def]])
    show "?I (w, c)" using assms(2) by simp
  next
    fix s s' :: DriveState
    assume I: "?I s" and t: "drive_turn s = Some (Again s')"
    obtain w1 c1 w2 c2 where s: "s = (w1, c1)" "s' = (w2, c2)" by (cases s; cases s')
    with I t show "?I s'"
      using drive_turn_beside [of w1 c1 "Again s'"] drive_turn_Again [of w1 c1 w2 c2] beside_trans [of "c_fd c" w w1 w2] by simp
  next
    fix s :: DriveState and r
    assume I: "?I s" and t: "drive_turn s = Some (Stop r)"
    obtain w1 c1 w2 c2 ok2 where s: "s = (w1, c1)" "r = (w2, c2, ok2)" by (cases s; cases r)
    with I t show "?R r"
      using drive_turn_beside [of w1 c1 "Stop r"] beside_trans [of "c_fd c" w w1 w2] by simp
  qed
  then show "beside (c_fd c) w w'" "c_fd c' = c_fd c" by simp_all
qed

end
