(* ===== verification/Worker_Loop.thy ===== *)
theory Worker_Loop
  imports Connection_Frame "HOL-Library.AList"
begin

text \<open>
  The event loop of a worker, \<^verbatim>\<open>Server::Worker\<close> in \<^verbatim>\<open>src/src/server/server.cpp\<close>: accepting, the events of
  the connections, the sweep that enforces the timeouts, draining and the end of the loop. The map of
  connections is an association list; its order is the order of iteration. What \<^verbatim>\<open>epoll_wait\<close> answers is an
  argument of a turn, with what has arrived at the sockets meanwhile. A descriptor that \<^verbatim>\<open>accept4\<close>
  answers is not in use: the number proposed is replaced by a free one if the worker has it open.
\<close>

section \<open>Accepting\<close>

definition open_fds :: "Worker \<Rightarrow> int list" where
  "open_fds w = listener w # wake w # map fst (conns w)"

definition free_fd :: "int list \<Rightarrow> nat \<Rightarrow> int" where
  "free_fd used n = (if int n \<in> set used then fold max used (int n) + 1 else int n)"

lemma fold_max_ge: "x \<le> fold max xs (x :: int)"
proof (induction xs arbitrary: x)
  case (Cons a xs)
  from Cons [of "max a x"] show ?case by simp
qed simp

lemma fold_max_member: "y \<in> set xs \<Longrightarrow> y \<le> fold max xs (x :: int)"
proof (induction xs arbitrary: x)
  case (Cons a xs)
  then show ?case using fold_max_ge [of "max a x" xs] by auto
qed simp

lemma free_fd_ok: "free_fd used n \<notin> set used" "0 \<le> free_fd used n"
  using fold_max_ge [of "int n" used] fold_max_member [of "fold max used (int n) + 1" used "int n"]
  by (auto simp: free_fd_def)

text \<open>\<^verbatim>\<open>accept4\<close>: a new socket has its own input and has sent nothing. The two flags of an answer are the
  descriptor, if there is one, and whether registering it with \<^verbatim>\<open>epoll\<close> will succeed.\<close>

definition sys_accept :: "int list \<Rightarrow> Kernel \<Rightarrow> AcceptResult \<times> int \<times> Kernel" where
  "sys_accept used k =
     (case accepts k of
        [] \<Rightarrow> (AcceptAgain, -1, k)
      | Accepted n rs ss ok # as \<Rightarrow>
          let fd = free_fd used n
          in (Accepted n rs ss ok, fd,
              k\<lparr>accepts := as, recvs := (recvs k)(fd := rs), sends := (sends k)(fd := ss),
                wire := (wire k)(fd := []), fin_sent := (fin_sent k)(fd := False)\<rparr>)
      | r # as \<Rightarrow> (r, -1, k\<lparr>accepts := as\<rparr>))"

definition emplace :: "int \<Rightarrow> Connection \<Rightarrow> (int \<times> Connection) list \<Rightarrow> (int \<times> Connection) list" where
  "emplace fd c cs = (if fd \<in> fst ` set cs then cs else cs @ [(fd, c)])"

definition count_accept_error :: "Worker \<Rightarrow> Worker" where
  "count_accept_error w = w\<lparr>metrics := (metrics w)\<lparr>accept_errors := bump (accept_errors (metrics w)) 1\<rparr>\<rparr>"

fun accept_loop :: "nat \<Rightarrow> Worker \<Rightarrow> Worker" where
  "accept_loop 0 w = w"
| "accept_loop (Suc i) w =
     (let (r, fd, k) = sys_accept (open_fds w) (kernel w); w = w\<lparr>kernel := k\<rparr>
      in case r of
          AcceptRetry \<Rightarrow> accept_loop i w
        | AcceptAgain \<Rightarrow> w
        | AcceptFail \<Rightarrow> count_accept_error w
        | Accepted n rs ss ok \<Rightarrow>
            let conn = new_connection fd (w_limits w) (now_us w) (fresh_memory k)
            in if \<not> ok then accept_loop i (count_accept_error w)
               else accept_loop i (w\<lparr>metrics := (metrics w)\<lparr>connections_accepted := bump (connections_accepted (metrics w)) 1\<rparr>,
                                     conns := emplace fd conn (conns w)\<rparr>))"

definition on_accept :: "Worker \<Rightarrow> Worker" where
  "on_accept w = accept_loop kAcceptBatch w"

section \<open>Closing\<close>

definition close_connection :: "Worker \<Rightarrow> int \<Rightarrow> Worker" where
  "close_connection w fd =
     (if fd \<in> fst ` set (conns w)
      then w\<lparr>conns := AList.delete fd (conns w),
             metrics := (metrics w)\<lparr>connections_closed := bump (connections_closed (metrics w)) 1\<rparr>\<rparr>
      else w)"

datatype Expiry = Stays | Drops | TimesOut

definition conn_idle :: "Connection \<Rightarrow> bool" where
  "conn_idle c \<longleftrightarrow> \<not> has_output c \<and> bb_empty (c_in c) \<and> \<not> started (c_parser c)"

definition expiry :: "Worker \<Rightarrow> Connection \<Rightarrow> Expiry" where
  "expiry w c =
     (if draining w \<and> conn_idle c then Drops
      else if request_start_us c \<noteq> 0 \<and> \<not> headers_complete (c_parser c) \<and>
              now_us w - request_start_us c > header_timeout_us w then TimesOut
      else if now_us w - last_active_us c > idle_timeout_us w then TimesOut
      else Stays)"

text \<open>The loop over the connections, with those that were passed already.\<close>

fun sweep_loop :: "Worker \<Rightarrow> (int \<times> Connection) list \<Rightarrow> WorkerMetrics \<Rightarrow> (int \<times> Connection) list \<times> WorkerMetrics" where
  "sweep_loop w [] m = ([], m)"
| "sweep_loop w ((fd, c) # cs) m =
     (case expiry w c of
        Stays \<Rightarrow> let (kept, m) = sweep_loop w cs m in ((fd, c) # kept, m)
      | e \<Rightarrow>
          let m = (if e = TimesOut then m\<lparr>connections_timed_out := bump (connections_timed_out m) 1\<rparr> else m);
              m = m\<lparr>connections_closed := bump (connections_closed m) 1\<rparr>
          in sweep_loop w cs m)"

definition sweep :: "Worker \<Rightarrow> Worker" where
  "sweep w = (let (kept, m) = sweep_loop w (conns w) (metrics w) in w\<lparr>conns := kept, metrics := m\<rparr>)"

definition begin_drain :: "Worker \<Rightarrow> Worker" where
  "begin_drain w =
     (if draining w then w
      else
        let w = w\<lparr>draining := True, drain_deadline_us := now_us w + to_us (w_grace w)\<rparr>
        in if fd_valid (listener w) then w\<lparr>listener := -1\<rparr> else w)"

section \<open>Events\<close>

text \<open>The bits of \<^verbatim>\<open>epoll\<close>.\<close>

definition EPOLLIN :: u32 where "EPOLLIN = 0x001"
definition EPOLLOUT :: u32 where "EPOLLOUT = 0x004"
definition EPOLLERR :: u32 where "EPOLLERR = 0x008"
definition EPOLLHUP :: u32 where "EPOLLHUP = 0x010"
definition EPOLLRDHUP :: u32 where "EPOLLRDHUP = 0x2000"

definition note_ready :: "Connection \<Rightarrow> u32 \<Rightarrow> Connection" where
  "note_ready c ev =
     (let c = (if and ev (or (or (or EPOLLIN EPOLLRDHUP) EPOLLHUP) EPOLLERR) \<noteq> 0 then c\<lparr>can_read := True\<rparr> else c)
      in if and ev (or (or EPOLLOUT EPOLLHUP) EPOLLERR) \<noteq> 0 then c\<lparr>can_write := True\<rparr> else c)"

text \<open>The connection is driven in place: it is stored before it may be closed.\<close>

definition handle_event :: "Worker \<Rightarrow> int \<times> u32 \<Rightarrow> Worker option" where
  "handle_event w = (\<lambda>(fd, ev).
     if fd = wake w then Some (begin_drain w)
     else if fd_valid (listener w) \<and> fd = listener w then Some (on_accept w)
     else case map_of (conns w) fd of
         None \<Rightarrow> Some w
       | Some c \<Rightarrow>
           Option.bind (drive w (note_ready c ev)) (\<lambda>(w, c, keep).
             let w = w\<lparr>conns := AList.update fd c (conns w)\<rparr>
             in Some (if \<not> keep then close_connection w fd else w)))"

fun handle_events :: "Worker \<Rightarrow> (int \<times> u32) list \<Rightarrow> Worker option" where
  "handle_events w [] = Some w"
| "handle_events w (e # es) = Option.bind (handle_event w e) (\<lambda>w. handle_events w es)"

section \<open>The loop\<close>

text \<open>What \<^verbatim>\<open>epoll_wait\<close> answers, with what the kernel has received and can take since.\<close>

datatype WaitResult =
    Woken "(int \<times> u32) list" "int \<Rightarrow> RecvResult list" "int \<Rightarrow> SendResult list" "AcceptResult list"
  | WaitIntr
  | WaitFail

definition arrive :: "(int \<Rightarrow> RecvResult list) \<Rightarrow> (int \<Rightarrow> SendResult list) \<Rightarrow> AcceptResult list \<Rightarrow> Kernel \<Rightarrow> Kernel" where
  "arrive rs ss as k =
     k\<lparr>recvs := (\<lambda>fd. recvs k fd @ rs fd), sends := (\<lambda>fd. sends k fd @ ss fd), accepts := accepts k @ as\<rparr>"

type_synonym LoopState = "Worker \<times> u64"

definition wake_up :: "Worker \<Rightarrow> nat \<Rightarrow> Worker" where
  "wake_up w n =
     (let (now, k) = sys_mono_us (kernel w)
      in w\<lparr>now_us := now, kernel := k,
           metrics := (metrics w)\<lparr>loop_wakeups := bump (loop_wakeups (metrics w)) 1,
                                  loop_events := bump (loop_events (metrics w)) (word_of_nat n)\<rparr>\<rparr>)"

text \<open>What follows the events of a turn: the sweep, and the test whether draining is over.\<close>

definition turn_end :: "Worker \<Rightarrow> u64 \<Rightarrow> (LoopState, Worker) Step" where
  "turn_end w last_sweep =
     (let (w, last_sweep) = (if draining w \<or> now_us w - last_sweep \<ge> tick_us w then (sweep w, now_us w) else (w, last_sweep))
      in if draining w \<and> (conns w = [] \<or> now_us w \<ge> drain_deadline_us w) then Stop w else Again (w, last_sweep))"

definition run_turn :: "WaitResult \<Rightarrow> LoopState \<Rightarrow> (LoopState, Worker) Step option" where
  "run_turn r = (\<lambda>(w, last_sweep).
     case r of
       WaitIntr \<Rightarrow> Some (Again (w, last_sweep))
     | WaitFail \<Rightarrow> Some (Stop w)
     | Woken events rs ss as \<Rightarrow>
         let w = wake_up (w\<lparr>kernel := arrive rs ss as (kernel w)\<rparr>) (length events)
         in Option.bind (handle_events w events) (\<lambda>w. Some (turn_end w last_sweep)))"

function close_all :: "Worker \<Rightarrow> Worker" where
  "close_all w = (case conns w of [] \<Rightarrow> w | (fd, c) # cs \<Rightarrow> close_all (close_connection w fd))"
  by pat_completeness auto
termination
  by (relation "measure (\<lambda>w. length (conns w))")
    (auto simp: close_connection_def less_Suc_eq_le length_delete_le)

declare close_all.simps [simp del]

text \<open>A run on the answers of \<^verbatim>\<open>epoll_wait\<close> so far: the loop still runs, or it has ended.\<close>

fun run_loop_on :: "WaitResult list \<Rightarrow> LoopState \<Rightarrow> (LoopState, Worker) Step option" where
  "run_loop_on [] s = Some (Again s)"
| "run_loop_on (r # rs) s =
     Option.bind (run_turn r s) (\<lambda>x. case x of
         Again s \<Rightarrow> run_loop_on rs s
       | Stop w \<Rightarrow> Some (Stop (close_all w)))"

definition run_worker :: "Worker \<Rightarrow> WaitResult list \<Rightarrow> (LoopState, Worker) Step option" where
  "run_worker w rs =
     (let (now, k) = sys_mono_us (kernel w) in run_loop_on rs (w\<lparr>kernel := k\<rparr>, now))"

end
