(* ===== verification/Worker_Invariant.thy ===== *)
theory Worker_Invariant
  imports Worker_Loop
begin

text \<open>
  The invariant of a worker: the map of connections is keyed by the descriptors, every connection in
  it satisfies the connection invariant and waits for an event that will come, and the counters
  account for every connection. Every step of the event loop keeps it, and returns.
\<close>

section \<open>The invariant\<close>

text \<open>A connection that was accepted and had no event yet.\<close>

definition untouched :: "Connection \<Rightarrow> bool" where
  "untouched c \<longleftrightarrow> can_read c \<and> can_write c \<and> \<not> has_output c \<and> readable (c_in c) = []"

definition conn_ok :: "Worker \<Rightarrow> int \<Rightarrow> Connection \<Rightarrow> bool" where
  "conn_ok w fd c \<longleftrightarrow> c_fd c = fd \<and> 0 \<le> fd \<and> fd \<noteq> wake w \<and> fd \<noteq> listener w \<and> conn_inv w c \<and>
     (untouched c \<or> awaits_event c)"

definition conns_ok :: "Worker \<Rightarrow> bool" where
  "conns_ok w \<longleftrightarrow> distinct (map fst (conns w)) \<and> (\<forall>(fd, c) \<in> set (conns w). conn_ok w fd c)"

definition config_ok :: "Worker \<Rightarrow> bool" where
  "config_ok w \<longleftrightarrow> limits_ok (w_limits w) \<and> max_in_buffer w \<le> 2 ^ 61 \<and> tail_bound (w_limits w) < max_in_buffer w \<and>
     0 \<le> wake w \<and> (draining w \<longrightarrow> \<not> fd_valid (listener w))"

definition accounted :: "Worker \<Rightarrow> bool" where
  "accounted w \<longleftrightarrow>
     connections_accepted (metrics w) = connections_closed (metrics w) + word_of_nat (length (conns w))"

definition worker_inv :: "Worker \<Rightarrow> bool" where
  "worker_inv w \<longleftrightarrow> config_ok w \<and> conns_ok w \<and> accounted w"

lemma conn_inv_cong:
  "w_limits w' = w_limits w \<Longrightarrow> max_in_buffer w' = max_in_buffer w \<Longrightarrow> conn_inv w' c = conn_inv w c"
  by (simp add: conn_inv_def in_inv_def idle_parser_def)

lemma conn_ok_cong:
  "w_limits w' = w_limits w \<Longrightarrow> max_in_buffer w' = max_in_buffer w \<Longrightarrow> wake w' = wake w \<Longrightarrow>
   listener w' = listener w \<Longrightarrow> conn_ok w' fd c = conn_ok w fd c"
  by (simp add: conn_ok_def conn_inv_cong [of w' w])

lemma conns_okD: "conns_ok w \<Longrightarrow> map_of (conns w) fd = Some c \<Longrightarrow> conn_ok w fd c"
  by (auto simp: conns_ok_def dest: map_of_SomeD)

lemma delete_length:
  "distinct (map fst xs) \<Longrightarrow> k \<in> fst ` set xs \<Longrightarrow> Suc (length (AList.delete k xs)) = length xs"
proof (induction xs)
  case (Cons x xs)
  then show ?case by (cases "fst x = k") (auto simp: image_iff)
qed simp

section \<open>Accepting\<close>

lemma fresh_connection: "untouched (new_connection fd lim now mem)"
proof -
  have b: "bb_inv (new_buffer mem)" by (simp add: bb_inv_def new_buffer_def)
  have "readable (new_buffer mem) = []"
    using length_readable [OF b] by (simp add: new_buffer_def)
  then show ?thesis
    by (simp add: untouched_def new_connection_def has_output_def out_pending_def body_source_active_def fd_valid_def)
qed

lemma worker_inv_kernel [simp]: "worker_inv (w\<lparr>kernel := k\<rparr>) = worker_inv w"
  by (simp add: worker_inv_def config_ok_def conns_ok_def accounted_def conn_ok_cong [of "w\<lparr>kernel := k\<rparr>" w])

lemma worker_inv_metrics:
  "connections_accepted m = connections_accepted (metrics w) \<Longrightarrow>
   connections_closed m = connections_closed (metrics w) \<Longrightarrow> worker_inv (w\<lparr>metrics := m\<rparr>) = worker_inv w"
  by (simp add: worker_inv_def config_ok_def conns_ok_def accounted_def conn_ok_cong [of "w\<lparr>metrics := m\<rparr>" w])

lemma count_accept_error_inv [simp]: "worker_inv (count_accept_error w) = worker_inv w"
  unfolding count_accept_error_def by (rule worker_inv_metrics) simp_all

lemma emplace_inv:
  assumes inv: "worker_inv w" and fd: "fd \<notin> set (open_fds w)" "0 \<le> fd"
  shows "worker_inv (w\<lparr>metrics := (metrics w)\<lparr>connections_accepted := bump (connections_accepted (metrics w)) 1\<rparr>,
    conns := emplace fd (new_connection fd (w_limits w) now mem) (conns w)\<rparr>)" (is "worker_inv ?w")
proof -
  let ?c = "new_connection fd (w_limits w) now mem"
  have new: "fd \<notin> fst ` set (conns w)" using fd(1) by (simp add: open_fds_def)
  have ok: "conn_ok ?w fd' c = conn_ok w fd' c" for fd' c by (rule conn_ok_cong) simp_all
  have "conn_ok w fd ?c"
    using inv fd conn_inv_new [of w fd now mem] fresh_connection [of fd "w_limits w" now mem]
    by (simp add: conn_ok_def worker_inv_def config_ok_def open_fds_def new_connection_def)
  then have "conns_ok ?w"
    using inv new unfolding worker_inv_def conns_ok_def ok by (auto simp: emplace_def)
  then show ?thesis
    using inv new by (simp add: worker_inv_def config_ok_def accounted_def emplace_def bump_def)
qed

lemma sys_accept_fd:
  assumes "sys_accept used k = (Accepted n rs ss ok, fd, k')"
  shows "fd \<notin> set used" "0 \<le> fd"
  using assms free_fd_ok [of used n]
  by (auto simp: sys_accept_def Let_def split: list.splits AcceptResult.splits)

lemma accept_loop_inv: "worker_inv w \<Longrightarrow> worker_inv (accept_loop i w)"
proof (induction i arbitrary: w)
  case (Suc i)
  obtain r fd k where a: "sys_accept (open_fds w) (kernel w) = (r, fd, k)" by (cases "sys_accept (open_fds w) (kernel w)")
  show ?case
  proof (cases r)
    case (Accepted n rs ss ok)
    let ?w = "w\<lparr>kernel := k\<rparr>"
    have "open_fds ?w = open_fds w" by (simp add: open_fds_def)
    with emplace_inv [of ?w fd "now_us w" "fresh_memory k"] Suc.prems sys_accept_fd [OF a [unfolded Accepted]]
    have "worker_inv (?w\<lparr>metrics := (metrics w)\<lparr>connections_accepted := bump (connections_accepted (metrics w)) 1\<rparr>,
        conns := emplace fd (new_connection fd (w_limits w) (now_us w) (fresh_memory k)) (conns w)\<rparr>)" by simp
    then show ?thesis using a Accepted Suc.prems by (simp add: Let_def Suc.IH)
  qed (use a Suc in \<open>simp_all add: Let_def\<close>)
qed simp

section \<open>Closing\<close>

lemma close_connection_inv: "worker_inv w \<Longrightarrow> worker_inv (close_connection w fd)"
proof (cases "fd \<in> fst ` set (conns w)")
  case True
  assume inv: "worker_inv w"
  let ?w = "close_connection w fd"
  have ok: "conn_ok ?w fd' c = conn_ok w fd' c" for fd' c
    by (rule conn_ok_cong) (simp_all add: close_connection_def)
  have cs: "conns ?w = AList.delete fd (conns w)" using True by (simp add: close_connection_def)
  have "conns_ok ?w"
    using inv unfolding worker_inv_def conns_ok_def ok cs
    by (auto simp: distinct_map_filter AList.delete_eq [of fd])
  moreover have "Suc (length (AList.delete fd (conns w))) = length (conns w)"
    using inv True by (intro delete_length) (simp_all add: worker_inv_def conns_ok_def)
  then have "word_of_nat (length (conns w)) = 1 + (word_of_nat (length (AList.delete fd (conns w))) :: u64)"
    by (metis of_nat_Suc)
  then have "accounted ?w"
    using inv True by (simp add: worker_inv_def accounted_def close_connection_def bump_def)
  ultimately show ?thesis
    using inv by (simp add: worker_inv_def config_ok_def close_connection_def)
qed (simp add: close_connection_def)

lemma sweep_loop_ok:
  "sweep_loop w cs m = (kept, m') \<Longrightarrow>
     kept = filter (\<lambda>(fd, c). expiry w c = Stays) cs \<and>
     m' = m\<lparr>connections_timed_out := connections_timed_out m + word_of_nat (length (filter (\<lambda>(fd, c). expiry w c = TimesOut) cs)),
            connections_closed := connections_closed m + word_of_nat (length (filter (\<lambda>(fd, c). expiry w c \<noteq> Stays) cs))\<rparr>"
proof (induction w cs m arbitrary: kept m' rule: sweep_loop.induct)
  case (2 w fd c cs m)
  show ?case
  proof (cases "expiry w c")
    case Stays
    then show ?thesis using 2 by (auto simp: Let_def split: prod.splits)
  next
    case Drops
    then show ?thesis using 2 by (auto simp: Let_def bump_def)
  next
    case TimesOut
    then show ?thesis using 2 by (auto simp: Let_def bump_def)
  qed
qed simp

lemma sweep_partition:
  "word_of_nat (length (filter (\<lambda>(fd, c). expiry w c \<noteq> Stays) cs)) +
     word_of_nat (length (filter (\<lambda>(fd, c). expiry w c = Stays) cs)) = (word_of_nat (length cs) :: u64)"
  by (induction cs) auto

lemma sweep_ok:
  "sweep w = w\<lparr>conns := filter (\<lambda>(fd, c). expiry w c = Stays) (conns w),
     metrics := (metrics w)\<lparr>
       connections_timed_out := connections_timed_out (metrics w) +
         word_of_nat (length (filter (\<lambda>(fd, c). expiry w c = TimesOut) (conns w))),
       connections_closed := connections_closed (metrics w) +
         word_of_nat (length (filter (\<lambda>(fd, c). expiry w c \<noteq> Stays) (conns w)))\<rparr>\<rparr>"
  using sweep_loop_ok [of w "conns w" "metrics w"] by (simp add: sweep_def split: prod.split)

lemma sweep_inv: "worker_inv w \<Longrightarrow> worker_inv (sweep w)"
proof -
  assume inv: "worker_inv w"
  let ?w = "sweep w"
  have ok: "conn_ok ?w fd' c = conn_ok w fd' c" for fd' c by (rule conn_ok_cong) (simp_all add: sweep_ok)
  have "conns_ok ?w"
    using inv unfolding worker_inv_def conns_ok_def ok by (auto simp: sweep_ok distinct_map_filter)
  moreover have "accounted ?w"
    using inv by (simp add: worker_inv_def accounted_def sweep_ok sweep_partition add.assoc)
  ultimately show ?thesis using inv by (simp add: worker_inv_def config_ok_def sweep_ok)
qed

lemma begin_drain_inv: "worker_inv w \<Longrightarrow> worker_inv (begin_drain w)"
proof -
  assume inv: "worker_inv w"
  let ?w = "begin_drain w"
  have ok: "conn_ok w fd' c \<Longrightarrow> conn_ok ?w fd' c" for fd' c
    using conn_inv_cong [of ?w w c] by (auto simp: conn_ok_def begin_drain_def Let_def)
  have "conns ?w = conns w" by (simp add: begin_drain_def Let_def)
  with inv ok have "conns_ok ?w" unfolding worker_inv_def conns_ok_def by fastforce
  with inv show ?thesis
    by (auto simp: worker_inv_def config_ok_def accounted_def begin_drain_def Let_def fd_valid_def)
qed

section \<open>Events\<close>

lemma note_ready_inv:
  "conn_inv w (note_ready c ev) = conn_inv w c" "c_fd (note_ready c ev) = c_fd c"
  by (simp_all add: note_ready_def Let_def conn_inv_def in_inv_def idle_parser_def out_inv_def source_inv_def)

lemma beside_inv:
  assumes "beside fd w w'" "worker_inv w"
  shows "worker_inv w'"
proof -
  note b = besideD [OF assms(1)]
  have "connections_accepted (metrics w') = connections_accepted (metrics w)"
      "connections_closed (metrics w') = connections_closed (metrics w)"
    using assms(1) by (simp_all add: beside_def lifecycle_def)
  then show ?thesis
    using assms(2) b conn_ok_cong [OF b(2,3,6,5)]
    by (simp add: worker_inv_def config_ok_def conns_ok_def accounted_def)
qed

lemma update_keys_same: "k \<in> fst ` set xs \<Longrightarrow> map fst (AList.update k v xs) = map fst xs"
  by (simp add: update_keys)

lemma update_members: "x \<in> set (AList.update k v xs) \<Longrightarrow> x = (k, v) \<or> x \<in> set xs"
  by (induction xs) (auto split: if_splits)

lemma store_inv:
  assumes "worker_inv w" "fd \<in> fst ` set (conns w)" "conn_ok w fd c"
  shows "worker_inv (w\<lparr>conns := AList.update fd c (conns w)\<rparr>)" (is "worker_inv ?w")
proof -
  have ok: "conn_ok ?w fd' c = conn_ok w fd' c" for fd' c by (rule conn_ok_cong) simp_all
  have keys: "map fst (conns ?w) = map fst (conns w)" using update_keys_same [OF assms(2)] by simp
  have "conns_ok ?w"
    using assms unfolding worker_inv_def conns_ok_def ok keys by (auto dest!: update_members)
  then show ?thesis
    using assms(1) keys [THEN arg_cong [of _ _ length]]
    by (simp add: worker_inv_def config_ok_def accounted_def)
qed

text \<open>A connection that is to be closed need not wait for anything.\<close>

lemma store_close:
  assumes "worker_inv w" "fd \<in> fst ` set (conns w)"
  shows "close_connection (w\<lparr>conns := AList.update fd c (conns w)\<rparr>) fd = close_connection w fd"
  using assms(2) update_keys_same [OF assms(2), THEN arg_cong [of _ _ set]] delete_update_same [of fd c "conns w"]
  by (simp add: close_connection_def image_set del: set_map)

lemma handle_event_inv:
  assumes inv: "worker_inv w"
  obtains w' where "handle_event w e = Some w'" "worker_inv w'"
proof -
  obtain fd ev where e: "e = (fd, ev)" by (cases e)
  consider (wake) "fd = wake w" | (accept) "fd \<noteq> wake w" "fd_valid (listener w)" "fd = listener w"
    | (none) "fd \<noteq> wake w" "\<not> (fd_valid (listener w) \<and> fd = listener w)" "map_of (conns w) fd = None"
    | (conn) c where "fd \<noteq> wake w" "\<not> (fd_valid (listener w) \<and> fd = listener w)" "map_of (conns w) fd = Some c"
    by (cases "map_of (conns w) fd") auto
  then show ?thesis
  proof cases
    case wake
    with that [of "begin_drain w"] begin_drain_inv [OF inv] e show ?thesis by (simp add: handle_event_def)
  next
    case accept
    with that [of "on_accept w"] accept_loop_inv [OF inv] e show ?thesis by (simp add: handle_event_def on_accept_def)
  next
    case none
    with that [of w] inv e show ?thesis by (simp add: handle_event_def)
  next
    case (conn c)
    let ?c = "note_ready c ev"
    have ok: "conn_ok w fd c" using conns_okD conn(3) inv by (simp add: worker_inv_def)
    then have ci: "conn_inv w ?c" "c_fd ?c = fd" by (simp_all add: conn_ok_def note_ready_inv)
    obtain w1 c1 keep where d: "drive w ?c = Some (w1, c1, keep)"
      using drive_returns [OF ci(1)] by (metis not_None_eq prod_cases3)
    note b = drive_beside [OF d ci(1), unfolded ci(2)]
    have inv1: "worker_inv w1" by (rule beside_inv [OF b(1) inv])
    have key: "fd \<in> fst ` set (conns w1)"
      using conn(3) besideD(1) [OF b(1)] by (force dest: map_of_SomeD)
    have room: "tail_bound (w_limits w) < max_in_buffer w" using inv by (simp add: worker_inv_def config_ok_def)
    have "conn_ok w1 fd c1" if keep
      using ok drive_keeps [OF d ci(1)] drive_awaits [OF d ci(1) room that] b besideD [OF b(1)]
      by (simp add: conn_ok_def)
    then have "worker_inv (if \<not> keep then close_connection (w1\<lparr>conns := AList.update fd c1 (conns w1)\<rparr>) fd
        else w1\<lparr>conns := AList.update fd c1 (conns w1)\<rparr>)"
      using store_inv [OF inv1 key] close_connection_inv [OF inv1, of fd] store_close [OF inv1 key] by simp
    with that conn d e show ?thesis by (simp add: handle_event_def Let_def)
  qed
qed

lemma handle_events_inv:
  assumes "worker_inv w"
  obtains w' where "handle_events w es = Some w'" "worker_inv w'"
  using assms
proof (induction es arbitrary: w thesis)
  case (Cons e es)
  obtain w1 where "handle_event w e = Some w1" "worker_inv w1" by (rule handle_event_inv [OF Cons.prems(2)])
  then show ?case using Cons.IH [of w1] Cons.prems(1) by auto
qed simp

section \<open>Turns of the loop\<close>

lemma wake_up_inv: "worker_inv (wake_up w n) = worker_inv w"
proof -
  let ?m = "(metrics w)\<lparr>loop_wakeups := bump (loop_wakeups (metrics w)) 1,
      loop_events := bump (loop_events (metrics w)) (word_of_nat n)\<rparr>"
  have "worker_inv (wake_up w n) = worker_inv (w\<lparr>metrics := ?m\<rparr>)"
    using conn_ok_cong [of "wake_up w n" "w\<lparr>metrics := ?m\<rparr>"]
    by (simp add: wake_up_def sys_mono_us_def worker_inv_def config_ok_def conns_ok_def accounted_def)
  also have "\<dots> = worker_inv w" by (rule worker_inv_metrics) simp_all
  finally show ?thesis .
qed

lemma run_turn_Woken:
  "run_turn (Woken es rs ss as) (w, last_sweep) =
     Option.bind (handle_events (wake_up (w\<lparr>kernel := arrive rs ss as (kernel w)\<rparr>) (length es)) es)
       (\<lambda>w. Some (turn_end w last_sweep))"
  by (simp add: run_turn_def Let_def)

lemma turn_end_cases:
  obtains (swept) "turn_end w last_sweep = Again (sweep w, now_us w)" | (unswept) "turn_end w last_sweep = Again (w, last_sweep)"
  | (ended) "turn_end w last_sweep = Stop (sweep w)" "draining w"
proof -
  have d: "draining (sweep w) = draining w" by (simp add: sweep_ok)
  show ?thesis
  proof (cases "draining w")
    case True
    then have "turn_end w last_sweep = (if conns (sweep w) = [] \<or> now_us (sweep w) \<ge> drain_deadline_us (sweep w)
        then Stop (sweep w) else Again (sweep w, now_us w))" by (simp add: turn_end_def d)
    with True that show ?thesis by metis
  next
    case False
    then have "turn_end w last_sweep = Again (if now_us w - last_sweep \<ge> tick_us w then (sweep w, now_us w) else (w, last_sweep))"
      by (simp add: turn_end_def d)
    with that show ?thesis by (cases "now_us w - last_sweep \<ge> tick_us w") simp_all
  qed
qed

lemma run_turn_inv:
  assumes "worker_inv w"
  obtains (again) w' last' where "run_turn r (w, last_sweep) = Some (Again (w', last'))" "worker_inv w'"
  | (stop) w' where "run_turn r (w, last_sweep) = Some (Stop w')" "worker_inv w'"
proof (cases r)
  case (Woken es rs ss as)
  let ?w = "wake_up (w\<lparr>kernel := arrive rs ss as (kernel w)\<rparr>) (length es)"
  have "worker_inv ?w" using assms by (simp add: wake_up_inv)
  then obtain w1 where w1: "handle_events ?w es = Some w1" "worker_inv w1" by (rule handle_events_inv)
  have eq: "run_turn r (w, last_sweep) = Some (turn_end w1 last_sweep)" using w1(1) by (simp add: Woken run_turn_Woken)
  show ?thesis
  proof (cases rule: turn_end_cases [of w1 last_sweep])
    case swept
    with eq again sweep_inv [OF w1(2)] show ?thesis by simp
  next
    case unswept
    with eq again w1(2) show ?thesis by simp
  next
    case ended
    with eq stop sweep_inv [OF w1(2)] show ?thesis by simp
  qed
qed (use that assms in \<open>simp_all add: run_turn_def\<close>)

lemma close_all_ok:
  "worker_inv w \<Longrightarrow> worker_inv (close_all w) \<and> conns (close_all w) = []"
proof (induction w rule: close_all.induct)
  case (1 w)
  show ?case
  proof (cases "conns w")
    case Nil
    with 1 show ?thesis by (simp add: close_all.simps [of w])
  next
    case (Cons x cs)
    obtain fd c where x: "x = (fd, c)" by (cases x)
    from 1(1) [OF Cons x [symmetric]] close_connection_inv [OF 1(2), of fd] Cons x show ?thesis
      by (simp add: close_all.simps [of w])
  qed
qed

section \<open>Runs\<close>

text \<open>The states of the loop that a worker comes to.\<close>

inductive runs_from :: "Worker \<Rightarrow> LoopState \<Rightarrow> bool" for w0 where
  start: "sys_mono_us (kernel w0) = (now, k) \<Longrightarrow> runs_from w0 (w0\<lparr>kernel := k\<rparr>, now)"
| turn: "runs_from w0 s \<Longrightarrow> run_turn r s = Some (Again s') \<Longrightarrow> runs_from w0 s'"

lemma runs_from_inv:
  assumes "runs_from w0 s" "worker_inv w0"
  shows "worker_inv (fst s)"
  using assms
proof (induction rule: runs_from.induct)
  case (turn s r s')
  obtain w l where s: "s = (w, l)" by (cases s)
  have inv: "worker_inv w" using turn s by simp
  show ?case
    by (cases rule: run_turn_inv [OF inv, of r l]) (use turn(2) s in auto)
qed simp

definition sound_config :: "ServerConfig \<Rightarrow> bool" where
  "sound_config cfg \<longleftrightarrow> limits_ok (cfg_limits cfg) \<and>
     szadd (max_request_line (cfg_limits cfg)) (max_header_bytes (cfg_limits cfg)) \<le> 2 ^ 61 \<and>
     tail_bound (cfg_limits cfg) < max (64 * 1024) (szadd (max_request_line (cfg_limits cfg)) (max_header_bytes (cfg_limits cfg)))"

lemma new_worker_inv:
  assumes "sound_config cfg" "0 \<le> wk"
  shows "worker_inv (new_worker cfg rts lst wk k)"
  using assms
  by (simp add: worker_inv_def config_ok_def conns_ok_def accounted_def sound_config_def new_worker_def Let_def
      new_metrics_def sys_mono_us_def)

lemma runs_from_on:
  "run_loop_on rs s = Some (Again s') \<Longrightarrow> runs_from w0 s \<Longrightarrow> runs_from w0 s'"
proof (induction rs arbitrary: s)
  case (Cons r rs)
  from Cons.prems(1) obtain x where x: "run_turn r s = Some x"
      "(case x of Again s1 \<Rightarrow> run_loop_on rs s1 | Stop w \<Rightarrow> Some (Stop (close_all w))) = Some (Again s')"
    by (auto simp: bind_eq_Some_conv)
  then show ?case using Cons.IH runs_from.turn [OF Cons.prems(2)] by (cases x) auto
qed simp

end
