(* ===== verification/Worker_Properties.thy ===== *)
theory Worker_Properties
  imports Worker_Invariant
begin

text \<open>
  What a worker guarantees: its invariant in every state of the loop, the isolation of the
  connections from each other, the exact effect of the sweep, and that a request to stop ends the
  loop with every connection closed.
\<close>

section \<open>Events do not disturb other connections\<close>

text \<open>The connection \<open>fd\<close>, with its socket, is the same before and after.\<close>

definition undisturbed :: "int \<Rightarrow> Connection \<Rightarrow> Worker \<Rightarrow> Worker \<Rightarrow> bool" where
  "undisturbed fd c w w' \<longleftrightarrow> map_of (conns w) fd = Some c \<and> map_of (conns w') fd = Some c \<and>
     recvs (kernel w') fd = recvs (kernel w) fd \<and> sends (kernel w') fd = sends (kernel w) fd \<and>
     wire (kernel w') fd = wire (kernel w) fd \<and> fin_sent (kernel w') fd = fin_sent (kernel w) fd"

lemma undisturbed_refl: "map_of (conns w) fd = Some c \<Longrightarrow> undisturbed fd c w w"
  by (simp add: undisturbed_def)

lemma undisturbed_trans: "undisturbed fd c w w1 \<Longrightarrow> undisturbed fd c w1 w2 \<Longrightarrow> undisturbed fd c w w2"
  by (simp add: undisturbed_def)

lemma sys_accept_other:
  assumes "sys_accept used k = (r, fd, k')" "fd' \<in> set used"
  shows "recvs k' fd' = recvs k fd'" "sends k' fd' = sends k fd'" "wire k' fd' = wire k fd'" "fin_sent k' fd' = fin_sent k fd'"
proof -
  have ne: "fd' \<noteq> free_fd used n" for n using free_fd_ok(1) [of used n] assms(2) by auto
  show "recvs k' fd' = recvs k fd'" "sends k' fd' = sends k fd'" "wire k' fd' = wire k fd'" "fin_sent k' fd' = fin_sent k fd'"
    using assms(1) by (auto simp: ne sys_accept_def Let_def split: list.splits AcceptResult.splits)
qed

lemma map_of_emplace: "map_of cs fd' = Some c' \<Longrightarrow> map_of (emplace fd c cs) fd' = Some c'"
  by (simp add: emplace_def map_add_def)

lemma accept_loop_undisturbed:
  "map_of (conns w) fd = Some c \<Longrightarrow> undisturbed fd c w (accept_loop i w)"
proof (induction i arbitrary: w)
  case (Suc i)
  obtain r fd1 k where a: "sys_accept (open_fds w) (kernel w) = (r, fd1, k)" by (cases "sys_accept (open_fds w) (kernel w)")
  have "fd \<in> set (open_fds w)" using Suc.prems by (force simp: open_fds_def dest: map_of_SomeD)
  note other = sys_accept_other [OF a this]
  let ?w = "w\<lparr>kernel := k\<rparr>"
  have u: "undisturbed fd c w ?w" using Suc.prems other by (simp add: undisturbed_def)
  have e: "undisturbed fd c w (count_accept_error ?w)" using u by (simp add: undisturbed_def count_accept_error_def)
  have n: "undisturbed fd c w (?w\<lparr>metrics := m, conns := emplace fd1 c1 (conns w)\<rparr>)" for m c1
    using u map_of_emplace [of "conns w" fd c fd1 c1] by (simp add: undisturbed_def)
  have go: "undisturbed fd c w (accept_loop i w1)" if "undisturbed fd c w w1" for w1
    by (rule undisturbed_trans [OF that Suc.IH]) (use that in \<open>simp add: undisturbed_def\<close>)
  show ?case
  proof (cases r)
    case (Accepted m rs ss ok)
    then show ?thesis using a go [OF e] go [OF n] by (simp add: Let_def)
  next
    case AcceptRetry
    then show ?thesis using a go [OF u] by (simp add: Let_def)
  next
    case AcceptAgain
    then show ?thesis using a u by (simp add: Let_def)
  next
    case AcceptFail
    then show ?thesis using a e by (simp add: Let_def)
  qed
qed (simp add: undisturbed_refl)

lemma handle_event_undisturbed:
  assumes "worker_inv w" "handle_event w (fd, ev) = Some w'" "map_of (conns w) fd' = Some c" "fd' \<noteq> fd"
  shows "undisturbed fd' c w w'"
proof -
  consider (wake) "w' = begin_drain w" | (accept) "w' = on_accept w" | (none) "w' = w"
    | (conn) c0 w1 c1 keep where "map_of (conns w) fd = Some c0" "drive w (note_ready c0 ev) = Some (w1, c1, keep)"
        "w' = (let w = w1\<lparr>conns := AList.update fd c1 (conns w1)\<rparr> in if \<not> keep then close_connection w fd else w)"
    using assms(2) by (auto simp: handle_event_def bind_eq_Some_conv Let_def split: if_splits option.splits)
  then show ?thesis
  proof cases
    case wake
    with assms(3) show ?thesis by (simp add: undisturbed_def begin_drain_def Let_def)
  next
    case accept
    with accept_loop_undisturbed [OF assms(3)] show ?thesis by (simp add: on_accept_def)
  next
    case none
    with assms(3) show ?thesis by (simp add: undisturbed_refl)
  next
    case (conn c0 w1 c1 keep)
    have ci: "conn_inv w (note_ready c0 ev)" "c_fd (note_ready c0 ev) = fd"
      using conns_okD [OF _ conn(1)] assms(1) by (simp_all add: worker_inv_def conn_ok_def note_ready_inv)
    note b = drive_beside(1) [OF conn(2) ci(1), unfolded ci(2)]
    have "undisturbed fd' c w w1"
      using beside_sockets [OF b assms(4)] besideD(1) [OF b] assms(3) by (simp add: undisturbed_def)
    then show ?thesis
      using assms(4) conn(3) by (simp add: undisturbed_def Let_def close_connection_def update_conv delete_conv)
  qed
qed

section \<open>Time and draining\<close>

text \<open>How a worker may change while it handles the events of a turn.\<close>

definition onward :: "Worker \<Rightarrow> Worker \<Rightarrow> bool" where
  "onward w w' \<longleftrightarrow> now_us w' = now_us w \<and> wake w' = wake w \<and> w_grace w' = w_grace w \<and>
     mono_clock (kernel w') = mono_clock (kernel w) \<and> mono_reads (kernel w) \<le> mono_reads (kernel w') \<and>
     (draining w \<longrightarrow> draining w' \<and> drain_deadline_us w' = drain_deadline_us w) \<and>
     (\<not> draining w \<and> draining w' \<longrightarrow> drain_deadline_us w' = now_us w + to_us (w_grace w))"

lemma onward_refl [simp]: "onward w w"
  by (simp add: onward_def)

lemma onward_trans:
  assumes "onward w w1" "onward w1 w2"
  shows "onward w w2"
proof (cases "draining w")
  case True
  then show ?thesis using assms by (simp add: onward_def)
next
  case False
  then show ?thesis using assms by (cases "draining w1") (simp_all add: onward_def)
qed

lemma accept_loop_onward: "onward w (accept_loop i w)"
proof (induction i arbitrary: w)
  case (Suc i)
  obtain r fd k where a: "sys_accept (open_fds w) (kernel w) = (r, fd, k)" by (cases "sys_accept (open_fds w) (kernel w)")
  have k: "mono_clock k = mono_clock (kernel w)" "mono_reads k = mono_reads (kernel w)"
    using a by (auto simp: sys_accept_def Let_def split: list.splits AcceptResult.splits)
  have go: "onward w (accept_loop i w1)" if "onward w w1" for w1 by (rule onward_trans [OF that Suc.IH])
  have *: "onward w (w\<lparr>kernel := k\<rparr>)" "onward w (count_accept_error (w\<lparr>kernel := k\<rparr>))"
      "onward w (w\<lparr>kernel := k, metrics := m, conns := cs\<rparr>)" for m cs
    using k by (simp_all add: onward_def count_accept_error_def)
  show ?case by (cases r) (use a * go in \<open>simp_all add: Let_def\<close>)
qed simp

lemma handle_event_onward:
  assumes "worker_inv w" "handle_event w (fd, ev) = Some w'"
  shows "onward w w'" "fd = wake w \<Longrightarrow> draining w'"
proof -
  consider (wake) "fd = wake w" "w' = begin_drain w" | (accept) "fd \<noteq> wake w" "w' = on_accept w" | (none) "fd \<noteq> wake w" "w' = w"
    | (conn) c0 w1 c1 keep where "fd \<noteq> wake w" "map_of (conns w) fd = Some c0" "drive w (note_ready c0 ev) = Some (w1, c1, keep)"
        "w' = (let w = w1\<lparr>conns := AList.update fd c1 (conns w1)\<rparr> in if \<not> keep then close_connection w fd else w)"
    using assms(2) by (auto simp: handle_event_def bind_eq_Some_conv Let_def split: if_splits option.splits)
  then have "onward w w' \<and> (fd = wake w \<longrightarrow> draining w')"
  proof cases
    case wake
    then show ?thesis by (simp add: onward_def begin_drain_def Let_def)
  next
    case accept
    then show ?thesis by (simp add: accept_loop_onward on_accept_def)
  next
    case none
    then show ?thesis by simp
  next
    case (conn c0 w1 c1 keep)
    have ci: "conn_inv w (note_ready c0 ev)" "c_fd (note_ready c0 ev) = fd"
      using conns_okD [OF _ conn(2)] assms(1) by (simp_all add: worker_inv_def conn_ok_def note_ready_inv)
    note b = drive_beside(1) [OF conn(3) ci(1), unfolded ci(2)]
    have "onward w w1" using besideD [OF b] beside_kernel [OF b] by (simp add: onward_def)
    then show ?thesis using conn by (simp add: onward_def Let_def close_connection_def)
  qed
  then show "onward w w'" "fd = wake w \<Longrightarrow> draining w'" by simp_all
qed

lemma handle_events_onward:
  "worker_inv w \<Longrightarrow> handle_events w es = Some w' \<Longrightarrow>
     onward w w' \<and> (wake w \<in> fst ` set es \<longrightarrow> draining w')"
proof (induction es arbitrary: w)
  case (Cons e es)
  obtain fd ev where e: "e = (fd, ev)" by (cases e)
  obtain w1 where w1: "handle_event w e = Some w1" "worker_inv w1" by (rule handle_event_inv [OF Cons.prems(1)])
  have o: "onward w w1" "fd = wake w \<Longrightarrow> draining w1" using handle_event_onward [OF Cons.prems(1)] w1(1) e by auto
  have o1: "onward w1 w'" "wake w1 \<in> fst ` set es \<Longrightarrow> draining w'" using Cons w1 by simp_all
  have "draining w'" if "wake w \<in> fst ` set (e # es)"
  proof (cases "fd = wake w")
    case True
    then show ?thesis using o(2) o1(1) by (simp add: onward_def)
  next
    case False
    moreover have "wake w1 = wake w" using o(1) by (simp add: onward_def)
    ultimately show ?thesis using o1(2) that e by simp
  qed
  with onward_trans [OF o(1) o1(1)] show ?case by blast
qed simp

section \<open>The end of the loop\<close>

fun is_woken :: "WaitResult \<Rightarrow> bool" where
  "is_woken (Woken _ _ _ _) = True"
| "is_woken _ = False"

lemma wake_up_simps:
  "now_us (wake_up w n) = mono_clock (kernel w) (mono_reads (kernel w))" "wake (wake_up w n) = wake w"
  "w_grace (wake_up w n) = w_grace w" "draining (wake_up w n) = draining w" "drain_deadline_us (wake_up w n) = drain_deadline_us w"
  "mono_clock (kernel (wake_up w n)) = mono_clock (kernel w)" "mono_reads (kernel (wake_up w n)) = Suc (mono_reads (kernel w))"
  by (simp_all add: wake_up_def sys_mono_us_def)

lemma wake_up_same:
  "conns (wake_up w n) = conns w" "listener (wake_up w n) = listener w" "tick_us (wake_up w n) = tick_us w"
  by (simp_all add: wake_up_def sys_mono_us_def)

lemma arrive_simps:
  "mono_clock (arrive rs ss as k) = mono_clock k" "mono_reads (arrive rs ss as k) = mono_reads k"
  by (simp_all add: arrive_def)

text \<open>A turn of a worker that drains, or that is told to: it ends the loop when the deadline has
  passed, and otherwise the clock has been read once more.\<close>

lemma run_turn_drains:
  assumes inv: "worker_inv w" and D: "if draining w then D = drain_deadline_us w
      else wake w \<in> fst ` set es \<and> D = mono_clock (kernel w) (mono_reads (kernel w)) + to_us (w_grace w)"
  obtains (stop) w' where "run_turn (Woken es rs ss as) (w, l) = Some (Stop w')" "worker_inv w'"
  | (again) w' l' where "run_turn (Woken es rs ss as) (w, l) = Some (Again (w', l'))" "worker_inv w'" "draining w'"
      "drain_deadline_us w' = D" "mono_clock (kernel w') = mono_clock (kernel w)"
      "mono_reads (kernel w) < mono_reads (kernel w')" "mono_clock (kernel w) (mono_reads (kernel w)) < D"
proof -
  let ?w = "wake_up (w\<lparr>kernel := arrive rs ss as (kernel w)\<rparr>) (length es)"
  have inv1: "worker_inv ?w" using inv by (simp add: wake_up_inv)
  obtain w1 where w1: "handle_events ?w es = Some w1" "worker_inv w1" by (rule handle_events_inv [OF inv1])
  have o: "onward ?w w1" "wake w \<in> fst ` set es \<longrightarrow> draining w1"
    using handle_events_onward [OF inv1 w1(1)] by (simp_all add: wake_up_simps)
  have d: "draining w1" "drain_deadline_us w1 = D"
    using o D by (auto simp: onward_def wake_up_simps arrive_simps split: if_splits)
  have k: "mono_clock (kernel w1) = mono_clock (kernel w)" "mono_reads (kernel w) < mono_reads (kernel w1)"
      "now_us w1 = mono_clock (kernel w) (mono_reads (kernel w))"
    using o(1) by (simp_all add: onward_def wake_up_simps arrive_simps)
  have t: "run_turn (Woken es rs ss as) (w, l) = Some (if conns (sweep w1) = [] \<or> D \<le> now_us w1
      then Stop (sweep w1) else Again (sweep w1, now_us w1))"
    using d by (simp add: run_turn_Woken w1(1) turn_end_def sweep_ok)
  show ?thesis
  proof (cases "conns (sweep w1) = [] \<or> D \<le> now_us w1")
    case True
    show ?thesis by (rule stop [of "sweep w1"]) (use t True sweep_inv [OF w1(2)] in simp_all)
  next
    case False
    show ?thesis
      by (rule again [of "sweep w1" "now_us w1"]) (use t False d k sweep_inv [OF w1(2)] in \<open>simp_all add: sweep_ok not_le\<close>)
  qed
qed

lemma run_turn_other: "\<not> is_woken r \<Longrightarrow> run_turn r (w, l) = Some (Again (w, l)) \<or> run_turn r (w, l) = Some (Stop w)"
  by (cases r) (simp_all add: run_turn_def)

lemma draining_ends:
  assumes "worker_inv w" "draining w" "\<And>i. N \<le> i \<Longrightarrow> drain_deadline_us w \<le> mono_clock (kernel w) i"
    "N - mono_reads (kernel w) < length (filter is_woken waits)"
  shows "\<exists>w'. run_loop_on waits (w, l) = Some (Stop w') \<and> worker_inv w' \<and> conns w' = []"
  using assms
proof (induction waits arbitrary: w l)
  case (Cons r waits)
  have fin: ?case if "run_turn r (w, l) = Some (Stop w1)" "worker_inv w1" for w1
    using that close_all_ok [OF that(2)] by simp
  show ?case
  proof (cases r)
    case (Woken es rs ss as)
    show ?thesis
    proof (cases rule: run_turn_drains [where es = es and rs = rs and ss = ss and as = as and l = l and D = "drain_deadline_us w",
          OF Cons.prems(1)])
      case 1
      show ?case using Cons.prems(2) by simp
    next
      case (2 w')
      with fin Woken show ?thesis by blast
    next
      case (3 w' l')
      have "mono_reads (kernel w) < N" using 3(7) Cons.prems(3) [of "mono_reads (kernel w)"] by (meson not_less)
      then have "N - mono_reads (kernel w') < length (filter is_woken waits)" using Cons.prems(4) 3(6) Woken by simp
      with Cons.IH [of w' l'] Cons.prems(3) 3 show ?thesis by (simp add: Woken)
    qed
  next
    case WaitIntr
    with Cons.IH [of w l] Cons.prems show ?thesis by (simp add: run_turn_def)
  next
    case WaitFail
    with fin [of w] Cons.prems(1) show ?thesis by (simp add: run_turn_def)
  qed
qed simp

section \<open>A sample run\<close>

text \<open>Two clients connect, and the first has an event; then the worker is told to stop.\<close>

definition sample_clock :: Kernel where
  "sample_clock = idle_kernel\<lparr>mono_clock := (\<lambda>i. if i < 4 then 1 else 100000000)\<rparr>"

definition sample_worker :: Worker where
  "sample_worker = new_worker default_config (\<lambda>_. []) 3 4 sample_clock"

definition sample_start :: LoopState where
  "sample_start = (let (now, k) = sys_mono_us (kernel sample_worker) in (sample_worker\<lparr>kernel := k\<rparr>, now))"

definition quiet_wait :: "(int \<times> u32) list \<Rightarrow> AcceptResult list \<Rightarrow> WaitResult" where
  "quiet_wait es as = Woken es (\<lambda>_. []) (\<lambda>_. []) as"

definition sample_waits :: "WaitResult list" where
  "sample_waits = [quiet_wait [(3, EPOLLIN)] [Accepted 5 [] [] True, Accepted 6 [] [] True], quiet_wait [(5, EPOLLIN)] []]"

lemma sample_config: "sound_config default_config"
  by (simp add: sound_config_def default_config_def default_limits_def limits_ok_def tail_bound_def)

lemma sample_running: "runs_from sample_worker sample_start"
  by (auto simp: sample_start_def split: prod.split intro: runs_from.start)

lemmas accept_loop_numeral = accept_loop.simps(2) [where i = "pred_numeral v" for v, folded numeral_eq_Suc]

lemma sample_accept:
  "\<exists>w. run_turn (quiet_wait [(3, EPOLLIN)] [Accepted 5 [] [] True, Accepted 6 [] [] True]) sample_start = Some (Again (w, 1)) \<and>
     conns w = [(5, new_connection 5 default_limits 1 (\<lambda>_. SP)), (6, new_connection 6 default_limits 1 (\<lambda>_. SP))] \<and>
     recvs (kernel w) 5 = [] \<and> max_in_buffer w = 65536 \<and> fresh_memory (kernel w) = (\<lambda>_. SP) \<and> wake w = 4 \<and> listener w = 3 \<and>
     \<not> draining w \<and> tick_us w = 1000000 \<and> mono_clock (kernel w) (mono_reads (kernel w)) = 1 \<and>
     connections_closed (metrics w) = 0"
  by (simp add: quiet_wait_def run_turn_Woken sample_start_def sample_worker_def sample_clock_def new_worker_def
      idle_kernel_def sys_mono_us_def default_config_def to_us_def wake_up_def handle_event_def fd_valid_def
      on_accept_def kAcceptBatch_def accept_loop_numeral sys_accept_def free_fd_def open_fds_def emplace_def arrive_def turn_end_def
      default_limits_def new_metrics_def Let_def)

text \<open>An event of a connection on which nothing has arrived.\<close>

lemma drive_idle:
  assumes c: "untouched c" "\<not> peer_closed c" "\<not> close_after_write c" and r: "recvs (kernel w) (c_fd c) = []"
    and b: "bb_size (c_in c) < max_in_buffer w" "prepare (fresh_memory (kernel w)) (c_in c) kReadSize = Some (b, dst)" "readable b = []"
  shows "drive w c = Some (w, c\<lparr>c_in := b, can_read := False\<rparr>, True)"
proof -
  let ?c = "c\<lparr>c_in := b, can_read := False\<rparr>"
  have o: "\<not> has_output ?c" using c(1) by (simp add: untouched_def has_output_def out_pending_def body_source_active_def)
  have "read_turn (w, c, False) = Some (Stop (w, ?c, False, True))"
    using b r by (simp add: read_turn_def sys_recv_def)
  then have rd: "read_phase w c = Some (w, ?c, False, True)"
    using c b(1) by (simp add: read_phase_def wants_read_def untouched_def do_read_def iterate_Stop)
  have "process_turn (w, ?c, False) = Stop (w, ?c, False)" using b(3) by (simp add: process_turn_def)
  then have "process w ?c = Some (w, ?c, False)" by (simp add: process_def iterate_Stop)
  then have "drive_turn (w, c) = Some (Stop (drive_end w ?c))"
    using rd o by (simp add: drive_turn_def write_phase_def)
  then show ?thesis using o c by (simp add: drive_def iterate_Stop drive_end_def)
qed

lemma note_ready_ready: "can_read c \<Longrightarrow> can_write c \<Longrightarrow> note_ready c ev = c"
  by (cases c) (simp add: note_ready_def Let_def)

lemma sample_worker_run:
  "\<exists>w l c5 c6. runs_from sample_worker (w, l) \<and> map_of (conns w) 5 = Some c5 \<and> \<not> untouched c5 \<and>
     map_of (conns w) 6 = Some c6 \<and> 6 \<noteq> (5 :: int)"
proof -
  obtain w where w: "run_turn (quiet_wait [(3, EPOLLIN)] [Accepted 5 [] [] True, Accepted 6 [] [] True]) sample_start = Some (Again (w, 1))"
      "conns w = [(5, new_connection 5 default_limits 1 (\<lambda>_. SP)), (6, new_connection 6 default_limits 1 (\<lambda>_. SP))]"
      "recvs (kernel w) 5 = []" "max_in_buffer w = 65536" "fresh_memory (kernel w) = (\<lambda>_. SP)" "wake w = 4" "listener w = 3"
      "\<not> draining w" "tick_us w = 1000000" "mono_clock (kernel w) (mono_reads (kernel w)) = 1"
    using sample_accept by blast
  let ?w = "wake_up (w\<lparr>kernel := arrive (\<lambda>_. []) (\<lambda>_. []) [] (kernel w)\<rparr>) 1"
  let ?n = "new_connection 5 default_limits 1 (\<lambda>_. SP)"
  have n: "readable (new_buffer (\<lambda>_. SP)) = []" by (simp add: readable_def new_buffer_def bb_size_def)
  have "bb_inv (new_buffer (\<lambda>_. SP))" by (simp add: bb_inv_def new_buffer_def)
  then obtain b dst where b: "prepare (\<lambda>_. SP) (new_buffer (\<lambda>_. SP)) kReadSize = Some (b, dst)" "readable b = readable (new_buffer (\<lambda>_. SP))"
    using prepare_law [of "new_buffer (\<lambda>_. SP)" kReadSize "\<lambda>_. SP"] n by (auto simp: kReadSize_def)
  let ?d = "?n\<lparr>c_in := b, can_read := False\<rparr>"
  have "drive ?w ?n = Some (?w, ?d, True)"
  proof (rule drive_idle)
    show "untouched ?n" by (rule fresh_connection)
  qed (use b n w in \<open>simp_all add: new_connection_def wake_up_def arrive_def sys_mono_us_def bb_size_def new_buffer_def\<close>)
  moreover have "note_ready ?n EPOLLIN = ?n" by (rule note_ready_ready) (simp_all add: new_connection_def)
  ultimately have "handle_event ?w (5, EPOLLIN) = Some (?w\<lparr>conns := AList.update 5 ?d (conns w)\<rparr>)"
    using w by (simp add: handle_event_def wake_up_simps wake_up_same)
  then have "run_turn (quiet_wait [(5, EPOLLIN)] []) (w, 1) = Some (Again (?w\<lparr>conns := AList.update 5 ?d (conns w)\<rparr>, 1))"
    using w by (simp add: quiet_wait_def run_turn_Woken turn_end_def wake_up_simps arrive_simps wake_up_same)
  from runs_from.turn [OF runs_from.turn [OF sample_running w(1)] this]
  have "runs_from sample_worker (?w\<lparr>conns := AList.update 5 ?d (conns w)\<rparr>, 1)" .
  moreover have "\<not> untouched ?d" by (simp add: untouched_def)
  ultimately show ?thesis using w(2)
    by (intro exI [of _ "?w\<lparr>conns := AList.update 5 ?d (conns w)\<rparr>"] exI [of _ 1] exI [of _ ?d]
        exI [of _ "new_connection 6 default_limits 1 (\<lambda>_. SP)"]) (simp add: update_conv)
qed

section \<open>Properties\<close>

text \<open>C1: The state of a worker is well formed at all times. Whatever clients connect, send and take,
  and whatever \<^verbatim>\<open>epoll_wait\<close> answers, in every state of the event loop the map of connections holds each
  descriptor once and never that of the listener or of the event descriptor, the connection stored
  under a descriptor owns it and satisfies the connection invariant, the counters of accepted and
  closed connections differ by exactly the number of open ones, and a worker that drains has given
  up its listener. From every such state the next turn of the loop returns.\<close>

theorem worker_stays_sound:
  assumes "sound_config cfg" and "0 \<le> wk" and "runs_from (new_worker cfg rts lst wk k) (w, last_sweep)"
  shows "distinct (map fst (conns w)) \<and>
    (\<forall>fd c. map_of (conns w) fd = Some c \<longrightarrow> c_fd c = fd \<and> fd \<noteq> wake w \<and> fd \<noteq> listener w \<and> conn_inv w c) \<and>
    connections_accepted (metrics w) = connections_closed (metrics w) + word_of_nat (length (conns w)) \<and>
    (draining w \<longrightarrow> \<not> fd_valid (listener w)) \<and> (\<forall>r. run_turn r (w, last_sweep) \<noteq> None)"
proof -
  have inv: "worker_inv w" using runs_from_inv [OF assms(3) new_worker_inv [OF assms(1,2)]] by simp
  have "run_turn r (w, last_sweep) \<noteq> None" for r by (cases rule: run_turn_inv [OF inv, of r last_sweep]) simp_all
  moreover have "c_fd c = fd \<and> fd \<noteq> wake w \<and> fd \<noteq> listener w \<and> conn_inv w c" if "map_of (conns w) fd = Some c" for fd c
    using conns_okD [OF _ that] inv by (simp add: worker_inv_def conn_ok_def)
  ultimately show ?thesis
    using inv by (simp add: worker_inv_def conns_ok_def accounted_def config_ok_def)
qed

theorem worker_stays_sound_witness:
  "\<exists>w l. runs_from sample_worker (w, l) \<and> conns w \<noteq> [] \<and> distinct (map fst (conns w)) \<and>
     connections_accepted (metrics w) = connections_closed (metrics w) + word_of_nat (length (conns w))"
proof -
  obtain w l c5 where w: "runs_from sample_worker (w, l)" "map_of (conns w) 5 = Some c5" using sample_worker_run by blast
  from worker_stays_sound [OF sample_config, of 4 "\<lambda>_. []" 3 sample_clock w l] w show ?thesis
    by (auto simp: sample_worker_def)
qed



text \<open>C4: An event touches only the connection it is for. When an event is handled, be it input or output
  of a connection, a new connection or the request to stop, every other connection keeps its whole
  state, and on its socket nothing is read, written or shut down.\<close>

theorem events_isolated:
  assumes "sound_config cfg" and "0 \<le> wk" and "runs_from (new_worker cfg rts lst wk k) (w, last_sweep)"
    and "handle_event w (fd, ev) = Some w'" and "map_of (conns w) fd' = Some c" and "fd' \<noteq> fd"
  shows "map_of (conns w') fd' = Some c \<and> recvs (kernel w') fd' = recvs (kernel w) fd' \<and>
    wire (kernel w') fd' = wire (kernel w) fd' \<and> fin_sent (kernel w') fd' = fin_sent (kernel w) fd'"
proof -
  have "worker_inv w" using runs_from_inv [OF assms(3) new_worker_inv [OF assms(1,2)]] by simp
  from handle_event_undisturbed [OF this assms(4,5,6)] show ?thesis by (simp add: undisturbed_def)
qed

theorem events_isolated_witness:
  "\<exists>w l w' c. runs_from sample_worker (w, l) \<and> handle_event w (5, EPOLLIN) = Some w' \<and>
     map_of (conns w) 6 = Some c \<and> map_of (conns w') 6 = Some c"
proof -
  obtain w l c where w: "runs_from sample_worker (w, l)" "map_of (conns w) 6 = Some c" using sample_worker_run by blast
  have "worker_inv w"
    using runs_from_inv [OF w(1)] new_worker_inv [OF sample_config, of 4] by (simp add: sample_worker_def)
  then obtain w' where w': "handle_event w (5, EPOLLIN) = Some w'" by (rule handle_event_inv)
  have "map_of (conns w') 6 = Some c"
    using events_isolated [OF sample_config _ w(1) [unfolded sample_worker_def] w' w(2)] by simp
  with w w' show ?thesis by blast
qed

text \<open>C5: The sweep closes exactly the connections whose time is over. A connection stays if and only if
  the worker does not drain or it is busy, its header is complete or not begun or within the header
  timeout, and it was active within the idle timeout; those that stay are unchanged and in order.
  Every closed connection is counted, and those that timed out are counted as such.\<close>

theorem sweep_exact:
  "conns (sweep w) = filter (\<lambda>(fd, c).
       \<not> (draining w \<and> \<not> has_output c \<and> bb_empty (c_in c) \<and> \<not> started (c_parser c)) \<and>
       (request_start_us c = 0 \<or> headers_complete (c_parser c) \<or> now_us w - request_start_us c \<le> header_timeout_us w) \<and>
       now_us w - last_active_us c \<le> idle_timeout_us w) (conns w) \<and>
   connections_closed (metrics (sweep w)) + word_of_nat (length (conns (sweep w))) =
     connections_closed (metrics w) + word_of_nat (length (conns w)) \<and>
   connections_timed_out (metrics (sweep w)) - connections_timed_out (metrics w) =
     word_of_nat (length (filter (\<lambda>(fd, c). expiry w c = TimesOut) (conns w))) \<and>
   kernel (sweep w) = kernel w"
proof -
  have stays: "expiry w c = Stays \<longleftrightarrow> \<not> (draining w \<and> \<not> has_output c \<and> bb_empty (c_in c) \<and> \<not> started (c_parser c)) \<and>
       (request_start_us c = 0 \<or> headers_complete (c_parser c) \<or> now_us w - request_start_us c \<le> header_timeout_us w) \<and>
       now_us w - last_active_us c \<le> idle_timeout_us w" for c
    by (auto simp: expiry_def conn_idle_def not_le)
  show ?thesis
    unfolding stays [symmetric] by (simp add: sweep_ok sweep_partition)
qed

text \<open>C2: A request to stop ends the worker. When the event descriptor is signalled in a state of the event
  loop, then as soon as the clock has passed the grace period, whatever else happens, the loop ends:
  every connection is closed and counted as closed, and the listener is gone. It is enough that
  \<^verbatim>\<open>epoll_wait\<close> returns often enough, as it does with its timeout, for the clock to be seen past the
  deadline: here, that the readings from the \<open>N\<close>-th on are past it and the loop gets to the \<open>N\<close>-th.\<close>

theorem stop_ends_the_worker:
  assumes "sound_config cfg" and "0 \<le> wk" and "runs_from (new_worker cfg rts lst wk k) (w, last_sweep)"
    and "\<not> draining w" and "wake w \<in> fst ` set es"
    and "\<And>i. N \<le> i \<Longrightarrow> mono_clock (kernel w) (mono_reads (kernel w)) + to_us (w_grace w) \<le> mono_clock (kernel w) i"
    and "N - mono_reads (kernel w) \<le> length (filter is_woken waits)"
  shows "\<exists>w'. run_loop_on (Woken es rs ss as # waits) (w, last_sweep) = Some (Stop w') \<and> conns w' = [] \<and>
    connections_accepted (metrics w') = connections_closed (metrics w')"
proof -
  let ?D = "mono_clock (kernel w) (mono_reads (kernel w)) + to_us (w_grace w)"
  have inv: "worker_inv w" using runs_from_inv [OF assms(3) new_worker_inv [OF assms(1,2)]] by simp
  have fin: ?thesis if "run_loop_on (Woken es rs ss as # waits) (w, last_sweep) = Some (Stop w1)" "worker_inv w1" "conns w1 = []" for w1
    using that by (simp add: worker_inv_def accounted_def)
  show ?thesis
  proof (cases rule: run_turn_drains [where es = es and rs = rs and ss = ss and as = as and l = last_sweep and D = ?D, OF inv])
    case 1
    show ?case using assms(4,5) by simp
  next
    case (2 w1)
    show ?thesis by (rule fin [of "close_all w1"]) (use 2 close_all_ok [OF 2(2)] in simp_all)
  next
    case (3 w1 l1)
    have "mono_reads (kernel w) < N" using 3(7) assms(6) [of "mono_reads (kernel w)"] by (meson not_less)
    then have "N - mono_reads (kernel w1) < length (filter is_woken waits)" using assms(7) 3(6) by simp
    then obtain w2 where "run_loop_on waits (w1, l1) = Some (Stop w2)" "worker_inv w2" "conns w2 = []"
      using draining_ends [of w1 N waits l1] 3 assms(6) by auto
    with fin [of w2] 3(1) show ?thesis by simp
  qed
qed

theorem stop_ends_the_worker_witness:
  "\<exists>w'. run_loop_on [quiet_wait [(4, EPOLLIN)] [], quiet_wait [] [], quiet_wait [] []] sample_start = Some (Stop w') \<and> conns w' = [] \<and>
     connections_accepted (metrics w') = connections_closed (metrics w')"
proof -
  obtain w l where s: "sample_start = (w, l)" by (cases sample_start)
  have w: "\<not> draining w" "wake w = 4" "mono_clock (kernel w) = (\<lambda>i. if i < 4 then 1 else 100000000)"
      "mono_reads (kernel w) = 2" "w_grace w = 5000"
    using s by (auto simp: sample_start_def sample_worker_def sample_clock_def new_worker_def idle_kernel_def
        sys_mono_us_def default_config_def Let_def)
  have r: "runs_from (new_worker default_config (\<lambda>_. []) 3 4 sample_clock) (w, l)"
    using sample_running s by (simp add: sample_worker_def)
  show ?thesis
    unfolding s quiet_wait_def
    by (rule stop_ends_the_worker [OF sample_config _ r, where N = 4])
      (use w in \<open>simp_all add: to_us_def\<close>)
qed

end
