(* ===== verification/Static_Files.thy ===== *)
theory Static_Files
  imports Response_Writer
begin

text \<open>
  The static file handler of \<^verbatim>\<open>src/src/app/static_files.cpp\<close>. The kernel is a parameter: what
  \<^verbatim>\<open>openat2\<close> and \<^verbatim>\<open>openat\<close> return for a path below the root directory and what \<^verbatim>\<open>fstat\<close> returns for
  a descriptor, by the number of the call, since the file system may change between two calls.
  \<^verbatim>\<open>serve\<close> answers the response together with what it did to descriptors: the paths it opened with
  the descriptors it got, and the descriptors it closed through \<^verbatim>\<open>UniqueFd\<close>.
\<close>

section \<open>The code\<close>

definition hex_digit :: "char \<Rightarrow> int" where
  "hex_digit c =
     (if 48 \<le> byte c \<and> byte c \<le> 57 then int (byte c) - 48
      else if 97 \<le> byte c \<and> byte c \<le> 102 then int (byte c) - 97 + 10
      else if 65 \<le> byte c \<and> byte c \<le> 70 then int (byte c) - 65 + 10
      else -1)"

datatype FileKind = Regular | Directory | OtherKind

record Kernel =
  sys_openat2 :: "nat \<Rightarrow> string \<Rightarrow> int \<times> int"
  sys_openat :: "nat \<Rightarrow> string \<Rightarrow> int"
  sys_fstat :: "nat \<Rightarrow> int \<Rightarrow> (FileKind \<times> size_t) option"

definition ENOSYS :: int where
  "ENOSYS = 38"

text \<open>The number of the call is the first argument of each system call.\<close>

definition open_beneath :: "Kernel \<Rightarrow> nat \<Rightarrow> string \<Rightarrow> int" where
  "open_beneath k call path =
     (let (fd, errno) = sys_openat2 k call path in
      if fd \<ge> 0 \<or> errno \<noteq> ENOSYS then fd else sys_openat k call path)"

definition mime_type :: "string \<Rightarrow> string" where
  "mime_type path =
     (let ext = (case rfind_char CHR ''.'' path of None \<Rightarrow> [] | Some dot \<Rightarrow> drop (dot + 1) path) in
      if ext = ''html'' \<or> ext = ''htm'' then ''text/html; charset=utf-8''
      else if ext = ''css'' then ''text/css; charset=utf-8''
      else if ext = ''js'' \<or> ext = ''mjs'' then ''text/javascript; charset=utf-8''
      else if ext = ''json'' then ''application/json''
      else if ext = ''txt'' \<or> ext = ''log'' then ''text/plain; charset=utf-8''
      else if ext = ''svg'' then ''image/svg+xml''
      else if ext = ''png'' then ''image/png''
      else if ext = ''jpg'' \<or> ext = ''jpeg'' then ''image/jpeg''
      else if ext = ''gif'' then ''image/gif''
      else if ext = ''ico'' then ''image/x-icon''
      else if ext = ''wasm'' then ''application/wasm''
      else if ext = ''pdf'' then ''application/pdf''
      else ''application/octet-stream'')"

text \<open>The loop that decodes the URL path, from position \<open>i\<close> on.\<close>

fun decode_loop :: "string \<Rightarrow> string \<Rightarrow> string option" where
  "decode_loop [] decoded = Some decoded"
| "decode_loop (c # rest) decoded =
     (if c = CHR ''%'' then
        (case rest of
           h # l # rest' \<Rightarrow>
             (if hex_digit h < 0 \<or> hex_digit l < 0 then None
              else
                let c = char_of (nat (hex_digit h * 16 + hex_digit l)) in
                if c = CHR 0x00 \<or> c = CHR 0x5C then None else decode_loop rest' (decoded @ [c]))
         | _ \<Rightarrow> None)
      else if c = CHR 0x00 \<or> c = CHR 0x5C then None
      else decode_loop rest (decoded @ [c]))"

text \<open>The loop over the segments; \<open>rest\<close> is the decoded path from \<open>pos\<close> on.\<close>

function segment_loop :: "string \<Rightarrow> string \<Rightarrow> string option" where
  "segment_loop rest out =
     (let slash = find_char CHR ''/'' rest; segment = upto_pos slash rest in
      if segment = ''..'' then None
      else
        let out = (if segment \<noteq> [] \<and> segment \<noteq> ''.''
                   then (if out \<noteq> [] then out @ ''/'' else out) @ segment else out)
        in (case slash of None \<Rightarrow> Some out | Some i \<Rightarrow> segment_loop (drop (i + 1) rest) out))"
  by pat_completeness auto
termination
  by (relation "measure (\<lambda>(rest, out). length rest)") (auto dest!: find_char_less [OF sym])

declare segment_loop.simps [simp del]

definition sanitize :: "string \<Rightarrow> string option" where
  "sanitize url_path = Option.bind (decode_loop url_path []) (\<lambda>decoded. segment_loop decoded [])"

record ServeResult =
  served :: Response
  opened :: "(string \<times> int) list"
  closed :: "int list"

text \<open>\<^verbatim>\<open>UniqueFd::reset\<close>, the move assignment (also that of a whole \<^verbatim>\<open>Response\<close>) and the destructor
  close what the object holds.\<close>

definition close_if :: "int \<Rightarrow> int list" where
  "close_if fd = (if fd_valid fd then [fd] else [])"

text \<open>Lines 106 to 111 of \<^verbatim>\<open>serve\<close>: open the path, and its \<^verbatim>\<open>index.html\<close> when it is a directory.\<close>

definition open_file :: "Kernel \<Rightarrow> string \<Rightarrow> string \<times> int \<times> (string \<times> int) list \<times> int list" where
  "open_file k path =
     (let fd = open_beneath k 0 path in
      case (if fd_valid fd then sys_fstat k 0 fd else None) of
        Some (Directory, _) \<Rightarrow>
          let path' = path @ ''/index.html''; fd' = open_beneath k 1 path'
          in (path', fd', [(path, fd), (path', fd')], close_if fd)
      | _ \<Rightarrow> (path, fd, [(path, fd)], []))"

text \<open>Lines 112 to 123: the answer for the descriptor.\<close>

definition answer_file :: "Kernel \<Rightarrow> Response \<Rightarrow> string \<Rightarrow> int \<Rightarrow> (string \<times> int) list \<Rightarrow> int list \<Rightarrow> ServeResult" where
  "answer_file k res path fd ops cls =
     (case (if fd_valid fd then sys_fstat k 1 fd else None) of
        Some (Regular, st_size) \<Rightarrow>
          \<lparr>served = res\<lparr>status := 200,
               res_headers := h_set (res_headers res) ''Content-Type'' (mime_type path),
               res_file := fd, file_offset := 0, file_length := st_size\<rparr>,
            opened = ops, closed = cls @ close_if (res_file res)\<rparr>
      | _ \<Rightarrow> \<lparr>served = text_response 404 (''not found'' @ [LF]) default_type,
               opened = ops, closed = cls @ close_if (res_file res) @ close_if fd\<rparr>)"

definition serve :: "Kernel \<Rightarrow> int \<Rightarrow> string \<Rightarrow> Response \<Rightarrow> ServeResult" where
  "serve k root rel_path res =
     (if \<not> fd_valid root
      then \<lparr>served = text_response 404 (''static root not available'' @ [LF]) default_type,
             opened = [], closed = close_if (res_file res)\<rparr>
      else (case sanitize rel_path of
        None \<Rightarrow> \<lparr>served = text_response 400 (''invalid path'' @ [LF]) default_type,
                 opened = [], closed = close_if (res_file res)\<rparr>
      | Some p \<Rightarrow>
          (case open_file k (if p = [] then ''index.html'' else p) of
             (path, fd, ops, cls) \<Rightarrow> answer_file k res path fd ops cls)))"

section \<open>The segments of a sanitized path\<close>

definition keeps :: "string \<Rightarrow> bool" where
  "keeps seg \<longleftrightarrow> seg \<noteq> [] \<and> seg \<noteq> ''.''"

lemma segment_loop_spec:
  "segment_loop rest (intercalate ''/'' ms) =
     (if ''..'' \<in> set (split_on CHR ''/'' rest) then None
      else Some (intercalate ''/'' (ms @ filter keeps (split_on CHR ''/'' rest))))"
  if "list_all (\<lambda>m. m \<noteq> []) ms"
  using that
proof (induction "length rest" arbitrary: rest ms rule: less_induct)
  case less
  have snoc: "(if intercalate ''/'' ms \<noteq> [] then intercalate ''/'' ms @ ''/'' else intercalate ''/'' ms) @ seg =
      intercalate ''/'' (ms @ [seg])" for seg
    using intercalate_Nil [OF less.prems, of "''/''"] by (auto simp: intercalate_snoc)
  show ?case
  proof (cases "find_char CHR ''/'' rest")
    case None
    then have "split_on CHR ''/'' rest = [rest]" by (simp add: split_on_find [of _ rest])
    with None snoc [of rest] show ?thesis
      by (subst segment_loop.simps) (auto simp: Let_def keeps_def)
  next
    case (Some i)
    then have "length (drop (Suc i) rest) < length rest" by (auto dest: find_char_less)
    note IH = less.hyps [OF this]
    have "split_on CHR ''/'' rest = take i rest # split_on CHR ''/'' (drop (Suc i) rest)"
      using Some by (subst split_on_find) simp
    with Some IH [of ms] IH [of "ms @ [take i rest]"] less.prems snoc [of "take i rest"] show ?thesis
      by (subst segment_loop.simps) (auto simp: Let_def keeps_def)
  qed
qed

lemma decode_loop_clean:
  assumes "decode_loop s acc = Some d" and "CHR 0x00 \<notin> set acc" "CHR 0x5C \<notin> set acc"
  shows "CHR 0x00 \<notin> set d \<and> CHR 0x5C \<notin> set d"
  using assms
proof (induction s acc rule: decode_loop.induct)
  case (2 c rest decoded)
  show ?case
  proof (cases "c = CHR ''%''")
    case True
    with "2.prems"(1) obtain h l rest' where r: "rest = h # l # rest'"
      by (auto split: list.splits)
    show ?thesis
      using "2.IH"(1) [OF True r refl _ refl] "2.prems" True r by (auto simp: Let_def split: if_splits)
  next
    case False
    then show ?thesis using "2.IH"(2) [OF False] "2.prems" by (auto split: if_splits)
  qed
qed simp

lemma sanitize_segments:
  "sanitize url =
     (case decode_loop url [] of
        None \<Rightarrow> None
      | Some d \<Rightarrow>
          if ''..'' \<in> set (split_on CHR ''/'' d) then None
          else Some (intercalate ''/'' (filter keeps (split_on CHR ''/'' d))))"
  using segment_loop_spec [of "[]"] by (simp add: sanitize_def split: option.split)

lemma split_intercalate:
  assumes "ms \<noteq> []" and "list_all (\<lambda>m. CHR ''/'' \<notin> set m) ms"
  shows "split_on CHR ''/'' (intercalate ''/'' ms) = ms"
  using assms by (induction ms rule: induct_list012) (auto simp: split_on_notin split_on_append)

lemma set_intercalate: "set (intercalate sep ms) \<subseteq> set sep \<union> (\<Union> (set ` set ms))"
  by (induction ms rule: induct_list012) auto

text \<open>A relative path that names something below its directory whatever the directory holds: every
  segment is a proper name.\<close>

definition beneath :: "string \<Rightarrow> bool" where
  "beneath p \<longleftrightarrow> list_all (\<lambda>seg. seg \<noteq> [] \<and> seg \<noteq> ''.'' \<and> seg \<noteq> ''..'') (split_on CHR ''/'' p) \<and>
     CHR 0x00 \<notin> set p \<and> CHR 0x5C \<notin> set p"

lemma beneath_append:
  "beneath p \<Longrightarrow> beneath (p @ ''/index.html'')"
proof -
  have split: "split_on CHR ''/'' (p @ CHR ''/'' # q) = split_on CHR ''/'' p @ split_on CHR ''/'' q" for p q
    by (induction p) (auto split: list.split)
  have "split_on CHR ''/'' ''index.html'' = [''index.html'']" by simp
  then show "beneath p \<Longrightarrow> beneath (p @ ''/index.html'')" by (auto simp: beneath_def split)
qed

lemma sanitize_Some:
  assumes "sanitize url = Some p"
  shows "\<exists>d. decode_loop url [] = Some d \<and> ''..'' \<notin> set (split_on CHR ''/'' d) \<and>
      p = intercalate ''/'' (filter keeps (split_on CHR ''/'' d))"
    and "p = [] \<or> beneath p"
proof -
  obtain d where d: "decode_loop url [] = Some d" "''..'' \<notin> set (split_on CHR ''/'' d)"
      "p = intercalate ''/'' (filter keeps (split_on CHR ''/'' d))"
    using assms by (auto simp: sanitize_segments split: option.splits if_splits)
  then show "\<exists>d. decode_loop url [] = Some d \<and> ''..'' \<notin> set (split_on CHR ''/'' d) \<and>
      p = intercalate ''/'' (filter keeps (split_on CHR ''/'' d))" by blast
  let ?ms = "filter keeps (split_on CHR ''/'' d)"
  have seg: "CHR ''/'' \<notin> set m \<and> set m \<subseteq> set d" if "m \<in> set ?ms" for m
    using that split_on_members [of m "CHR ''/''" d] by auto
  have "beneath p" if "p \<noteq> []"
  proof -
    have "?ms \<noteq> []" using that d(3) by auto
    then have "split_on CHR ''/'' p = ?ms"
      using seg by (simp add: d(3) split_intercalate list_all_iff)
    moreover have "CHR 0x00 \<notin> set d" "CHR 0x5C \<notin> set d" using decode_loop_clean [OF d(1)] by simp_all
    then have "CHR 0x00 \<notin> set p" "CHR 0x5C \<notin> set p"
      using set_intercalate [of "''/''" ?ms] seg by (auto simp: d(3))
    ultimately show ?thesis using d(2) by (auto simp: beneath_def list_all_iff keeps_def)
  qed
  then show "p = [] \<or> beneath p" by blast
qed

definition valid_fds :: "(string \<times> int) list \<Rightarrow> int list" where
  "valid_fds ops = filter fd_valid (map snd ops)"

lemma open_file_fds:
  assumes "beneath p" and "open_file k p = (path, fd, ops, cls)"
  shows "list_all (beneath \<circ> fst) ops" "valid_fds ops = cls @ close_if fd"
proof -
  let ?fd = "open_beneath k 0 p"
  have "\<exists>sz. fd_valid ?fd \<and> sys_fstat k 0 ?fd = Some (Directory, sz) \<or>
      open_file k p = (p, ?fd, [(p, ?fd)], [])"
    by (auto simp: open_file_def Let_def split: option.split FileKind.split)
  then show "list_all (beneath \<circ> fst) ops" "valid_fds ops = cls @ close_if fd"
    using assms beneath_append [OF assms(1)]
    by (auto simp: open_file_def Let_def valid_fds_def close_if_def)
qed

lemma answer_file_cases:
  obtains (regular) sz where "fd_valid fd" "sys_fstat k 1 fd = Some (Regular, sz)"
      "answer_file k res path fd ops cls =
         \<lparr>served = res\<lparr>status := 200,
             res_headers := h_set (res_headers res) ''Content-Type'' (mime_type path),
             res_file := fd, file_offset := 0, file_length := sz\<rparr>,
          opened = ops, closed = cls @ close_if (res_file res)\<rparr>"
  | (other) "answer_file k res path fd ops cls =
       \<lparr>served = text_response 404 (''not found'' @ [LF]) default_type, opened = ops,
        closed = cls @ close_if (res_file res) @ close_if fd\<rparr>"
proof (cases "\<exists>sz. fd_valid fd \<and> sys_fstat k 1 fd = Some (Regular, sz)")
  case True
  then show thesis by (auto simp: answer_file_def intro: regular)
next
  case False
  then show thesis
    by (intro other) (auto simp: answer_file_def split: option.split FileKind.split)
qed

section \<open>Properties\<close>


text \<open>C25: The handler never names anything outside the root and never leaks a descriptor: every path
  it passes to the kernel is a sequence of proper names below the root, and of the descriptors the
  kernel returned each one is closed exactly once or is the file of the response, which is then a
  200 with the size of a regular file.\<close>

theorem serve_stays_beneath:
  assumes "res_file res = -1"
  shows "let r = serve k root rel_path res in
    list_all (beneath \<circ> fst) (opened r) \<and>
    valid_fds (opened r) = closed r @ close_if (res_file (served r)) \<and>
    (\<not> fd_valid (res_file (served r)) \<or>
       status (served r) = 200 \<and> fd_valid root \<and>
       sys_fstat k 1 (res_file (served r)) = Some (Regular, file_length (served r)))"
proof (cases "fd_valid root \<and> sanitize rel_path \<noteq> None")
  case False
  with assms show ?thesis
    by (auto simp: serve_def Let_def valid_fds_def close_if_def text_response_def new_response_def
        fd_valid_def split: option.split)
next
  case True
  then obtain p where p: "fd_valid root" "sanitize rel_path = Some p" by auto
  let ?p = "if p = [] then ''index.html'' else p"
  have "beneath ''index.html''" by (simp add: beneath_def)
  then have b: "beneath ?p" using sanitize_Some(2) [OF p(2)] by auto
  obtain path fd ops cls where o: "open_file k ?p = (path, fd, ops, cls)" by (cases "open_file k ?p")
  then have r: "serve k root rel_path res = answer_file k res path fd ops cls"
    using p by (simp add: serve_def)
  show ?thesis
    unfolding r using open_file_fds [OF b o] assms p(1)
    by (cases rule: answer_file_cases [of fd k res path ops cls])
      (simp_all add: Let_def text_response_def new_response_def close_if_def fd_valid_def)
qed

text \<open>A file system with one file, to evaluate the handler on.\<close>

definition one_file :: Kernel where
  "one_file = \<lparr>sys_openat2 = (\<lambda>_ p. if p = ''a/b.txt'' then (7, 0) else (-1, 2)),
     sys_openat = (\<lambda>_ _. -1), sys_fstat = (\<lambda>_ fd. if fd = 7 then Some (Regular, 42) else None)\<rparr>"

theorem serve_stays_beneath_witness:
  "opened (serve one_file 3 ''a/./%62.txt'' new_response) = [(''a/b.txt'', 7)] \<and>
   res_file (served (serve one_file 3 ''a/./%62.txt'' new_response)) = 7 \<and>
   beneath ''a/b.txt'' \<and> closed (serve one_file 3 ''a/./%62.txt'' new_response) = []"
proof -
  have "res_file new_response = -1" by (simp add: new_response_def)
  note safe = serve_stays_beneath [OF this, of one_file 3 "''a/./%62.txt''"]
  have "sanitize ''a/./%62.txt'' = Some ''a/b.txt''"
    by code_simp
  then have "opened (serve one_file 3 ''a/./%62.txt'' new_response) = [(''a/b.txt'', 7)]"
    "res_file (served (serve one_file 3 ''a/./%62.txt'' new_response)) = 7"
    by (simp_all add: serve_def open_file_def answer_file_def open_beneath_def one_file_def fd_valid_def Let_def)
  with safe show ?thesis by (simp add: Let_def valid_fds_def close_if_def fd_valid_def)
qed

end
