(* ===== verification/Checksum.thy ===== *)
theory Checksum
  imports Byte_Streams
begin

text \<open>
  The CRC-32 of \<^verbatim>\<open>src/src/util/crc32.cpp\<close>. The table-driven routine is shown equal to the
  bit-by-bit definition of the checksum, it can be fed piece by piece, and it detects every error
  confined to four consecutive bytes.
\<close>

unbundle bit_operations_syntax

section \<open>The code\<close>

definition bit_step :: "u32 \<Rightarrow> u32" where
  "bit_step c = (if c AND 1 \<noteq> 0 then 0xEDB88320 XOR drop_bit 1 c else drop_bit 1 c)"

definition make_table :: "u32 list" where
  "make_table = map (\<lambda>i. (bit_step ^^ 8) (word_of_nat i)) [0..<256]"

definition byte_word :: "char \<Rightarrow> u32" where
  "byte_word c = word_of_nat (byte c)"

definition crc32_step :: "u32 \<Rightarrow> char \<Rightarrow> u32" where
  "crc32_step crc c = make_table ! unat ((crc XOR byte_word c) AND 0xFF) XOR drop_bit 8 crc"

definition crc32 :: "string \<Rightarrow> u32 \<Rightarrow> u32" where
  "crc32 data crc = NOT (foldl crc32_step (NOT crc) data)"

section \<open>The bitwise definition\<close>

definition crc32_bitwise :: "string \<Rightarrow> u32 \<Rightarrow> u32" where
  "crc32_bitwise data crc = NOT (foldl (\<lambda>crc c. (bit_step ^^ 8) (crc XOR byte_word c)) (NOT crc) data)"

lemma and_one_iff: "c AND 1 \<noteq> (0 :: u32) \<longleftrightarrow> bit c 0"
  by (simp add: and_one_eq bit_0 odd_iff_mod_2_eq_one)

lemma bit_step_xor: "bit_step (a XOR b) = bit_step a XOR bit_step b"
proof -
  have "drop_bit 1 (a XOR b) = drop_bit 1 a XOR drop_bit 1 b" by (rule drop_bit_xor)
  then show ?thesis
    by (auto simp: bit_step_def and_one_iff bit_xor_iff xor.assoc xor.left_commute)
qed

lemma bit_steps_xor: "(bit_step ^^ n) (a XOR b) = (bit_step ^^ n) a XOR (bit_step ^^ n) b"
  by (induction n) (simp_all add: bit_step_xor)

lemma take_bit_zero_iff: "take_bit n (c :: u32) = 0 \<longleftrightarrow> (\<forall>m<n. \<not> bit c m)"
  by (auto simp: bit_eq_iff bit_take_bit_iff) (use bit_imp_le_length [of c] in force)

lemma bit_steps_low_zero: "take_bit n c = 0 \<Longrightarrow> (bit_step ^^ n) c = drop_bit n c"
proof (induction n arbitrary: c)
  case (Suc n)
  then have "\<not> bit c 0" "take_bit n (drop_bit 1 c) = 0"
    by (simp_all add: take_bit_zero_iff bit_drop_bit_eq)
  moreover from this(2) have "(bit_step ^^ n) (drop_bit 1 c) = drop_bit n (drop_bit 1 c)"
    by (rule Suc.IH)
  ultimately show ?case by (simp add: bit_step_def [of c] and_one_iff funpow_Suc_right del: funpow.simps)
qed simp

lemma low_byte: "x AND 0xFF = take_bit 8 (x :: u32)"
  by (simp add: take_bit_eq_mask mask_eq_exp_minus_1)

lemma byte_word_bits: "take_bit 8 (byte_word c) = byte_word c" "drop_bit 8 (byte_word c) = 0"
proof -
  have less: "byte c < 2 ^ 8" by simp
  show t: "take_bit 8 (byte_word c) = byte_word c"
    using less by (simp add: byte_word_def take_bit_of_nat take_bit_nat_eq_self)
  show "drop_bit 8 (byte_word c) = 0"
    by (subst t [symmetric]) (simp add: drop_bit_take_bit)
qed

lemma crc32_step_bits: "crc32_step crc c = (bit_step ^^ 8) (crc XOR byte_word c)"
proof -
  let ?x = "crc XOR byte_word c"
  have "unat (take_bit 8 x) < 256" for x :: u32
    using take_bit_nat_less_exp [of 8 "unat x"] by (simp add: unsigned_take_bit_eq)
  then have "unat (take_bit 8 ?x) < 256" .
  then have "make_table ! unat (take_bit 8 ?x) = (bit_step ^^ 8) (take_bit 8 ?x)"
    by (simp add: make_table_def)
  moreover have "drop_bit 8 crc = (bit_step ^^ 8) (?x XOR take_bit 8 ?x)"
  proof -
    have "take_bit 8 (?x XOR take_bit 8 ?x) = 0" by (simp add: take_bit_xor)
    moreover have "drop_bit 8 (?x XOR take_bit 8 ?x) = drop_bit 8 crc"
      by (simp add: drop_bit_xor drop_bit_take_bit byte_word_bits)
    ultimately show ?thesis by (simp add: bit_steps_low_zero)
  qed
  ultimately show ?thesis
    unfolding crc32_step_def low_byte
    by (simp add: bit_steps_xor [symmetric] xor.left_commute)
qed

section \<open>Every step is reversible\<close>

lemma bit_step_zero: "bit_step c = 0 \<Longrightarrow> c = 0"
proof -
  assume z: "bit_step c = 0"
  have "bit (bit_step c) 31 = bit c 0"
    using bit_imp_le_length [of c 32] by (auto simp: bit_step_def and_one_iff bit_xor_iff bit_drop_bit_eq)
  with z have low: "\<not> bit c 0" by simp
  with z have "drop_bit 1 c = 0" by (simp add: bit_step_def and_one_iff)
  moreover have "bit (drop_bit 1 c) n = bit c (Suc n)" for n by (simp add: bit_drop_bit_eq)
  ultimately have "\<not> bit c (Suc n)" for n by simp
  with low have "\<not> bit c n" for n by (cases n) simp_all
  then show "c = 0" by (simp add: bit_eq_iff)
qed

lemma bit_steps_inj: "(bit_step ^^ n) a = (bit_step ^^ n) b \<longleftrightarrow> a = b"
proof -
  have zero: "(bit_step ^^ n) c = 0 \<Longrightarrow> c = 0" for c
    by (induction n) (auto dest: bit_step_zero)
  have "(bit_step ^^ n) a = (bit_step ^^ n) b \<Longrightarrow> (bit_step ^^ n) (a XOR b) = 0"
    by (simp add: bit_steps_xor)
  with zero have "(bit_step ^^ n) a = (bit_step ^^ n) b \<Longrightarrow> a XOR b = 0" by blast
  then show ?thesis by (metis xor.assoc xor.left_neutral xor_self_eq)
qed

lemma xor_right_cancel: "a XOR x = b XOR x \<longleftrightarrow> a = (b :: u32)"
proof
  assume "a XOR x = b XOR x"
  then have "(a XOR x) XOR x = (b XOR x) XOR x" by simp
  then show "a = b" by (simp add: xor.assoc)
qed simp

lemma crc32_run_inj: "foldl crc32_step a data = foldl crc32_step b data \<longleftrightarrow> a = b"
proof (induction data arbitrary: a b)
  case (Cons c data)
  have "crc32_step a c = crc32_step b c \<longleftrightarrow> a = b"
    unfolding crc32_step_bits bit_steps_inj by (rule xor_right_cancel)
  then show ?case by (simp add: Cons)
qed simp

text \<open>Up to four bytes act on the register as one word, the first byte lowest.\<close>

fun le_word :: "string \<Rightarrow> u32" where
  "le_word [] = 0"
| "le_word (c # cs) = byte_word c XOR push_bit 8 (le_word cs)"

lemma le_word_bits: "8 * length cs \<le> n \<Longrightarrow> \<not> bit (le_word cs) n"
proof (induction cs arbitrary: n)
  case (Cons c cs)
  have "\<not> bit (byte_word c) n"
    using Cons.prems byte_word_bits(1) [of c] by (metis bit_take_bit_iff le_add1 length_Cons linorder_not_less mult_Suc_right order_trans)
  with Cons show ?case by (auto simp: bit_xor_iff bit_push_bit_iff)
qed simp

lemma le_word_split:
  assumes "length cs \<le> 3"
  shows "take_bit 8 (le_word (c # cs)) = byte_word c" "drop_bit 8 (le_word (c # cs)) = le_word cs"
proof -
  show "take_bit 8 (le_word (c # cs)) = byte_word c"
    by (simp add: take_bit_xor byte_word_bits take_bit_push_bit)
  have "drop_bit 8 (push_bit 8 (le_word cs)) = le_word cs"
  proof (rule bit_word_eqI)
    fix n assume "n < LENGTH(32)"
    moreover have "bit (le_word cs) n \<Longrightarrow> n < 24"
      using le_word_bits [of cs n] assms by (cases "8 * length cs \<le> n") auto
    ultimately show "bit (drop_bit 8 (push_bit 8 (le_word cs))) n = bit (le_word cs) n"
      by (auto simp: bit_drop_bit_eq bit_push_bit_iff)
  qed
  then show "drop_bit 8 (le_word (c # cs)) = le_word cs"
    by (simp add: drop_bit_xor byte_word_bits)
qed

lemma le_word_run:
  "length cs \<le> 4 \<Longrightarrow> foldl crc32_step crc cs = (bit_step ^^ (8 * length cs)) (crc XOR le_word cs)"
proof (induction cs arbitrary: crc)
  case (Cons c cs)
  let ?w = "le_word cs" and ?b = "byte_word c"
  have "take_bit 8 (push_bit 8 ?w) = 0" by (simp add: take_bit_push_bit)
  moreover have "drop_bit 8 (push_bit 8 ?w) = ?w"
    using le_word_split(2) [of cs c] Cons.prems by (simp add: drop_bit_xor byte_word_bits)
  ultimately have "?w = (bit_step ^^ 8) (push_bit 8 ?w)" by (simp add: bit_steps_low_zero)
  then have "(bit_step ^^ 8) (crc XOR ?b) XOR ?w = (bit_step ^^ 8) (crc XOR le_word (c # cs))"
    by (simp add: bit_steps_xor xor.assoc)
  moreover have "foldl crc32_step crc (c # cs) =
      (bit_step ^^ (8 * length cs)) ((bit_step ^^ 8) (crc XOR ?b) XOR ?w)"
    using Cons by (simp add: crc32_step_bits [of crc c])
  moreover have "8 * length (c # cs) = 8 * length cs + 8" by simp
  ultimately show ?case by (simp only: funpow_add o_apply)
qed simp

lemma le_word_inj: "length cs = length ds \<Longrightarrow> length cs \<le> 4 \<Longrightarrow> le_word cs = le_word ds \<Longrightarrow> cs = ds"
proof (induction cs ds rule: list_induct2)
  case (Cons c cs d ds)
  then have "byte_word c = byte_word d" "le_word cs = le_word ds"
    using le_word_split [of cs c] le_word_split [of ds d] by simp_all
  moreover have "take_bit 32 (byte x) = byte x" for x
    by (rule take_bit_nat_eq_self) (rule less_trans [OF nat_of_char_less_256], simp)
  then have "byte_word c = byte_word d \<Longrightarrow> c = d" by (simp add: byte_word_def word_of_nat_eq_iff)
  ultimately show ?case using Cons by simp
qed simp

section \<open>The checksum of a stream\<close>

lemma crc32_append: "crc32 (a @ b) crc = crc32 b (crc32 a crc)"
  by (simp add: crc32_def)

interpretation checksum: segmented "\<lambda>crc data. crc32 data crc" "\<lambda>_ _. True"
  by unfold_locales (simp_all add: crc32_append, simp add: crc32_def)

section \<open>Properties\<close>

text \<open>C34: The table-driven checksum is the bit-by-bit CRC-32 with the reflected polynomial
  0xEDB88320: for every data and every starting value the 256-entry table gives what eight
  single-bit steps per byte give.\<close>

theorem crc32_is_bitwise: "crc32 data crc = crc32_bitwise data crc"
  by (simp add: crc32_def crc32_bitwise_def crc32_step_bits [abs_def])

text \<open>The checksum can be computed piece by piece: passing each result back in over any
  cutting of the data gives the checksum of the data.\<close>

theorem crc32_streaming: "foldl (\<lambda>crc data. crc32 data crc) crc pieces = crc32 (concat pieces) crc"
  by (rule checksum.foldl_push) simp

text \<open>C35: Every error confined to four consecutive bytes is detected: two messages that differ
  only inside a window of at most four bytes never have the same checksum.\<close>

theorem crc32_detects_bursts:
  assumes "length a = length b" and "length a \<le> 4" and "a \<noteq> b"
  shows "crc32 (pre @ a @ post) crc \<noteq> crc32 (pre @ b @ post) crc"
proof
  let ?r = "foldl crc32_step (NOT crc) pre"
  assume "crc32 (pre @ a @ post) crc = crc32 (pre @ b @ post) crc"
  then have "foldl crc32_step ?r a = foldl crc32_step ?r b"
    by (simp add: crc32_def crc32_run_inj)
  then have "?r XOR le_word a = ?r XOR le_word b"
    using assms(1,2) by (simp add: le_word_run bit_steps_inj)
  then have "le_word a = le_word b" by (metis xor.commute xor_right_cancel)
  with le_word_inj [OF assms(1,2)] assms(3) show False by simp
qed

theorem crc32_detects_bursts_witness:
  "crc32 (''ab'' @ ''wxyz'' @ ''c'') 0 \<noteq> crc32 (''ab'' @ ''wxyy'' @ ''c'') 0"
  by (rule crc32_detects_bursts) simp_all

end
