(* ===== verification/App_Routes.thy ===== *)
theory App_Routes
  imports Worker_Properties Static_Files Checksum
begin

text \<open>
  The endpoints of the application, \<^verbatim>\<open>src/src/app/routes.cpp\<close>. A handler with captured state that is
  called again and again is a closure: its state and the body of its call operator. What the handlers
  ask the system and the server for is the record \<open>AppEnv\<close>.
\<close>

section \<open>Helpers\<close>

definition kMaxGeneratedBytes :: nat where "kMaxGeneratedBytes = 2 ^ 30"
definition kMaxStreamChunks :: nat where "kMaxStreamChunks = 100000"
definition kBytesPiece :: nat where "kBytesPiece = 64 * 1024"

text \<open>\<^verbatim>\<open>std::from_chars\<close> for a 64-bit unsigned number: the longest run of digits, no sign and no
  blanks; \<^term>\<open>None\<close> when there is none or the number does not fit. The rest is what was not read.\<close>

definition from_chars_u64 :: "string \<Rightarrow> (nat \<times> string) option" where
  "from_chars_u64 s =
     (let ds = takeWhile is_digit s in
      if ds = [] \<or> dec_value ds \<ge> 2 ^ 64 then None else Some (dec_value ds, drop (length ds) s))"

definition parse_u64 :: "string \<Rightarrow> nat option" where
  "parse_u64 s =
     (if s = [] then None
      else case from_chars_u64 s of
          Some (v, rest) \<Rightarrow> if rest = [] then Some v else None
        | None \<Rightarrow> None)"

definition letter :: "nat \<Rightarrow> char" where
  "letter i = char_of (97 + i mod 26)"

definition pattern :: string where
  "pattern = map letter [0..<kBytesPiece + 26]"

definition json_escape :: "string \<Rightarrow> string" where
  "json_escape s = concat (map (\<lambda>c.
     (if c = CHR 0x22 \<or> c = CHR 0x5C then [CHR 0x5C] else []) @ (if byte c \<ge> 32 then [c] else [])) s)"

section \<open>Closures\<close>

text \<open>The object of a lambda with captured state: a call answers and leaves the state for the next.\<close>

primcorec closure :: "('s \<Rightarrow> string \<Rightarrow> Headers \<Rightarrow> string + (bool \<times> string \<times> Headers \<times> 's)) \<Rightarrow> 's \<Rightarrow> Producer" where
  "pull (closure f s) = (\<lambda>out trailers.
     map_sum id (map_prod id (map_prod id (map_prod id (\<lambda>s. closure f s)))) (f s out trailers))"

lemma pull_closure:
  "f s out tr = Inr (m, piece, tr', s') \<Longrightarrow> pull (closure f s) out tr = Inr (m, piece, tr', closure f s')"
  by simp

text \<open>\<^verbatim>\<open>"%08x"\<close>.\<close>

definition hex8 :: "u32 \<Rightarrow> string" where
  "hex8 v = (let s = to_chars 16 (unat v) in replicate (8 - length s) CHR ''0'' @ s)"

definition stream_line :: "nat \<Rightarrow> nat \<Rightarrow> string" where
  "stream_line i n = ''chunk '' @ to_chars 10 i @ '' of '' @ to_chars 10 n @ [LF]"

definition stream_step :: "nat \<Rightarrow> nat \<times> u32 \<Rightarrow> string \<Rightarrow> Headers \<Rightarrow> string + (bool \<times> string \<times> Headers \<times> nat \<times> u32)" where
  "stream_step n = (\<lambda>(i, crc) out trailers.
     let (i, crc, out) =
           (if i < n then let line = stream_line i n in (szadd i 1, crc32 line crc, out @ line) else (i, crc, out))
     in if i < n then Inr (True, out, trailers, i, crc)
        else
          let trailers = h_set trailers ''X-Chunk-Count'' (to_chars 10 n);
              trailers = h_set trailers ''X-Content-CRC32'' (hex8 crc)
          in Inr (False, out, trailers, i, crc))"

definition bytes_step :: "nat \<Rightarrow> nat \<Rightarrow> string \<Rightarrow> Headers \<Rightarrow> string + (bool \<times> string \<times> Headers \<times> nat)" where
  "bytes_step n sent out trailers =
     (let taken = min (szsub n sent) kBytesPiece;
          out = out @ take taken (drop (sent mod 26) pattern);
          sent = szadd sent taken
      in Inr (sent < n, out, trailers, sent))"

section \<open>Handlers\<close>

text \<open>What the handlers learn from the server and the system: the text of \<^verbatim>\<open>metrics_text\<close>, what
  \<^verbatim>\<open>/debug/info\<close> prints, and the system calls and the root descriptor of the static files.\<close>

record AppEnv =
  env_metrics :: string
  env_pid :: int
  env_workers :: nat
  env_pinned :: bool
  env_port :: nat
  env_cpus :: int
  env_page_size :: int
  env_sysname :: string
  env_release :: string
  env_machine :: string
  env_compiler :: string
  env_cplusplus :: int
  env_static_root :: string
  env_limits :: ParserLimits
  env_files :: Static_Files.Kernel
  env_root_fd :: int

definition kIndex :: string where
  "kIndex =
     ''httpd-cpp: an epoll-based HTTP/1.1 server in C++17'' @ [LF] @ [LF] @
     ''  GET  /healthz         liveness probe'' @ [LF] @
     ''  GET  /metrics         Prometheus metrics (per-worker counters, latency histogram)'' @ [LF] @
     ''  GET  /debug/info      build, kernel and runtime information (JSON)'' @ [LF] @
     ''  POST /echo            echoes the request body (Content-Length or chunked)'' @ [LF] @
     ''  GET  /stream/{n}      n chunks via chunked encoding + CRC-32 trailer'' @ [LF] @
     ''  GET  /bytes/{n}       n bytes streamed with backpressure (throughput tests)'' @ [LF] @
     ''  GET  /static/{path}   files from --root, zero-copy with sendfile(2)'' @ [LF]"

definition quoted :: "string \<Rightarrow> string" where
  "quoted s = [CHR 0x22] @ s @ [CHR 0x22]"

text \<open>The text of \<^verbatim>\<open>/debug/info\<close> and the buffer of 1024 bytes it is printed to, one of them for the
  terminating zero.\<close>

definition debug_text :: "AppEnv \<Rightarrow> string" where
  "debug_text e =
     ''{'' @ quoted ''pid'' @ '':'' @ to_string (env_pid e) @ '','' @ quoted ''workers'' @ '':'' @ to_chars 10 (env_workers e) @
     '','' @ quoted ''pinned'' @ '':'' @ (if env_pinned e then ''true'' else ''false'') @
     '','' @ quoted ''port'' @ '':'' @ to_chars 10 (env_port e) @
     '','' @ quoted ''online_cpus'' @ '':'' @ to_string (env_cpus e) @
     '','' @ quoted ''page_size'' @ '':'' @ to_string (env_page_size e) @
     '','' @ quoted ''kernel'' @ '':'' @
       quoted (json_escape (env_sysname e) @ '' '' @ json_escape (env_release e) @ '' '' @ json_escape (env_machine e)) @
     '','' @ quoted ''compiler'' @ '':'' @ quoted (json_escape (env_compiler e)) @
     '','' @ quoted ''cplusplus'' @ '':'' @ to_string (env_cplusplus e) @
     '','' @ quoted ''static_root'' @ '':'' @ quoted (json_escape (env_static_root e)) @
     '','' @ quoted ''limits'' @ '':{'' @ quoted ''max_request_line'' @ '':'' @ to_chars 10 (max_request_line (env_limits e)) @
       '','' @ quoted ''max_header_bytes'' @ '':'' @ to_chars 10 (max_header_bytes (env_limits e)) @
       '','' @ quoted ''max_body_bytes'' @ '':'' @ to_chars 10 (max_body_bytes (env_limits e)) @ ''}}'' @ [LF]"

definition debug_info :: "AppEnv \<Rightarrow> Handler" where
  "debug_info e rq res = Inr (text_response 200 (take 1023 (debug_text e)) ''application/json'')"

definition echo_handler :: Handler where
  "echo_handler rq res =
     Inr (text_response 200 (req_body rq)
       (case h_get (req_headers rq) ''Content-Type'' of Some type \<Rightarrow> type | None \<Rightarrow> ''application/octet-stream''))"

definition stream_handler :: Handler where
  "stream_handler rq res =
     Inr (case parse_u64 (drop 8 (path rq)) of
         Some n \<Rightarrow>
           if n > kMaxStreamChunks
           then text_response 400 (''usage: /stream/{0..'' @ to_chars 10 kMaxStreamChunks @ ''}'' @ [LF]) default_type
           else
             res\<lparr>res_headers := h_set (h_set (res_headers res) ''Content-Type'' ''text/plain; charset=utf-8'')
                   ''Trailer'' ''X-Chunk-Count, X-Content-CRC32'',
                 producer := Some (closure (stream_step n) (0, 0))\<rparr>
       | None \<Rightarrow> text_response 400 (''usage: /stream/{0..'' @ to_chars 10 kMaxStreamChunks @ ''}'' @ [LF]) default_type)"

definition bytes_handler :: Handler where
  "bytes_handler rq res =
     Inr (case parse_u64 (drop 7 (path rq)) of
         Some n \<Rightarrow>
           if n > kMaxGeneratedBytes
           then text_response 400 (''usage: /bytes/{0..'' @ to_chars 10 kMaxGeneratedBytes @ ''}'' @ [LF]) default_type
           else
             res\<lparr>res_headers := h_set (res_headers res) ''Content-Type'' ''application/octet-stream'',
                 stream_length := Some n, producer := Some (closure (bytes_step n) 0)\<rparr>
       | None \<Rightarrow> text_response 400 (''usage: /bytes/{0..'' @ to_chars 10 kMaxGeneratedBytes @ ''}'' @ [LF]) default_type)"

definition static_handler :: "AppEnv \<Rightarrow> Handler" where
  "static_handler e rq res = Inr (served (serve (env_files e) (env_root_fd e) (drop 8 (path rq)) res))"

definition install_routes :: "AppEnv \<Rightarrow> Router" where
  "install_routes e =
     (let r = [];
          r = add_route r ''GET'' ''/'' (\<lambda>rq res. Inr (text_response 200 kIndex default_type));
          r = add_route r ''GET'' ''/healthz'' (\<lambda>rq res. Inr (text_response 200 (''ok'' @ [LF]) default_type));
          r = add_route r ''GET'' ''/metrics'' (\<lambda>rq res.
                Inr (text_response 200 (env_metrics e) ''text/plain; version=0.0.4; charset=utf-8''));
          r = add_route r ''GET'' ''/debug/info'' (debug_info e);
          r = add_route r ''POST'' ''/echo'' echo_handler;
          r = add_prefix r ''GET'' ''/stream/'' stream_handler;
          r = add_prefix r ''GET'' ''/bytes/'' bytes_handler
      in add_prefix r ''GET'' ''/static/'' (static_handler e))"

section \<open>Numbers in paths\<close>

lemma parse_u64_iff:
  "parse_u64 s = Some n \<longleftrightarrow> s \<noteq> [] \<and> list_all is_digit s \<and> dec_value s = n \<and> n < 2 ^ 64"
proof (cases "list_all is_digit s")
  case True
  then have all: "takeWhile is_digit s = s" by (simp add: list_all_iff takeWhile_eq_all_conv)
  show ?thesis unfolding parse_u64_def from_chars_u64_def Let_def all using True by auto
next
  case False
  then have "drop (length (takeWhile is_digit s)) s \<noteq> []"
    by (metis dropWhile_eq_drop dropWhile_eq_Nil_conv list_all_iff)
  with False show ?thesis by (simp add: parse_u64_def from_chars_u64_def Let_def del: drop_eq_Nil)
qed

lemma parse_u64_to_chars: "n < 2 ^ 64 \<Longrightarrow> parse_u64 (to_chars 10 n) = Some n"
  by (simp add: parse_u64_iff to_chars_digit_string dec_value_to_chars)

section \<open>The streams\<close>

text \<open>What a producer sends is determined.\<close>

lemma body_stream_unique:
  "body_stream chunked sized pr tr left b \<Longrightarrow> body_stream chunked sized pr tr left b' \<Longrightarrow> b' = b"
proof (induction arbitrary: b' rule: body_stream.induct)
  case (ends pr tr piece tr' pr' left)
  from ends(3) show ?case by (cases rule: body_stream.cases) (use ends in auto)
next
  case (full pr tr piece tr' pr' left)
  from full(5) show ?case by (cases rule: body_stream.cases) (use full in auto)
next
  case (goes_on pr tr piece tr' pr' left s)
  note hyps = goes_on.hyps and IH = goes_on.IH
  from goes_on.prems show ?case
  proof (cases rule: body_stream.cases)
    case (goes_on piece2 tr2 pr2 s2)
    with hyps(1) IH [of s2] show ?thesis by auto
  qed (use hyps in auto)
qed

lemma length_pattern: "length pattern = kBytesPiece + 26"
  by (simp add: pattern_def)

lemma letter_mod: "letter (s mod 26 + i) = letter (s + i)"
  by (simp add: letter_def mod_add_left_eq)

lemma pattern_slice:
  assumes "t \<le> kBytesPiece"
  shows "take t (drop (s mod 26) pattern) = map letter [s..<s + t]"
proof (rule nth_equalityI)
  have "s mod 26 < 26" by simp
  then have "s mod 26 + t \<le> length pattern" using assms unfolding length_pattern by linarith
  then show "length (take t (drop (s mod 26) pattern)) = length (map letter [s..<s + t])" by simp
  fix i assume "i < length (take t (drop (s mod 26) pattern))"
  then have "i < t" "s mod 26 + i < kBytesPiece + 26" by (simp_all add: length_pattern less_diff_conv add.commute)
  then show "take t (drop (s mod 26) pattern) ! i = map letter [s..<s + t] ! i"
    by (simp add: pattern_def letter_mod)
qed

lemma bytes_stream:
  assumes "sent < n" "n < 2 ^ 63"
  shows "body_stream False True (closure (bytes_step n) sent) tr (n - sent) (map letter [sent..<n])"
  using assms(1)
proof (induction "n - sent" arbitrary: sent rule: less_induct)
  case less
  define t where "t = min (n - sent) kBytesPiece"
  have t: "0 < t" "t \<le> kBytesPiece" "sent + t \<le> n" "szsub n sent = n - sent" "szadd sent t = sent + t"
    using less.prems assms(2) by (auto simp: t_def kBytesPiece_def szsub_id szadd_id)
  have p: "pull (closure (bytes_step n) sent) [] tr =
      Inr (sent + t < n, map letter [sent..<sent + t], tr, closure (bytes_step n) (sent + t))"
    using t(4,5) pattern_slice [OF t(2), of sent] by (intro pull_closure) (simp add: bytes_step_def Let_def t_def)
  have split: "map letter [sent..<n] = map letter [sent..<sent + t] @ map letter [sent + t..<n]"
    using t(3) upt_add_eq_append [of sent "sent + t" "n - (sent + t)"] by simp
  show ?case
  proof (cases "sent + t < n")
    case True
    have "body_stream False True (closure (bytes_step n) (sent + t)) tr (n - (sent + t)) (map letter [sent + t..<n])"
      using less.hyps [of "sent + t"] True t(1) by simp
    then show ?thesis
      using body_stream.goes_on [of "closure (bytes_step n) sent" tr "map letter [sent..<sent + t]" tr
          "closure (bytes_step n) (sent + t)" True "n - sent" False "map letter [sent + t..<n]"] p True t(1) split
      by (simp add: encode_piece_def)
  next
    case False
    then have "sent + t = n" using t(3) by simp
    then show ?thesis
      using body_stream.ends [of "closure (bytes_step n) sent" tr "map letter [sent..<sent + t]" tr
          "closure (bytes_step n) (sent + t)" True "n - sent" False] p
      by (simp add: encode_piece_def encode_end_def)
  qed
qed

text \<open>The lines of \<^verbatim>\<open>/stream/n\<close> from the \<open>i\<close>-th on, and its trailers.\<close>

definition stream_lines :: "nat \<Rightarrow> nat \<Rightarrow> string list" where
  "stream_lines i n = map (\<lambda>j. stream_line j n) [i..<n]"

definition stream_trailers :: "nat \<Rightarrow> u32 \<Rightarrow> Headers \<Rightarrow> Headers" where
  "stream_trailers n crc tr = h_set (h_set tr ''X-Chunk-Count'' (to_chars 10 n)) ''X-Content-CRC32'' (hex8 crc)"

lemma crc32_lines: "crc32 (line @ rest) crc = crc32 rest (crc32 line crc)"
  by (simp add: crc32_def)

lemma encode_nothing: "encode_piece chunked [] = []"
  by (simp add: encode_piece_def append_chunk_def)

lemma stream_stream:
  assumes "n < 2 ^ 63"
  shows "body_stream chunked False (closure (stream_step n) (i, crc)) tr left
    (concat (map (encode_piece chunked) (stream_lines i n)) @
     encode_end chunked (stream_trailers n (crc32 (concat (stream_lines i n)) crc) tr))"
proof (induction "n - i" arbitrary: i crc rule: less_induct)
  case less
  show ?case
  proof (cases "i < n")
    case False
    then have "pull (closure (stream_step n) (i, crc)) [] tr =
        Inr (False, [], stream_trailers n crc tr, closure (stream_step n) (i, crc))"
      by (intro pull_closure) (simp add: stream_step_def stream_trailers_def)
    from body_stream.ends [OF this, of False left chunked] False show ?thesis
      by (simp add: stream_lines_def encode_nothing crc32_def)
  next
    case True
    let ?line = "stream_line i n" and ?crc = "crc32 (stream_line i n) crc"
    have sz: "szadd i 1 = Suc i" using True assms by simp
    have lines: "stream_lines i n = ?line # stream_lines (Suc i) n"
      using True by (simp add: stream_lines_def upt_conv_Cons)
    show ?thesis
    proof (cases "Suc i < n")
      case True
      then have p: "pull (closure (stream_step n) (i, crc)) [] tr = Inr (True, ?line, tr, closure (stream_step n) (Suc i, ?crc))"
        using sz by (intro pull_closure) (simp add: stream_step_def Let_def)
      have "?line \<noteq> []" by (simp add: stream_line_def)
      from body_stream.goes_on [OF p this, of False left chunked] less.hyps [of "Suc i" ?crc] \<open>i < n\<close> show ?thesis
        by (simp add: lines crc32_lines)
    next
      case False
      then have p: "pull (closure (stream_step n) (i, crc)) [] tr =
          Inr (False, ?line, stream_trailers n ?crc tr, closure (stream_step n) (Suc i, ?crc))"
        using sz \<open>i < n\<close> by (intro pull_closure) (simp add: stream_step_def stream_trailers_def Let_def)
      have "stream_lines (Suc i) n = []" using False by (simp add: stream_lines_def)
      with body_stream.ends [OF p, of False left chunked] show ?thesis by (simp add: lines)
    qed
  qed
qed

section \<open>Dispatching to the endpoints\<close>

lemmas routes_defs = install_routes_def add_route_def add_prefix_def Let_def

lemma dispatch_bytes:
  assumes "effective_method rq = ''GET''" "path rq = ''/bytes/'' @ s"
  shows "router_dispatch (install_routes e) rq res = projr (bytes_handler rq res)"
  using assms by (simp add: router_dispatch_def routes_defs route_matches_def call_handler_def bytes_handler_def)

lemma dispatch_stream:
  assumes "effective_method rq = ''GET''" "path rq = ''/stream/'' @ s"
  shows "router_dispatch (install_routes e) rq res = projr (stream_handler rq res)"
  using assms by (simp add: router_dispatch_def routes_defs route_matches_def call_handler_def stream_handler_def)

text \<open>A response with a plain body, and every other the endpoints give, can be sent to its end.\<close>

definition sendable :: "Connection_State.Kernel \<Rightarrow> Request \<Rightarrow> Response \<Rightarrow> HeadOptions \<Rightarrow> bool" where
  "sendable k rq res opts \<longleftrightarrow> (\<exists>b. body_text k rq res opts b)"

lemma sendable_plain: "\<not> fd_valid (res_file res) \<Longrightarrow> producer res = None \<Longrightarrow> sendable k rq res opts"
  by (cases "has_body rq res opts") (simp_all add: sendable_def body_text_def)

lemma sendable_text [simp]: "sendable k rq (text_response st body ty) opts"
  by (rule sendable_plain) (simp_all add: text_response_def new_response_def fd_valid_def)

lemma sendable_headers [simp]: "sendable k rq ((text_response st body ty)\<lparr>res_headers := h\<rparr>) opts"
  by (rule sendable_plain) (simp_all add: text_response_def new_response_def fd_valid_def)

lemma dispatch_loop_sendable:
  assumes "\<And>r. r \<in> set routes \<Longrightarrow> sendable k rq (call_handler r rq res) opts"
  shows "sendable k rq (dispatch_loop routes meth allow rq res) opts"
  using assms by (induction routes arbitrary: allow) (simp_all add: Let_def)

lemma body_text_stream:
  assumes "has_body rq res opts" "res_file res = -1" "producer res = Some pr" "stream_length res = None"
    and "body_stream (snd (write_head [] res opts) = Chunked) False pr no_headers 0 b"
  shows "body_text k rq res opts b' \<longleftrightarrow> b' = b"
proof -
  have "body_text k rq res opts b' \<longleftrightarrow> body_stream (snd (write_head [] res opts) = Chunked) False pr no_headers 0 b'"
    using assms(1-4) by (simp add: body_text_def fd_valid_def)
  then show ?thesis using assms(5) body_stream_unique [OF assms(5)] by metis
qed

lemma body_text_sized:
  assumes "has_body rq res opts" "res_file res = -1" "producer res = Some pr" "stream_length res = Some n"
    and "n \<noteq> 0 \<Longrightarrow> body_stream False True pr no_headers n b" "n = 0 \<Longrightarrow> b = []"
  shows "body_text k rq res opts b' \<longleftrightarrow> b' = b"
proof -
  have "snd (write_head [] res opts) \<noteq> Chunked" using chunked_unsized [of res opts] assms(4) by auto
  then have eq: "body_text k rq res opts b' \<longleftrightarrow> (if n = 0 then b' = [] else body_stream False True pr no_headers n b')"
    using assms(1-4) by (simp add: body_text_def fd_valid_def)
  show ?thesis
  proof (cases "n = 0")
    case False
    then show ?thesis unfolding eq using assms(5) body_stream_unique [OF assms(5)] by metis
  qed (simp add: eq assms(6))
qed

lemma write_head_framing: "snd (write_head out res opts) = fst (choose_framing res opts)"
  by (simp add: write_head_def Let_def split: prod.split)

lemma bytes_sendable: "sendable k rq (projr (bytes_handler rq new_response)) opts"
proof (cases "parse_u64 (drop 7 (path rq))")
  case (Some n)
  show ?thesis
  proof (cases "n > kMaxGeneratedBytes")
    case False
    let ?res = "projr (bytes_handler rq new_response)"
    have r: "res_file ?res = -1" "producer ?res = Some (closure (bytes_step n) 0)" "stream_length ?res = Some n"
      using Some False by (simp_all add: bytes_handler_def new_response_def)
    show ?thesis
    proof (cases "has_body rq ?res opts")
      case True
      have "n \<noteq> 0 \<Longrightarrow> body_stream False True (closure (bytes_step n) 0) no_headers n (map letter [0..<n])"
        using bytes_stream [of 0 n no_headers] False by (simp add: kMaxGeneratedBytes_def)
      from body_text_sized [OF True r this] show ?thesis by (auto simp: sendable_def)
    qed (simp add: sendable_def body_text_def)
  qed (simp add: bytes_handler_def Some)
qed (simp add: bytes_handler_def)

lemma stream_sendable: "sendable k rq (projr (stream_handler rq new_response)) opts"
proof (cases "parse_u64 (drop 8 (path rq))")
  case (Some n)
  show ?thesis
  proof (cases "n > kMaxStreamChunks")
    case False
    let ?res = "projr (stream_handler rq new_response)"
    have r: "res_file ?res = -1" "producer ?res = Some (closure (stream_step n) (0, 0))" "stream_length ?res = None"
      using Some False by (simp_all add: stream_handler_def new_response_def)
    show ?thesis
    proof (cases "has_body rq ?res opts")
      case True
      have "n < 2 ^ 63" using False by (simp add: kMaxStreamChunks_def)
      from body_text_stream [OF True r stream_stream [OF this]] show ?thesis by (auto simp: sendable_def)
    qed (simp add: sendable_def body_text_def)
  qed (simp add: stream_handler_def Some)
qed (simp add: stream_handler_def)

text \<open>The files the static handler answers with have at least the bytes that \<^verbatim>\<open>fstat\<close> said.\<close>

definition files_complete :: "AppEnv \<Rightarrow> Connection_State.Kernel \<Rightarrow> bool" where
  "files_complete e k \<longleftrightarrow>
     (\<forall>fd sz. sys_fstat (env_files e) 1 fd = Some (Regular, sz) \<longrightarrow> sz \<le> length (file_bytes k fd))"

lemma static_sendable:
  assumes "files_complete e k"
  shows "sendable k rq (projr (static_handler e rq new_response)) opts"
proof -
  have *: "sendable k rq (served (answer_file (env_files e) new_response p fd ops cls)) opts" for p fd ops cls
  proof (cases rule: answer_file_cases [of fd "env_files e" new_response p ops cls])
    case (regular sz)
    let ?res = "served (answer_file (env_files e) new_response p fd ops cls)"
    have r: "res_file ?res = fd" "file_length ?res = sz" "file_offset ?res = 0"
      using regular by (simp_all add: new_response_def)
    have "sz \<le> length (file_bytes k fd)" using assms regular by (simp add: files_complete_def)
    then have "body_text k rq ?res opts (if has_body rq ?res opts then take sz (file_bytes k fd) else [])"
      unfolding body_text_def r using regular(1) by (simp add: to_off_def)
    then show ?thesis unfolding sendable_def by blast
  qed simp_all
  show ?thesis
    by (auto simp: static_handler_def serve_def * split: option.split prod.split)
qed

lemma routes_sendable:
  assumes "files_complete e k"
  shows "sendable k rq (router_dispatch (install_routes e) rq new_response) opts"
  unfolding router_dispatch_def
proof (rule dispatch_loop_sendable)
  fix r assume "r \<in> set (install_routes e)"
  then show "sendable k rq (call_handler r rq new_response) opts"
    using bytes_sendable [of k rq opts] stream_sendable [of k rq opts] static_sendable [OF assms, of rq opts]
    by (auto simp: routes_defs call_handler_def debug_info_def echo_handler_def bytes_handler_def stream_handler_def static_handler_def)
qed

section \<open>Properties\<close>

text \<open>C31: Every response of the application can be sent to its end. Whatever the request, a text, a
  generated stream, a file, an error, the response the installed routes give is one whose body the
  connection layer delivers in full: the streams keep the contract of a producer, never an empty
  piece before the end, never more than the declared length; a file has the bytes that were
  promised, provided \<^verbatim>\<open>fstat\<close> told the truth. So the conversations of a worker with these routes are
  as the connection layer promises.\<close>

theorem app_routes_lawful:
  assumes "\<And>i. w_routes w i = install_routes (env i)" and "\<And>i. files_complete (env i) (kernel w)"
  shows "lawful_routes w"
  using routes_sendable [OF assms(2)] by (simp add: lawful_routes_def assms(1) sendable_def)

text \<open>C29: \<^verbatim>\<open>GET /bytes/N\<close> delivers exactly \<open>N\<close> bytes. If the rest of the path is a decimal number of at most
  2 to the 30, the answer is 200 with that declared length, and what the producer sends, over however
  many pieces, is the alphabet repeated, cut after \<open>N\<close> letters; for anything else, an empty rest,
  other characters, a number too large even for 64 bits, it is 400.\<close>

theorem bytes_route_exact:
  assumes "req_method rq = ''GET''" and "path rq = ''/bytes/'' @ s"
  shows "let res = router_dispatch (install_routes e) rq new_response in
    if s \<noteq> [] \<and> list_all is_digit s \<and> dec_value s \<le> 2 ^ 30
    then status res = 200 \<and> stream_length res = Some (dec_value s) \<and>
      (\<forall>k opts b. body_text k rq res opts b \<longleftrightarrow> b = map (\<lambda>i. char_of (97 + i mod 26)) [0..<dec_value s])
    else status res = 400 \<and> producer res = None"
proof -
  let ?n = "dec_value s" and ?res = "router_dispatch (install_routes e) rq new_response"
  have m: "effective_method rq = ''GET''" using assms(1) by (simp add: effective_method_def)
  have d: "?res = projr (bytes_handler rq new_response)" by (rule dispatch_bytes [OF m assms(2)])
  show ?thesis
  proof (cases "s \<noteq> [] \<and> list_all is_digit s \<and> ?n \<le> 2 ^ 30")
    case True
    then have p: "parse_u64 (drop 7 (path rq)) = Some ?n" using assms(2) by (simp add: parse_u64_iff)
    have r: "status ?res = 200" "res_file ?res = -1" "producer ?res = Some (closure (bytes_step ?n) 0)" "stream_length ?res = Some ?n"
      unfolding d using p True by (simp_all add: bytes_handler_def kMaxGeneratedBytes_def new_response_def)
    have body: "has_body rq ?res opts" for opts
      using r assms(1) by (simp add: has_body_def write_head_framing choose_framing_def fd_valid_def)
    have bs: "?n \<noteq> 0 \<Longrightarrow> body_stream False True (closure (bytes_step ?n) 0) no_headers ?n (map letter [0..<?n])"
      using bytes_stream [of 0 ?n no_headers] True by simp
    have "body_text k rq ?res opts b \<longleftrightarrow> b = map letter [0..<?n]" for k opts b
      by (rule body_text_sized [OF body r(2,3,4) bs]) simp_all
    with True r show ?thesis by (simp add: letter_def [abs_def])
  next
    case False
    have "parse_u64 (drop 7 (path rq)) = None \<or> (\<exists>n. parse_u64 (drop 7 (path rq)) = Some n \<and> n > kMaxGeneratedBytes)"
      using False assms(2) by (cases "parse_u64 s") (auto simp: parse_u64_iff kMaxGeneratedBytes_def)
    then have "\<exists>t. ?res = text_response 400 t default_type" unfolding d by (auto simp: bytes_handler_def)
    with False show ?thesis by (auto simp: text_response_def new_response_def)
  qed
qed

text \<open>C30: \<^verbatim>\<open>GET /stream/N\<close> delivers \<open>N\<close> lines and a checksum that fits them. To an HTTP/1.1 client it sends
  each line as one chunk, in order, and then a trailer section with the number of chunks and, in
  eight hexadecimal digits, the CRC-32 of the whole body, although it was computed line by line; an
  HTTP/1.0 client gets the lines alone. More than 100000 chunks, or no number, is 400.\<close>

theorem stream_route_exact:
  assumes "req_method rq = ''GET''" and "path rq = ''/stream/'' @ s"
  shows "let res = router_dispatch (install_routes e) rq new_response; n = dec_value s;
             lines = map (\<lambda>i. ''chunk '' @ to_chars 10 i @ '' of '' @ to_chars 10 n @ [LF]) [0..<n] in
    if s \<noteq> [] \<and> list_all is_digit s \<and> n \<le> 100000
    then status res = 200 \<and> (\<forall>k opts b. body_text k rq res opts b \<longleftrightarrow>
      b = (if http10_client opts then concat lines
           else concat (map (append_chunk []) lines) @
             append_last_chunk [] (h_set (h_set no_headers ''X-Chunk-Count'' (to_chars 10 n)) ''X-Content-CRC32'' (hex8 (crc32 (concat lines) 0)))))
    else status res = 400 \<and> producer res = None"
proof -
  let ?n = "dec_value s" and ?res = "router_dispatch (install_routes e) rq new_response"
  have m: "effective_method rq = ''GET''" using assms(1) by (simp add: effective_method_def)
  have d: "?res = projr (stream_handler rq new_response)" by (rule dispatch_stream [OF m assms(2)])
  show ?thesis
  proof (cases "s \<noteq> [] \<and> list_all is_digit s \<and> ?n \<le> 100000")
    case True
    then have p: "parse_u64 (drop 8 (path rq)) = Some ?n" using assms(2) by (simp add: parse_u64_iff)
    have r: "status ?res = 200" "res_file ?res = -1" "producer ?res = Some (closure (stream_step ?n) (0, 0))" "stream_length ?res = None"
      unfolding d using p True by (simp_all add: stream_handler_def kMaxStreamChunks_def new_response_def)
    have fr: "snd (write_head [] ?res opts) = (if http10_client opts then CloseDelimited else Chunked)" for opts
      using r by (simp add: write_head_framing choose_framing_def fd_valid_def)
    then have body: "has_body rq ?res opts" for opts using assms(1) by (simp add: has_body_def)
    have "?n < 2 ^ 63" using True by simp
    note bt = body_text_stream [OF body r(2,3,4) stream_stream [OF this]]
    have lines: "map (\<lambda>i. ''chunk '' @ to_chars 10 i @ '' of '' @ to_chars 10 ?n @ [LF]) [0..<?n] = stream_lines 0 ?n"
      by (simp add: stream_lines_def stream_line_def)
    have "body_text k rq ?res opts b \<longleftrightarrow>
      b = (if http10_client opts then concat (stream_lines 0 ?n)
           else concat (map (append_chunk []) (stream_lines 0 ?n)) @
             append_last_chunk [] (stream_trailers ?n (crc32 (concat (stream_lines 0 ?n)) 0) no_headers))" for k opts b
      unfolding bt fr by (simp add: encode_piece_def [abs_def] encode_end_def)
    with True r(1) show ?thesis unfolding Let_def lines stream_trailers_def by simp
  next
    case False
    have "parse_u64 (drop 8 (path rq)) = None \<or> (\<exists>n. parse_u64 (drop 8 (path rq)) = Some n \<and> n > kMaxStreamChunks)"
      using False assms(2) by (cases "parse_u64 s") (auto simp: parse_u64_iff kMaxStreamChunks_def)
    then have "\<exists>t. ?res = text_response 400 t default_type" unfolding d by (auto simp: stream_handler_def)
    with False show ?thesis by (auto simp: text_response_def new_response_def)
  qed
qed

section \<open>Samples\<close>

definition sample_env :: AppEnv where
  "sample_env =
     \<lparr>env_metrics = [], env_pid = 1, env_workers = 1, env_pinned = False, env_port = 8080, env_cpus = 1,
      env_page_size = 4096, env_sysname = ''Linux'', env_release = ''6'', env_machine = ''x'', env_compiler = ''g'',
      env_cplusplus = 201703, env_static_root = ''public'', env_limits = default_limits, env_files = one_file, env_root_fd = 5\<rparr>"

definition sample_get :: "string \<Rightarrow> Request" where
  "sample_get p = empty_request\<lparr>req_method := ''GET'', path := p\<rparr>"

theorem app_routes_lawful_witness:
  "lawful_routes (new_worker default_config (\<lambda>_. install_routes sample_env) 3 4
     (idle_kernel\<lparr>file_bytes := (\<lambda>fd. replicate 100 SP)\<rparr>))"
proof (rule app_routes_lawful [where env = "\<lambda>_. sample_env"])
  show "files_complete sample_env (kernel (new_worker default_config (\<lambda>_. install_routes sample_env) 3 4
     (idle_kernel\<lparr>file_bytes := (\<lambda>fd. replicate 100 SP)\<rparr>)))" for i
    by (auto simp: files_complete_def sample_env_def one_file_def new_worker_def sys_mono_us_def idle_kernel_def Let_def split: if_splits)
qed (simp add: new_worker_def sys_mono_us_def Let_def)

theorem bytes_route_exact_witness:
  "let res = router_dispatch (install_routes sample_env) (sample_get ''/bytes/30'') new_response in
     status res = 200 \<and> (\<forall>k opts b. body_text k (sample_get ''/bytes/30'') res opts b \<longleftrightarrow> b = ''abcdefghijklmnopqrstuvwxyzabcd'')"
proof -
  have d: "list_all is_digit ''30''" "dec_value ''30'' = 30" by code_simp+
  have "map (\<lambda>i. char_of (97 + i mod 26)) [0..<30] = ''abcdefghijklmnopqrstuvwxyzabcd''" by code_simp
  with bytes_route_exact [of "sample_get ''/bytes/30''" "''30''" sample_env] d show ?thesis
    by (simp add: sample_get_def Let_def)
qed

theorem stream_route_exact_witness:
  "let res = router_dispatch (install_routes sample_env) (sample_get ''/stream/1'') new_response in
     status res = 200 \<and> (\<forall>k opts b. http10_client opts \<longrightarrow>
       (body_text k (sample_get ''/stream/1'') res opts b \<longleftrightarrow> b = ''chunk 0 of 1'' @ [LF]))"
proof -
  have d: "list_all is_digit ''1''" "dec_value ''1'' = 1" "to_chars 10 0 = ''0''" "to_chars 10 1 = ''1''" by code_simp+
  with stream_route_exact [of "sample_get ''/stream/1''" "''1''" sample_env] show ?thesis
    by (simp add: sample_get_def Let_def)
qed

end
