(* ===== verification/Descriptor_Owner.thy ===== *)
theory Descriptor_Owner
  imports Response_Writer "HOL-Library.Multiset"
begin

text \<open>
  The owner of a descriptor, \<^verbatim>\<open>src/src/util/unique_fd.hpp\<close>. Owners are numbered; what an owner holds is
  a number, negative for nothing. Every member function is an operation on the owners that also
  answers what it closes.
\<close>

section \<open>The operations\<close>

record Owners =
  held :: "nat \<Rightarrow> int"
  closes :: "int list"

definition no_owners :: Owners where
  "no_owners = \<lparr>held = (\<lambda>_. -1), closes = []\<rparr>"

definition fd_release :: "nat \<Rightarrow> Owners \<Rightarrow> int \<times> Owners" where
  "fd_release i s = (held s i, s\<lparr>held := (held s)(i := -1)\<rparr>)"

definition fd_reset :: "nat \<Rightarrow> int \<Rightarrow> Owners \<Rightarrow> Owners" where
  "fd_reset i fd s =
     (let s = (if held s i \<ge> 0 then s\<lparr>closes := closes s @ [held s i]\<rparr> else s)
      in s\<lparr>held := (held s)(i := fd)\<rparr>)"

text \<open>The constructor from a number, on an owner that does not exist yet and so holds nothing; the
  move constructor; the move assignment, which does nothing on itself; the destructor.\<close>

definition fd_construct :: "nat \<Rightarrow> int \<Rightarrow> Owners \<Rightarrow> Owners" where
  "fd_construct i fd s = s\<lparr>held := (held s)(i := fd)\<rparr>"

definition fd_move_construct :: "nat \<Rightarrow> nat \<Rightarrow> Owners \<Rightarrow> Owners" where
  "fd_move_construct i other s = (let (fd, s) = fd_release other s in fd_construct i fd s)"

definition fd_move_assign :: "nat \<Rightarrow> nat \<Rightarrow> Owners \<Rightarrow> Owners" where
  "fd_move_assign i other s =
     (if i \<noteq> other then let (fd, s) = fd_release other s in fd_reset i fd s else s)"

definition fd_destroy :: "nat \<Rightarrow> Owners \<Rightarrow> Owners" where
  "fd_destroy i s = fd_reset i (-1) s"

section \<open>Ownership\<close>

text \<open>A program over the owners. \<open>Adopt\<close> gives a new owner a number, \<open>Rearm\<close> is a \<^verbatim>\<open>reset\<close> with one.\<close>

datatype OwnerOp =
    Adopt nat int | MoveNew nat nat | MoveTo nat nat | Rearm nat int | Clear nat | Destroy nat

fun owner_step :: "OwnerOp \<Rightarrow> Owners \<Rightarrow> Owners" where
  "owner_step (Adopt i fd) s = fd_construct i fd s"
| "owner_step (MoveNew i j) s = fd_move_construct i j s"
| "owner_step (MoveTo i j) s = fd_move_assign i j s"
| "owner_step (Rearm i fd) s = fd_reset i fd s"
| "owner_step (Clear i) s = fd_reset i (-1) s"
| "owner_step (Destroy i) s = fd_destroy i s"

text \<open>An owner under construction holds nothing, and is not the one it is moved from.\<close>

fun op_ok :: "nat \<Rightarrow> OwnerOp \<Rightarrow> Owners \<Rightarrow> bool" where
  "op_ok m (Adopt i fd) s \<longleftrightarrow> i < m \<and> held s i < 0"
| "op_ok m (MoveNew i j) s \<longleftrightarrow> i < m \<and> j < m \<and> i \<noteq> j \<and> held s i < 0"
| "op_ok m (MoveTo i j) s \<longleftrightarrow> i < m \<and> j < m"
| "op_ok m (Rearm i fd) s \<longleftrightarrow> i < m"
| "op_ok m (Clear i) s \<longleftrightarrow> i < m"
| "op_ok m (Destroy i) s \<longleftrightarrow> i < m"

fun ops_ok :: "nat \<Rightarrow> OwnerOp list \<Rightarrow> Owners \<Rightarrow> bool" where
  "ops_ok m [] s \<longleftrightarrow> True"
| "ops_ok m (p # ps) s \<longleftrightarrow> op_ok m p s \<and> ops_ok m ps (owner_step p s)"

text \<open>The descriptors a program brings in.\<close>

fun adopted :: "OwnerOp \<Rightarrow> int list" where
  "adopted (Adopt i fd) = (if fd \<ge> 0 then [fd] else [])"
| "adopted (Rearm i fd) = (if fd \<ge> 0 then [fd] else [])"
| "adopted _ = []"

definition owned :: "nat \<Rightarrow> Owners \<Rightarrow> int multiset" where
  "owned m s = filter_mset (\<lambda>fd. fd \<ge> 0) (image_mset (held s) (mset_set {..<m}))"

lemma owned_update:
  assumes "i < m"
  shows "owned m (s\<lparr>held := (held s)(i := fd)\<rparr>) + (if held s i \<ge> 0 then {#held s i#} else {#}) =
    owned m s + (if fd \<ge> 0 then {#fd#} else {#})"
proof -
  let ?A = "{..<m} - {i}"
  have A: "mset_set {..<m} = add_mset i (mset_set ?A)" using assms by (simp flip: mset_set.insert_remove add: insert_absorb)
  have "image_mset ((held s)(i := fd)) (mset_set ?A) = image_mset (held s) (mset_set ?A)"
    by (rule image_mset_cong) simp
  then show ?thesis by (simp add: owned_def A)
qed

lemma owned_closes [simp]: "owned m (s\<lparr>closes := cs\<rparr>) = owned m s"
  by (simp add: owned_def)

lemma fd_reset_balance:
  assumes "i < m"
  shows "mset (closes (fd_reset i fd s)) + owned m (fd_reset i fd s) =
    mset (closes s) + owned m s + (if fd \<ge> 0 then {#fd#} else {#})"
proof (cases "held s i \<ge> 0")
  case True
  then show ?thesis
    using owned_update [OF assms, of "s\<lparr>closes := closes s @ [held s i]\<rparr>" fd] by (simp add: fd_reset_def Let_def ac_simps)
next
  case False
  then show ?thesis using owned_update [OF assms, of s fd] by (simp add: fd_reset_def Let_def ac_simps)
qed

lemma fd_construct_balance:
  assumes "i < m" "held s i < 0"
  shows "closes (fd_construct i fd s) = closes s"
    "owned m (fd_construct i fd s) = owned m s + (if fd \<ge> 0 then {#fd#} else {#})"
  using owned_update [OF assms(1), of s fd] assms(2) by (simp_all add: fd_construct_def)

lemma fd_release_balance:
  assumes "i < m"
  shows "owned m (snd (fd_release i s)) + (if fst (fd_release i s) \<ge> 0 then {#fst (fd_release i s)#} else {#}) = owned m s"
    "closes (snd (fd_release i s)) = closes s"
  using owned_update [OF assms, of s "-1"] by (cases "held s i \<ge> 0"; simp add: fd_release_def)+

lemma owner_step_balance:
  assumes "op_ok m p s"
  shows "mset (closes (owner_step p s)) + owned m (owner_step p s) = mset (closes s) + owned m s + mset (adopted p)"
proof (cases p)
  case (Adopt i fd)
  then show ?thesis using assms fd_construct_balance [of i m s fd] by simp
next
  case (MoveNew i j)
  let ?s = "snd (fd_release j s)" and ?fd = "fst (fd_release j s)"
  have "held ?s i < 0" using MoveNew assms by (simp add: fd_release_def)
  then show ?thesis
    using MoveNew assms fd_construct_balance [of i m ?s ?fd] fd_release_balance [of j m s]
    by (simp add: fd_move_construct_def case_prod_beta)
next
  case (MoveTo i j)
  let ?s = "snd (fd_release j s)" and ?fd = "fst (fd_release j s)"
  show ?thesis
  proof (cases "i = j")
    case False
    then show ?thesis
      using MoveTo assms fd_reset_balance [of i m ?fd ?s] fd_release_balance [of j m s]
      by (simp add: fd_move_assign_def case_prod_beta add.assoc)
  qed (use MoveTo in \<open>simp add: fd_move_assign_def\<close>)
next
  case (Rearm i fd)
  then show ?thesis using assms fd_reset_balance [of i m fd s] by simp
next
  case (Clear i)
  then show ?thesis using assms fd_reset_balance [of i m "-1" s] by simp
next
  case (Destroy i)
  then show ?thesis using assms fd_reset_balance [of i m "-1" s] by (simp add: fd_destroy_def)
qed

lemma owners_balance:
  "ops_ok m ps s \<Longrightarrow> mset (closes (fold owner_step ps s)) + owned m (fold owner_step ps s) =
     mset (closes s) + owned m s + mset (concat (map adopted ps))"
proof (induction ps arbitrary: s)
  case (Cons p ps)
  then have "mset (closes (fold owner_step (p # ps) s)) + owned m (fold owner_step (p # ps) s) =
      mset (closes (owner_step p s)) + owned m (owner_step p s) + mset (concat (map adopted ps))" by simp
  also have "\<dots> = mset (closes s) + owned m s + mset (adopted p) + mset (concat (map adopted ps))"
    using Cons.prems owner_step_balance [of m p s] by simp
  finally show ?case by (simp add: add.assoc)
qed simp

lemma owned_none: "owned m no_owners = {#}"
  by (simp add: owned_def no_owners_def filter_mset_eq_conv)

text \<open>C24: A descriptor has one owner and is closed exactly once. Take any program that constructs owners,
  moves them into new or existing ones, also onto themselves, resets and destroys them, and let it
  bring in each descriptor once. At any point, the descriptors closed so far and those still held
  are together exactly those brought in, each once: none is closed twice, none is closed while an
  owner holds it, none is held by two owners and none is lost.\<close>

theorem descriptor_closed_once:
  assumes "ops_ok m ps no_owners" and "distinct (concat (map adopted ps))"
  shows "let s = fold owner_step ps no_owners in
    distinct (closes s) \<and> (\<forall>i < m. \<forall>j < m. held s i \<ge> 0 \<longrightarrow> held s i \<notin> set (closes s) \<and> (held s i = held s j \<longrightarrow> i = j)) \<and>
    set (concat (map adopted ps)) = set (closes s) \<union> {fd. fd \<ge> 0 \<and> (\<exists>i < m. held s i = fd)}"
proof -
  let ?s = "fold owner_step ps no_owners"
  have bal: "mset (closes ?s) + owned m ?s = mset (concat (map adopted ps))"
    using owners_balance [OF assms(1)] by (simp add: owned_none) (simp add: no_owners_def)
  have one: "count (mset (closes ?s) + owned m ?s) x \<le> 1" for x
    unfolding bal using assms(2) by (metis count_mset_0_iff distinct_count_atmost_1 le_numeral_extra(4) zero_le_one)
  have "distinct (closes ?s)"
  proof -
    have "count (mset (closes ?s)) x \<le> Suc 0" for x using one [of x] by simp
    then show ?thesis by (auto simp: distinct_count_atmost_1 le_Suc_eq count_mset_0_iff)
  qed
  moreover have set: "set_mset (owned m ?s) = {fd. fd \<ge> 0 \<and> (\<exists>i < m. held ?s i = fd)}"
    by (auto simp: owned_def)
  have "held ?s i \<notin> set (closes ?s)" if "i < m" "held ?s i \<ge> 0" for i
  proof
    assume "held ?s i \<in> set (closes ?s)"
    then have "0 < count (mset (closes ?s)) (held ?s i)" by simp
    moreover have "0 < count (owned m ?s) (held ?s i)" using that set by auto
    ultimately show False using one [of "held ?s i"] unfolding plus_multiset.rep_eq by linarith
  qed
  moreover have "i = j" if "i < m" "j < m" "held ?s i \<ge> 0" "held ?s i = held ?s j" for i j
  proof (rule ccontr)
    assume ne: "i \<noteq> j"
    then have "mset_set {..<m} = add_mset i (add_mset j (mset_set ({..<m} - {i} - {j})))"
      using that(1,2) by (simp add: mset_set.remove [of "{..<m}" i] mset_set.remove [of "{..<m} - {i}" j])
    then have "2 \<le> count (owned m ?s) (held ?s i)" using that by (simp add: owned_def)
    then show False using one [of "held ?s i"] by simp
  qed
  moreover have "set (concat (map adopted ps)) = set (closes ?s) \<union> {fd. fd \<ge> 0 \<and> (\<exists>i < m. held ?s i = fd)}"
    using bal [THEN arg_cong [of _ _ set_mset]] set by simp
  ultimately show ?thesis unfolding Let_def by blast
qed

theorem descriptor_closed_once_witness:
  "closes (fold owner_step [Adopt 0 5, Adopt 1 6, MoveTo 0 1, MoveTo 0 0, MoveNew 2 0, Destroy 0, Destroy 1, Destroy 2] no_owners) = [5, 6] \<and>
   distinct (closes (fold owner_step [Adopt 0 5, Adopt 1 6, MoveTo 0 1, MoveTo 0 0, MoveNew 2 0, Destroy 0, Destroy 1, Destroy 2] no_owners))"
proof -
  let ?ps = "[Adopt 0 5, Adopt 1 6, MoveTo 0 1, MoveTo 0 0, MoveNew 2 0, Destroy 0, Destroy 1, Destroy 2]"
  have ok: "ops_ok 3 ?ps no_owners" "distinct (concat (map adopted ?ps))"
    by (simp_all add: no_owners_def fd_construct_def fd_move_assign_def fd_move_construct_def fd_release_def fd_reset_def fd_destroy_def Let_def)
  have "closes (fold owner_step ?ps no_owners) = [5, 6]"
    by (simp add: no_owners_def fd_construct_def fd_move_assign_def fd_move_construct_def fd_release_def fd_reset_def fd_destroy_def Let_def)
  with descriptor_closed_once [OF ok] show ?thesis by (simp add: Let_def)
qed

end
