(* ===== verification/Metrics_Text.thy ===== *)
theory Metrics_Text
  imports Worker_Properties Complex_Main
begin

text \<open>
  The text of \<^verbatim>\<open>/metrics\<close>, \<^verbatim>\<open>render_prometheus\<close> in \<^verbatim>\<open>src/src/obs/metrics.cpp\<close>. A \<^verbatim>\<open>double\<close> is the rational number it
  stands for; \<open>to_double\<close> rounds to 53 bits, to even on a tie, in the range that occurs here, and
  \<open>format_g\<close> is the \<^verbatim>\<open>%.Pg\<close> of \<^verbatim>\<open>printf\<close> for numbers that are not negative.
\<close>

section \<open>Numbers\<close>

definition round_even :: "rat \<Rightarrow> int" where
  "round_even x =
     (let f = \<lfloor>x\<rfloor>; r = x - of_int f in
      if r < 1 / 2 then f else if r > 1 / 2 then f + 1 else if even f then f else f + 1)"

text \<open>How often a number below 1 is to be multiplied by the base to reach 1; no \<^verbatim>\<open>double\<close> but 0 needs more
  than 1100 steps.\<close>

fun steps_to_one :: "nat \<Rightarrow> nat \<Rightarrow> rat \<Rightarrow> nat" where
  "steps_to_one 0 base x = 0"
| "steps_to_one (Suc n) base x = (if x \<ge> 1 then 0 else Suc (steps_to_one n base (x * of_nat base)))"

definition exponent_of :: "nat \<Rightarrow> rat \<Rightarrow> int" where
  "exponent_of base x =
     (if x \<ge> 1 then int (length (to_digits base (nat \<lfloor>x\<rfloor>))) - 1 else - int (steps_to_one 1100 base x))"

definition scale :: "nat \<Rightarrow> int \<Rightarrow> rat" where
  "scale base e = (if e \<ge> 0 then of_nat base ^ nat e else 1 / of_nat base ^ nat (- e))"

definition to_double :: "rat \<Rightarrow> rat" where
  "to_double x =
     (if x = 0 then 0 else let ulp = scale 2 (exponent_of 2 x - 52) in of_int (round_even (x / ulp)) * ulp)"

definition strip_zeros :: "string \<Rightarrow> string" where
  "strip_zeros s = rev (dropWhile (\<lambda>c. c = CHR ''0'') (rev s))"

definition point_and :: "string \<Rightarrow> string" where
  "point_and ds = (if ds = [] then [] else CHR ''.'' # ds)"

definition format_g :: "nat \<Rightarrow> rat \<Rightarrow> string" where
  "format_g prec x =
     (if x = 0 then ''0''
      else
        let e = exponent_of 10 x;
            m = round_even (x / scale 10 (e - int prec + 1));
            (m, e) = (if m = 10 ^ prec then (10 ^ (prec - 1), e + 1) else (m, e));
            ds = to_chars 10 (nat m)
        in if e < -4 \<or> e \<ge> int prec then
             take 1 ds @ point_and (strip_zeros (drop 1 ds)) @ ''e'' @ (if e < 0 then ''-'' else ''+'') @
               (if \<bar>e\<bar> < 10 then ''0'' else []) @ to_chars 10 (nat \<bar>e\<bar>)
           else if e \<ge> 0 then take (nat e + 1) ds @ point_and (strip_zeros (drop (nat e + 1) ds))
           else ''0'' @ point_and (strip_zeros (replicate (nat (- e) - 1) CHR ''0'' @ ds)))"

definition u64_double :: "u64 \<Rightarrow> rat" where
  "u64_double c = to_double (of_nat (unat c))"

section \<open>Lines\<close>

definition header :: "string \<Rightarrow> string \<Rightarrow> string \<Rightarrow> string" where
  "header name ty help =
     ''# HELP '' @ name @ '' '' @ help @ [LF] @ ''# TYPE '' @ name @ '' '' @ ty @ [LF]"

definition sample :: "string \<Rightarrow> string \<Rightarrow> rat \<Rightarrow> string" where
  "sample name labels v =
     name @ (if labels \<noteq> [] then ''{'' @ labels @ ''}'' else []) @ '' '' @ format_g 17 v @ [LF]"

definition worker_label :: "nat \<Rightarrow> string" where
  "worker_label i = ''worker='' @ [CHR 0x22] @ to_chars 10 i @ [CHR 0x22]"

definition per_worker :: "WorkerMetrics list \<Rightarrow> string \<Rightarrow> string \<Rightarrow> string \<Rightarrow> (WorkerMetrics \<Rightarrow> u64) \<Rightarrow> string" where
  "per_worker ws name ty help field =
     header name ty help @
     concat (map (\<lambda>(i, w). sample name (worker_label i) (u64_double (field w))) (enumerate 0 ws))"

definition total :: "WorkerMetrics list \<Rightarrow> string \<Rightarrow> string \<Rightarrow> (WorkerMetrics \<Rightarrow> u64) \<Rightarrow> string" where
  "total ws name help field =
     header name ''counter'' help @ sample name [] (u64_double (sum_list (map field ws)))"

definition active_connections :: "WorkerMetrics \<Rightarrow> rat" where
  "active_connections w =
     (let closed = connections_closed w; accepted = connections_accepted w
      in if accepted \<ge> closed then u64_double (accepted - closed) else 0)"

definition active_lines :: "WorkerMetrics list \<Rightarrow> string" where
  "active_lines ws =
     concat (map (\<lambda>(i, w). sample ''httpd_connections_active'' (worker_label i) (active_connections w)) (enumerate 0 ws))"

definition class_lines :: "WorkerMetrics list \<Rightarrow> string" where
  "class_lines ws =
     concat (map (\<lambda>cls. sample ''httpd_responses_total'' (''code='' @ [CHR 0x22] @ to_chars 10 cls @ ''xx'' @ [CHR 0x22])
       (u64_double (sum_list (map (\<lambda>w. responses_by_class w ! cls) ws)))) [1..<6])"

definition le_label :: "nat \<Rightarrow> string" where
  "le_label b = ''le='' @ [CHR 0x22] @ format_g 6 (to_double (2 ^ b / 1000000)) @ [CHR 0x22]"

text \<open>The loop over the buckets; it answers the lines and the last value of \<^verbatim>\<open>cumulative\<close>.\<close>

function bucket_loop :: "WorkerMetrics list \<Rightarrow> nat \<Rightarrow> u64 \<Rightarrow> string \<times> u64" where
  "bucket_loop ws b cumulative =
     (if b < kLatencyBuckets then
        let cumulative = cumulative + sum_list (map (\<lambda>w. latency_buckets w ! b) ws)
        in if b + 1 = kLatencyBuckets then ([], cumulative)
           else
             let line = sample ''httpd_request_duration_seconds_bucket'' (le_label b) (u64_double cumulative);
                 (lines, cumulative) = bucket_loop ws (b + 1) cumulative
             in (line @ lines, cumulative)
      else ([], cumulative))"
  by pat_completeness auto
termination
  by (relation "measure (\<lambda>(ws, b, c). kLatencyBuckets - b)") auto

declare bucket_loop.simps [simp del]

definition duration_lines :: "WorkerMetrics list \<Rightarrow> string" where
  "duration_lines ws =
     (let (lines, cumulative) = bucket_loop ws 0 0;
          sum_us = sum_list (map latency_sum_us ws)
      in lines @
         sample ''httpd_request_duration_seconds_bucket'' (''le='' @ [CHR 0x22] @ ''+Inf'' @ [CHR 0x22]) (u64_double cumulative) @
         sample ''httpd_request_duration_seconds_sum'' [] (to_double (u64_double sum_us / 1000000)) @
         sample ''httpd_request_duration_seconds_count'' [] (u64_double cumulative))"

definition render_prometheus :: "WorkerMetrics list \<Rightarrow> rat \<Rightarrow> string" where
  "render_prometheus ws uptime_seconds =
     header ''httpd_uptime_seconds'' ''gauge'' ''Seconds since the server started.'' @
     sample ''httpd_uptime_seconds'' [] uptime_seconds @
     header ''httpd_connections_active'' ''gauge'' ''Open client connections per worker.'' @
     active_lines ws @
     per_worker ws ''httpd_connections_accepted_total'' ''counter'' ''Accepted TCP connections.'' connections_accepted @
     per_worker ws ''httpd_requests_total'' ''counter'' ''Requests dispatched to a handler.'' requests_total @
     total ws ''httpd_connections_timed_out_total'' ''Connections closed by idle/header timeouts.'' connections_timed_out @
     total ws ''httpd_accept_errors_total'' ''accept4() failures (EMFILE, ENOBUFS, ...).'' accept_errors @
     total ws ''httpd_parse_errors_total'' ''Requests rejected by the HTTP parser.'' parse_errors @
     total ws ''httpd_bytes_received_total'' ''Bytes read from client sockets.'' bytes_received @
     total ws ''httpd_bytes_sent_total'' ''Bytes written to client sockets (all paths).'' bytes_sent @
     total ws ''httpd_bytes_sendfile_total'' ''Bytes sent zero-copy via sendfile(2).'' bytes_sendfile @
     per_worker ws ''httpd_eventloop_wakeups_total'' ''counter'' ''epoll_wait() returns.'' loop_wakeups @
     per_worker ws ''httpd_eventloop_events_total'' ''counter'' ''Events delivered by epoll_wait().'' loop_events @
     header ''httpd_responses_total'' ''counter'' ''Responses by status class.'' @
     class_lines ws @
     header ''httpd_request_duration_seconds'' ''histogram''
       ''Time from the first byte of a request until its response is queued.'' @
     duration_lines ws"

section \<open>Counters are printed exactly\<close>

lemma round_even_int: "round_even (of_int z) = z"
  by (simp add: round_even_def Let_def)

lemma round_even_nat: "round_even (of_nat n) = int n"
  using round_even_int [of "int n"] by simp

lemma exponent_nat:
  assumes "0 < n" "2 \<le> base"
  shows "exponent_of base (of_nat n) = int (length (to_digits base n)) - 1"
  using assms by (simp add: exponent_of_def)

lemma length_digits: "length (to_digits base n) = Suc (length (to_digits base n) - 1)"
  by (simp add: to_digits.simps [of base n])

lemma digit_zero: "digit_char 0 = CHR ''0''"
  by code_simp

lemma to_double_exact:
  assumes "n < 2 ^ 53"
  shows "to_double (of_nat n) = of_nat n"
proof (cases "n = 0")
  case False
  define e where "e = length (to_digits 2 n) - 1"
  have len: "length (to_digits 2 n) = Suc e" unfolding e_def by (rule length_digits)
  have "e \<le> 52" using length_to_digits [of 2 n 52] assms len by simp
  have ex: "exponent_of 2 (of_nat n) = int e" using exponent_nat [of n 2] False len by simp
  have sc: "scale 2 (int e - 52) = 1 / 2 ^ (52 - e)"
  proof (cases "e = 52")
    case False
    then have "nat (52 - int e) = 52 - e" "\<not> int e - 52 \<ge> 0" using \<open>e \<le> 52\<close> by auto
    then show ?thesis by (simp add: scale_def)
  qed (simp add: scale_def)
  have "(of_nat n :: rat) / (1 / 2 ^ (52 - e)) = of_nat (n * 2 ^ (52 - e))" by simp
  then have "round_even (of_nat n / (1 / 2 ^ (52 - e))) = int (n * 2 ^ (52 - e))" by (simp only: round_even_nat)
  then show ?thesis using False by (simp add: to_double_def ex sc)
qed (simp add: to_double_def)

lemma to_chars_shift: "0 < n \<Longrightarrow> to_chars 10 (n * 10 ^ k) = to_chars 10 n @ replicate k CHR ''0''"
proof (induction k)
  case (Suc k)
  have "to_chars 10 (n * 10 ^ Suc k) = to_chars 10 (n * 10 ^ k) @ [digit_char 0]"
    using Suc.prems by (subst to_chars.simps) (simp add: not_less)
  then show ?case using Suc by (simp add: digit_zero replicate_append_same)
qed simp

lemma format_g_nat:
  assumes "n < 10 ^ 17"
  shows "format_g 17 (of_nat n) = to_chars 10 n"
proof (cases "n = 0")
  case True
  then show ?thesis by (simp add: format_g_def to_chars.simps [of 10 0] digit_zero)
next
  case False
  define e where "e = length (to_digits 10 n) - 1"
  have ld: "length (to_digits 10 n) = Suc e" unfolding e_def by (rule length_digits)
  then have e: "e \<le> 16" "length (to_chars 10 n) = Suc e"
    using length_to_digits [of 10 n 16] assms by (simp_all add: to_chars_digits)
  have ex: "exponent_of 10 (of_nat n) = int e" using exponent_nat [of n 10] False ld by simp
  have sc: "scale 10 (int e - 17 + 1) = 1 / 10 ^ (16 - e)"
  proof (cases "e = 16")
    case False
    then have "nat (16 - int e) = 16 - e" "\<not> int e - 17 + 1 \<ge> 0" using e(1) by auto
    then show ?thesis by (simp add: scale_def)
  qed (simp add: scale_def)
  have "(of_nat n :: rat) / (1 / 10 ^ (16 - e)) = of_nat (n * 10 ^ (16 - e))" by simp
  then have m: "round_even (of_nat n / (1 / 10 ^ (16 - e))) = int (n * 10 ^ (16 - e))" by (simp only: round_even_nat)
  have len: "length (to_chars 10 (n * 10 ^ (16 - e))) = 17" using to_chars_shift [of n "16 - e"] False e by simp
  have "n * 10 ^ (16 - e) \<noteq> 10 ^ 17"
  proof
    assume "n * 10 ^ (16 - e) = 10 ^ 17"
    then have "length (to_chars 10 (1 * 10 ^ 17)) = 17" using len by simp
    then show False using to_chars_shift [of 1 17] to_chars.simps [of 10 1] by simp
  qed
  then have ne: "int (n * 10 ^ (16 - e)) \<noteq> 10 ^ 17" by (metis of_nat_eq_iff of_nat_numeral of_nat_power)
  have ds: "to_chars 10 (nat (int n * 10 ^ (16 - e))) = to_chars 10 n @ replicate (16 - e) CHR ''0''"
    using to_chars_shift [of n "16 - e"] False by (simp add: nat_mult_distrib nat_power_eq)
  show ?thesis
    using False e ne unfolding format_g_def Let_def ex int_ops(3) of_nat_numeral sc m
    by (simp add: ds strip_zeros_def point_and_def)
qed

lemma u64_text:
  assumes "n < 2 ^ 53"
  shows "format_g 17 (u64_double (word_of_nat n)) = to_chars 10 n"
proof -
  have "unat (word_of_nat n :: u64) = n" using assms by (simp add: unsigned_of_nat take_bit_nat_eq_self)
  then show ?thesis using to_double_exact [OF assms] format_g_nat [of n] assms by (simp add: u64_double_def)
qed

section \<open>The histogram\<close>

text \<open>The counters after latencies were observed.\<close>

definition observed :: "u64 list \<Rightarrow> WorkerMetrics" where
  "observed obs = fold (\<lambda>us m. observe_latency_us m us) obs new_metrics"

lemma observed_snoc: "observed (obs @ [us]) = observe_latency_us (observed obs) us"
  by (simp add: observed_def)

lemma observed_buckets:
  "length (latency_buckets (observed obs)) = kLatencyBuckets \<and>
   (j < kLatencyBuckets \<longrightarrow> latency_buckets (observed obs) ! j = word_of_nat (length (filter (\<lambda>us. bucket_index us = j) obs))) \<and>
   latency_sum_us (observed obs) = sum_list obs"
proof (induction obs rule: rev_induct)
  case Nil
  then show ?case by (simp add: observed_def new_metrics_def)
next
  case (snoc us obs)
  then show ?case using bucket_index_less [of us]
    by (auto simp: observed_snoc observe_latency_us_def bump_at_def bump_def nth_list_update)
qed

lemma bucket_index_le:
  assumes "b < 23"
  shows "bucket_index us < Suc b \<longleftrightarrow> unat us < 2 ^ b"
proof -
  let ?i = "bucket_index us"
  have i: "?i = 23 \<or> unat us < 2 ^ ?i" "?i = 0 \<or> 2 ^ (?i - 1) \<le> unat us"
    using latency_bucket_bounds [of us] by (simp_all add: Let_def kLatencyBuckets_def)
  show ?thesis
  proof
    assume "?i < Suc b"
    then have "unat us < 2 ^ ?i" using i(1) assms by auto
    moreover have "(2 :: nat) ^ ?i \<le> 2 ^ b" using \<open>?i < Suc b\<close> by (intro power_increasing) auto
    ultimately show "unat us < 2 ^ b" by (rule order.strict_trans2)
  next
    assume u: "unat us < 2 ^ b"
    show "?i < Suc b"
    proof (rule ccontr)
      assume "\<not> ?i < Suc b"
      then have ge: "b \<le> ?i - 1" "?i \<noteq> 0" by auto
      then have "2 ^ (?i - 1) \<le> unat us" using i(2) by simp
      moreover have "(2 :: nat) ^ b \<le> 2 ^ (?i - 1)" using ge(1) by (intro power_increasing) auto
      ultimately show False using u by linarith
    qed
  qed
qed

text \<open>What a turn of the loop adds, and what it has added.\<close>

definition bucket_sum :: "WorkerMetrics list \<Rightarrow> nat \<Rightarrow> u64" where
  "bucket_sum ws b = sum_list (map (\<lambda>w. latency_buckets w ! b) ws)"

lemma bucket_loop_lines:
  "b < kLatencyBuckets \<Longrightarrow> bucket_loop ws b c =
     (concat (map (\<lambda>j. sample ''httpd_request_duration_seconds_bucket'' (le_label j)
        (u64_double (c + sum_list (map (bucket_sum ws) [b..<Suc j])))) [b..<kLatencyBuckets - 1]),
      c + sum_list (map (bucket_sum ws) [b..<kLatencyBuckets]))"
proof (induction ws b c rule: bucket_loop.induct)
  case (1 ws b c)
  show ?case
  proof (cases "b + 1 = kLatencyBuckets")
    case True
    then have "[b..<kLatencyBuckets] = [b]" by (simp flip: True)
    with True 1(2) show ?thesis by (simp add: bucket_loop.simps [of ws b c] bucket_sum_def)
  next
    case False
    let ?line = "\<lambda>c j. sample ''httpd_request_duration_seconds_bucket'' (le_label j) (u64_double c)"
    have step: "sum_list (map (bucket_sum ws) [b..<n]) = bucket_sum ws b + sum_list (map (bucket_sum ws) [Suc b..<n])" if "b < n" for n
      using that by (simp add: upt_conv_Cons)
    have lt: "b < kLatencyBuckets - 1" using False 1(2) by simp
    then have cons: "[b..<kLatencyBuckets - 1] = b # [Suc b..<kLatencyBuckets - 1]" by (simp add: upt_conv_Cons)
    have tail: "map (\<lambda>j. ?line (c + bucket_sum ws b + sum_list (map (bucket_sum ws) [Suc b..<Suc j])) j) [Suc b..<kLatencyBuckets - 1] =
        map (\<lambda>j. ?line (c + sum_list (map (bucket_sum ws) [b..<Suc j])) j) [Suc b..<kLatencyBuckets - 1]"
      by (rule map_cong [OF refl]) (simp add: step add.assoc del: upt_Suc)
    have ih: "bucket_loop ws (Suc b) (c + bucket_sum ws b) =
        (concat (map (\<lambda>j. ?line (c + bucket_sum ws b + sum_list (map (bucket_sum ws) [Suc b..<Suc j])) j) [Suc b..<kLatencyBuckets - 1]),
         c + bucket_sum ws b + sum_list (map (bucket_sum ws) [Suc b..<kLatencyBuckets]))"
      using 1(1) [OF 1(2) refl False] lt by (simp add: bucket_sum_def [symmetric] del: upt_Suc)
    have "bucket_loop ws b c = (?line (c + bucket_sum ws b) b @ fst (bucket_loop ws (Suc b) (c + bucket_sum ws b)),
        snd (bucket_loop ws (Suc b) (c + bucket_sum ws b)))"
      using 1(2) False by (simp add: bucket_loop.simps [of ws b c] bucket_sum_def Let_def split: prod.split)
    then show ?thesis
      unfolding ih fst_conv snd_conv tail cons step [OF 1(2)] list.map concat.simps by (simp add: add.assoc del: upt_Suc) simp
  qed
qed

text \<open>Workers that have observed the latencies \<open>obss\<close>, whatever else they counted.\<close>

definition have_observed :: "WorkerMetrics list \<Rightarrow> u64 list list \<Rightarrow> bool" where
  "have_observed ws obss \<longleftrightarrow>
     map (\<lambda>w. (latency_buckets w, latency_sum_us w)) ws =
     map (\<lambda>obs. (latency_buckets (observed obs), latency_sum_us (observed obs))) obss"

lemma have_observed_sums:
  assumes "have_observed ws obss"
  shows "j < kLatencyBuckets \<Longrightarrow> bucket_sum ws j = word_of_nat (length (filter (\<lambda>us. bucket_index us = j) (concat obss)))"
    and "sum_list (map latency_sum_us ws) = sum_list (concat obss)"
proof -
  have b: "map latency_buckets ws = map (\<lambda>obs. latency_buckets (observed obs)) obss"
      "map latency_sum_us ws = map (\<lambda>obs. latency_sum_us (observed obs)) obss"
    using arg_cong [OF assms [unfolded have_observed_def], of "map fst"]
      arg_cong [OF assms [unfolded have_observed_def], of "map snd"] by (simp_all add: comp_def)
  show "bucket_sum ws j = word_of_nat (length (filter (\<lambda>us. bucket_index us = j) (concat obss)))" if "j < kLatencyBuckets"
  proof -
    have "bucket_sum ws j = sum_list (map (\<lambda>bs. bs ! j) (map latency_buckets ws))" by (simp add: bucket_sum_def comp_def)
    also have "\<dots> = sum_list (map (\<lambda>obs. word_of_nat (length (filter (\<lambda>us. bucket_index us = j) obs))) obss)"
      unfolding b(1) using observed_buckets that by (simp add: comp_def)
    also have "\<dots> = word_of_nat (length (filter (\<lambda>us. bucket_index us = j) (concat obss)))"
      by (induction obss) simp_all
    finally show ?thesis .
  qed
  show "sum_list (map latency_sum_us ws) = sum_list (concat obss)"
    unfolding b(2) using observed_buckets [of _ 0] by (induction obss) simp_all
qed

lemma count_below:
  "sum_list (map (\<lambda>j. word_of_nat (length (filter (\<lambda>x. f x = j) xs)) :: u64) [0..<n]) =
     word_of_nat (length (filter (\<lambda>x. f x < n) xs))"
proof (induction n)
  case (Suc n)
  have "length (filter (\<lambda>x. f x < Suc n) xs) = length (filter (\<lambda>x. f x < n) xs) + length (filter (\<lambda>x. f x = n) xs)"
    by (induction xs) (auto simp: less_Suc_eq)
  with Suc show ?case by simp
qed simp

lemma bucket_sums_below:
  assumes "have_observed ws obss" "n \<le> kLatencyBuckets"
  shows "sum_list (map (bucket_sum ws) [0..<n]) = word_of_nat (length (filter (\<lambda>us. bucket_index us < n) (concat obss)))"
proof -
  have "map (bucket_sum ws) [0..<n] = map (\<lambda>j. word_of_nat (length (filter (\<lambda>us. bucket_index us = j) (concat obss)))) [0..<n]"
    by (rule map_cong [OF refl]) (use have_observed_sums(1) [OF assms(1)] assms(2) in simp)
  then show ?thesis using count_below [of bucket_index "concat obss" n] by (simp only:)
qed

section \<open>Properties\<close>



text \<open>C33: The gauge of open connections tells the truth. In every state of the event loop of a worker, the
  line of the gauge for that worker shows, in plain decimal, the number of connections in its map, as
  long as the counters have not wrapped around.\<close>

theorem active_gauge_exact:
  assumes "sound_config cfg" and "0 \<le> wk" and "runs_from (new_worker cfg rts lst wk k) (w, last_sweep)"
    and "unat (connections_closed (metrics w)) + length (conns w) < 2 ^ 64" and "length (conns w) < 2 ^ 53"
  shows "sample ''httpd_connections_active'' (worker_label i) (active_connections (metrics w)) =
    ''httpd_connections_active{worker='' @ [CHR 0x22] @ to_chars 10 i @ [CHR 0x22] @ ''} '' @ to_chars 10 (length (conns w)) @ [LF]"
proof -
  let ?a = "connections_accepted (metrics w)" and ?c = "connections_closed (metrics w)"
  have "worker_inv w" using runs_from_inv [OF assms(3) new_worker_inv [OF assms(1,2)]] by simp
  then have a: "?a = ?c + word_of_nat (length (conns w))" by (simp add: worker_inv_def accounted_def)
  have "unat (word_of_nat (length (conns w)) :: u64) = length (conns w)"
    using assms(5) by (simp add: unsigned_of_nat take_bit_nat_eq_self)
  then have "unat ?a = unat ?c + length (conns w)" using assms(4) unfolding a by (simp add: unat_word_ariths)
  then have "?c \<le> ?a" by (simp add: word_le_nat_alt)
  then have "active_connections (metrics w) = u64_double (word_of_nat (length (conns w)))"
    by (simp add: active_connections_def a)
  then show ?thesis using u64_text [OF assms(5)] by (simp add: sample_def worker_label_def)
qed

theorem active_gauge_exact_witness:
  "\<exists>w l. runs_from sample_worker (w, l) \<and> length (conns w) = 2 \<and>
     sample ''httpd_connections_active'' (worker_label 1) (active_connections (metrics w)) =
       ''httpd_connections_active{worker='' @ [CHR 0x22] @ to_chars 10 1 @ [CHR 0x22] @ ''} '' @ to_chars 10 2 @ [LF]"
proof -
  obtain w where w: "run_turn (quiet_wait [(3, EPOLLIN)] [Accepted 5 [] [] True, Accepted 6 [] [] True]) sample_start = Some (Again (w, 1))"
      "conns w = [(5, new_connection 5 default_limits 1 (\<lambda>_. SP)), (6, new_connection 6 default_limits 1 (\<lambda>_. SP))]"
      "connections_closed (metrics w) = 0"
    using sample_accept by blast
  from runs_from.turn [OF sample_running w(1)] have r: "runs_from sample_worker (w, 1)" .
  have l: "length (conns w) = 2" using w(2) by simp
  have "unat (connections_closed (metrics w)) + length (conns w) < 2 ^ 64" "length (conns w) < 2 ^ 53"
    using w(3) l by simp_all
  from active_gauge_exact [OF sample_config _ r [unfolded sample_worker_def] this, of 1] r l show ?thesis by auto
qed

end
