(* ===== verification/C_Numbers.thy ===== *)
theory C_Numbers
  imports Parser_Numbers
begin

text \<open>
  The conversions of the C library with which the two programs read numbers, \<^verbatim>\<open>strtoul\<close>, \<^verbatim>\<open>strtoull\<close>
  and \<^verbatim>\<open>atoi\<close>, with 64-bit \<^verbatim>\<open>long\<close>. White space and one sign may precede the digits; what follows the
  digits is not looked at. \<^verbatim>\<open>atoi\<close> is \<^verbatim>\<open>strtol\<close> cast to \<^verbatim>\<open>int\<close>, as in the GNU library; the standard
  leaves it open when the value is not an \<^verbatim>\<open>int\<close>.
\<close>

section \<open>Definitions\<close>

definition is_space :: "char \<Rightarrow> bool" where
  "is_space c \<longleftrightarrow> 9 \<le> byte c \<and> byte c \<le> 13 \<or> c = SP"

fun sign_of :: "string \<Rightarrow> bool \<times> string" where
  "sign_of [] = (False, [])"
| "sign_of (c # s) = (if c = CHR ''-'' then (True, s) else if c = CHR ''+'' then (False, s) else (False, c # s))"

text \<open>The sign and the digits, and where they end.\<close>

definition scan_number :: "string \<Rightarrow> bool \<times> string \<times> string" where
  "scan_number s =
     (let (neg, t) = sign_of (dropWhile is_space s)
      in (neg, takeWhile is_digit t, dropWhile is_digit t))"

text \<open>The value, the rest at \<^verbatim>\<open>*end\<close> unless nothing was converted, and whether \<^verbatim>\<open>errno\<close> was set.\<close>

definition strtoul :: "string \<Rightarrow> nat \<times> string option \<times> bool" where
  "strtoul s =
     (let (neg, ds, rest) = scan_number s; v = dec_value ds
      in if ds = [] then (0, None, False)
         else if v \<ge> 2 ^ 64 then (2 ^ 64 - 1, Some rest, True)
         else (if neg then (2 ^ 64 - v) mod 2 ^ 64 else v, Some rest, False))"

definition strtol :: "string \<Rightarrow> int" where
  "strtol s =
     (let (neg, ds, rest) = scan_number s; v = int (dec_value ds)
      in if neg then max (- (2 ^ 63)) (- v) else min (2 ^ 63 - 1) v)"

definition atoi :: "string \<Rightarrow> int" where
  "atoi s = signed_take_bit 31 (strtol s)"

section \<open>Plain numbers\<close>

lemma digit_not_space: "is_digit c \<Longrightarrow> \<not> is_space c"
  by (auto simp: is_digit_def is_space_def)

lemma scan_digits:
  assumes "list_all is_digit ds" "ds \<noteq> []" "rest = [] \<or> \<not> is_digit (hd rest)"
  shows "scan_number (ds @ rest) = (False, ds, rest)"
proof -
  obtain d ds' where d: "ds = d # ds'" "is_digit d" using assms(1,2) by (cases ds) auto
  then have "sign_of (ds @ rest) = (False, ds @ rest)" by (auto simp: is_digit_def)
  moreover have "takeWhile is_digit (ds @ rest) = ds" "dropWhile is_digit (ds @ rest) = rest"
    using assms(1,3) by (cases rest; auto simp: list_all_iff takeWhile_append dropWhile_append)+
  ultimately show ?thesis using d digit_not_space [OF d(2)] by (simp add: scan_number_def)
qed

lemma scan_space: "is_space c \<Longrightarrow> scan_number (c # s) = scan_number s"
  by (simp add: scan_number_def)

lemma scan_to_chars:
  assumes "rest = [] \<or> \<not> is_digit (hd rest)"
  shows "scan_number (to_chars 10 n @ rest) = (False, to_chars 10 n, rest)"
  by (rule scan_digits) (use assms to_chars_digit_string [of n] in simp_all)

lemma strtoul_to_chars: "n < 2 ^ 64 \<Longrightarrow> strtoul (to_chars 10 n) = (n, Some [], False)"
  using scan_to_chars [of "[]" n] to_chars_digit_string [of n] by (simp add: strtoul_def dec_value_to_chars)

lemma strtoul_space: "is_space c \<Longrightarrow> strtoul (c # s) = strtoul s"
  by (simp add: strtoul_def scan_space)

lemma atoi_to_chars:
  assumes "n < 2 ^ 31" "rest = [] \<or> \<not> is_digit (hd rest)"
  shows "atoi (to_chars 10 n @ rest) = int n"
proof -
  have "strtol (to_chars 10 n @ rest) = int n"
    using scan_to_chars [OF assms(2), of n] assms(1) by (simp add: strtol_def dec_value_to_chars)
  moreover have "signed_take_bit 31 (int n) = int n"
    using assms(1) by (intro signed_take_bit_int_eq_self) auto
  ultimately show ?thesis by (simp add: atoi_def)
qed

end
