(* ===== verification/Load_Client.thy ===== *)
theory Load_Client
  imports Worker_Loop C_Numbers
begin

text \<open>
  One thread of the load generator, the class \<^verbatim>\<open>Worker\<close> of \<^verbatim>\<open>src/tools/loadgen.cpp\<close>: it keeps a number of
  requests in flight on each of its connections, finds the responses in what it receives, and counts
  them. The sockets are those of the kernel of the server model; \<open>steady\<close> is the steady clock in
  nanoseconds, read again and again; \<open>sockets\<close> are the answers of \<^verbatim>\<open>socket\<close>, with what each new socket
  will receive and take; \<open>polls\<close> are the answers of \<^verbatim>\<open>epoll_wait\<close>, with what has arrived meanwhile.
  The results of \<^verbatim>\<open>connect\<close>, \<^verbatim>\<open>setsockopt\<close> and \<^verbatim>\<open>epoll_ctl\<close> are not looked at by the program.
\<close>

section \<open>Data\<close>

record LoadOptions =
  lo_host :: string
  lo_port :: "16 word"
  lo_path :: string
  lo_connections :: int
  lo_threads :: int
  lo_duration :: int
  lo_pipeline :: int

record ThreadStats =
  st_requests :: u64
  st_non_2xx :: u64
  st_socket_errors :: u64
  st_reconnects :: u64
  st_bytes :: u64
  latencies_ns :: "u64 list"

definition no_stats :: ThreadStats where
  "no_stats = \<lparr>st_requests = 0, st_non_2xx = 0, st_socket_errors = 0, st_reconnects = 0, st_bytes = 0, latencies_ns = []\<rparr>"

record LoadConn =
  lc_fd :: int
  lc_out :: string
  lc_out_off :: size_t
  lc_in :: string
  sent_at :: "u64 list"

definition new_conn :: LoadConn where
  "new_conn = \<lparr>lc_fd = -1, lc_out = [], lc_out_off = 0, lc_in = [], sent_at = []\<rparr>"

type_synonym Poll = "(nat \<times> u32) list \<times> (int \<Rightarrow> RecvResult list) \<times> (int \<Rightarrow> SendResult list)"

record LoadWorker =
  lw_opt :: LoadOptions
  lw_deadline :: int
  lw_conns :: "LoadConn list"
  lw_request :: string
  lw_stats :: ThreadStats
  lw_ep :: int
  lw_kernel :: Kernel
  steady :: "nat \<Rightarrow> int"
  steady_reads :: nat
  sockets :: "nat \<Rightarrow> nat option \<times> RecvResult list \<times> SendResult list"
  sockets_made :: nat
  polls :: "nat \<Rightarrow> Poll"
  polls_made :: nat
  lw_closed :: "int list"

section \<open>The clock and the requests\<close>

definition read_steady :: "LoadWorker \<Rightarrow> int \<times> LoadWorker" where
  "read_steady w = (steady w (steady_reads w), w\<lparr>steady_reads := Suc (steady_reads w)\<rparr>)"

definition now_ns :: "LoadWorker \<Rightarrow> u64 \<times> LoadWorker" where
  "now_ns w = (let (t, w) = read_steady w in (word_of_int t, w))"

definition request_text :: "LoadOptions \<Rightarrow> string" where
  "request_text opt =
     ''GET '' @ lo_path opt @ '' HTTP/1.1'' @ kCRLF @ ''Host: '' @ lo_host opt @ kCRLF @ ''User-Agent: loadgen'' @ kCRLF @ kCRLF"

definition enqueue :: "LoadWorker \<times> LoadConn \<Rightarrow> LoadWorker \<times> LoadConn" where
  "enqueue = (\<lambda>(w, c).
     let c = c\<lparr>lc_out := lc_out c @ lw_request w\<rparr>; (t, w) = now_ns w
     in (w, c\<lparr>sent_at := sent_at c @ [t]\<rparr>))"

section \<open>Finding the responses\<close>

definition iequals_prefix :: "string \<Rightarrow> string \<Rightarrow> bool" where
  "iequals_prefix s pre \<longleftrightarrow>
     length pre \<le> length s \<and> list_all (\<lambda>i. ascii_lower (s ! i) = ascii_lower (pre ! i)) [0..<length pre]"

text \<open>The loop over the lines of a head; the result is the last length that was seen.\<close>

definition length_of_line :: "string \<Rightarrow> nat" where
  "length_of_line rest = fst (strtoul (drop 15 (upto_pos (find_str kCRLF rest) rest)))"

function field_scan :: "string \<Rightarrow> size_t option \<Rightarrow> nat option \<Rightarrow> nat option" where
  "field_scan head None len = len"
| "field_scan head (Some line) len =
     (let rest = drop (line + 2) head;
          len = (if iequals_prefix rest ''content-length:'' then Some (length_of_line rest) else len)
      in field_scan head (map_option (\<lambda>i. i + (line + 2)) (find_str kCRLF (drop (line + 2) head))) len)"
  by pat_completeness auto
termination
proof (relation "measure (\<lambda>(head, line, len). case line of None \<Rightarrow> 0 | Some l \<Rightarrow> Suc (length head - l))", simp)
  fix head line rest and len :: "nat option"
  show "((head, map_option (\<lambda>i. i + (line + 2)) (find_str kCRLF (drop (line + 2) head)), x), head, Some line, len)
      \<in> measure (\<lambda>(head, line, len). case line of None \<Rightarrow> 0 | Some l \<Rightarrow> Suc (length head - l))" for x :: "nat option"
    by (cases "find_str kCRLF (drop (line + 2) head)") (auto dest: find_str_bound)
qed

datatype Consume = Consumed | Refused | Unsupported

definition consume_turn :: "LoadWorker \<times> LoadConn \<times> size_t \<Rightarrow> (LoadWorker \<times> LoadConn \<times> size_t, LoadWorker \<times> LoadConn \<times> Consume) Step" where
  "consume_turn = (\<lambda>(w, c, pos).
     case find_str (kCRLF @ kCRLF) (drop pos (lc_in c)) of
       None \<Rightarrow> Stop (w, c\<lparr>lc_in := drop pos (lc_in c)\<rparr>, Consumed)
     | Some i \<Rightarrow>
         let head = take i (drop pos (lc_in c)) in
         if length head < 12 then Stop (w, c, Refused)
         else
           let status = atoi (take 3 (drop 9 head)) in
           case field_scan head (find_str kCRLF head) None of
             None \<Rightarrow> Stop (w, c, Unsupported)
           | Some len \<Rightarrow>
               let total = szadd (i + 4) len in
               if length (lc_in c) - pos < total then Stop (w, c\<lparr>lc_in := drop pos (lc_in c)\<rparr>, Consumed)
               else
                 (case sent_at c of
                    [] \<Rightarrow> Stop (w, c, Refused)
                  | t # ts \<Rightarrow>
                      let (now, w) = now_ns w; st = lw_stats w;
                          st = st\<lparr>latencies_ns := latencies_ns st @ [now - t], st_requests := st_requests st + 1\<rparr>;
                          st = (if status < 200 \<or> status \<ge> 300 then st\<lparr>st_non_2xx := st_non_2xx st + 1\<rparr> else st);
                          c = c\<lparr>sent_at := ts\<rparr>;
                          (t, w) = read_steady (w\<lparr>lw_stats := st\<rparr>);
                          (w, c) = (if t < lw_deadline w then enqueue (w, c) else (w, c))
                      in Again (w, c, pos + total)))"

definition consume_responses :: "LoadWorker \<Rightarrow> LoadConn \<Rightarrow> (LoadWorker \<times> LoadConn \<times> Consume) option" where
  "consume_responses w c = iterate (\<lambda>s. Some (consume_turn s)) (w, c, 0)"

section \<open>Serving a connection\<close>

definition count_bytes :: "nat \<Rightarrow> LoadWorker \<Rightarrow> LoadWorker" where
  "count_bytes n w = w\<lparr>lw_stats := (lw_stats w)\<lparr>st_bytes := st_bytes (lw_stats w) + word_of_nat n\<rparr>\<rparr>"

definition kLoadRead :: size_t where "kLoadRead = 64 * 1024"

text \<open>The flag of the result tells whether the function goes on; \<^verbatim>\<open>ENOTCONN\<close> of \<^verbatim>\<open>send\<close> is taken as \<^verbatim>\<open>EAGAIN\<close>.\<close>

definition load_recv_turn :: "LoadWorker \<times> LoadConn \<Rightarrow> (LoadWorker \<times> LoadConn, LoadWorker \<times> LoadConn \<times> bool) Step" where
  "load_recv_turn = (\<lambda>(w, c).
     let (r, k) = sys_recv (lc_fd c) kLoadRead (lw_kernel w); w = w\<lparr>lw_kernel := k\<rparr>
     in case r of
         Received s \<Rightarrow>
           if s \<noteq> [] then Again (count_bytes (length s) w, c\<lparr>lc_in := lc_in c @ s\<rparr>) else Stop (w, c, False)
       | RecvAgain \<Rightarrow> Stop (w, c, True)
       | RecvIntr \<Rightarrow> Again (w, c)
       | RecvFail \<Rightarrow> Stop (w, c, False))"

definition load_send_turn :: "LoadWorker \<times> LoadConn \<Rightarrow> (LoadWorker \<times> LoadConn, LoadWorker \<times> LoadConn \<times> bool) Step" where
  "load_send_turn = (\<lambda>(w, c).
     if lc_out_off c < length (lc_out c) then
       let (r, k) = sys_send (lc_fd c) (drop (lc_out_off c) (lc_out c)) (lw_kernel w); w = w\<lparr>lw_kernel := k\<rparr>
       in case r of
           Sent n \<Rightarrow> if n > 0 then Again (w, c\<lparr>lc_out_off := lc_out_off c + n\<rparr>) else Stop (w, c, False)
         | SendAgain \<Rightarrow> Stop (w, c, True)
         | SendIntr \<Rightarrow> Again (w, c)
         | SendFail \<Rightarrow> Stop (w, c, False)
     else Stop (w, c, True))"

datatype Service = Served | Broken | Exited

definition load_flush :: "LoadWorker \<Rightarrow> LoadConn \<Rightarrow> (LoadWorker \<times> LoadConn \<times> Service) option" where
  "load_flush w c =
     Option.bind (iterate (\<lambda>s. Some (load_send_turn s)) (w, c)) (\<lambda>(w, c, ok).
       if \<not> ok then Some (w, c, Broken)
       else Some (w, if lc_out_off c = length (lc_out c) then c\<lparr>lc_out := [], lc_out_off := 0\<rparr> else c, Served))"

definition service :: "LoadWorker \<Rightarrow> LoadConn \<Rightarrow> u32 \<Rightarrow> (LoadWorker \<times> LoadConn \<times> Service) option" where
  "service w c events =
     (if and events EPOLLERR \<noteq> 0 then Some (w, c, Broken)
      else
        Option.bind (iterate (\<lambda>s. Some (load_recv_turn s)) (w, c)) (\<lambda>(w, c, ok).
          if \<not> ok then Some (w, c, Broken)
          else
            Option.bind (consume_responses w c) (\<lambda>(w, c, r).
              case r of
                Refused \<Rightarrow> Some (w, c, Broken)
              | Unsupported \<Rightarrow> Some (w, c, Exited)
              | Consumed \<Rightarrow> load_flush w c)))"

section \<open>The thread\<close>

definition sys_socket :: "LoadWorker \<Rightarrow> int \<times> LoadWorker" where
  "sys_socket w =
     (let (answer, rs, ss) = sockets w (sockets_made w); w = w\<lparr>sockets_made := Suc (sockets_made w)\<rparr>
      in case answer of
          None \<Rightarrow> (-1, w)
        | Some n \<Rightarrow>
            let fd = free_fd (lw_ep w # map lc_fd (lw_conns w)) n; k = lw_kernel w
            in (fd, w\<lparr>lw_kernel := k\<lparr>recvs := (recvs k)(fd := rs), sends := (sends k)(fd := ss), wire := (wire k)(fd := [])\<rparr>\<rparr>))"

definition store :: "nat \<Rightarrow> LoadConn \<Rightarrow> LoadWorker \<Rightarrow> LoadWorker" where
  "store idx c w = w\<lparr>lw_conns := (lw_conns w)[idx := c]\<rparr>"

definition load_open :: "nat \<Rightarrow> LoadWorker \<Rightarrow> LoadWorker" where
  "load_open idx w =
     (let (fd, w) = sys_socket (store idx new_conn w);
          (w, c) = (enqueue ^^ nat (lo_pipeline (lw_opt w))) (w, new_conn\<lparr>lc_fd := fd\<rparr>)
      in store idx c w)"

definition load_close :: "int \<Rightarrow> LoadWorker \<Rightarrow> LoadWorker" where
  "load_close fd w = w\<lparr>lw_closed := lw_closed w @ [fd]\<rparr>"

definition reopen :: "nat \<Rightarrow> LoadWorker \<Rightarrow> LoadWorker" where
  "reopen idx w =
     (let w = load_close (lc_fd (lw_conns w ! idx)) w; st = lw_stats w
      in load_open idx (w\<lparr>lw_stats := st\<lparr>st_reconnects := st_reconnects st + 1\<rparr>\<rparr>))"

text \<open>\<^term>\<open>Inl\<close> is the exit of the whole process.\<close>

definition load_event :: "LoadWorker \<Rightarrow> nat \<times> u32 \<Rightarrow> (LoadWorker + LoadWorker) option" where
  "load_event w = (\<lambda>(idx, events).
     Option.bind (service w (lw_conns w ! idx) events) (\<lambda>(w, c, r).
       let w = store idx c w; st = lw_stats w
       in case r of
           Served \<Rightarrow> Some (Inr w)
         | Exited \<Rightarrow> Some (Inl w)
         | Broken \<Rightarrow> Some (Inr (reopen idx (w\<lparr>lw_stats := st\<lparr>st_socket_errors := st_socket_errors st + 1\<rparr>\<rparr>)))))"

fun load_events :: "LoadWorker \<Rightarrow> (nat \<times> u32) list \<Rightarrow> (LoadWorker + LoadWorker) option" where
  "load_events w [] = Some (Inr w)"
| "load_events w (e # es) =
     Option.bind (load_event w e) (\<lambda>r. case r of Inl w \<Rightarrow> Some (Inl w) | Inr w \<Rightarrow> load_events w es)"

definition load_close_all :: "LoadWorker \<Rightarrow> LoadWorker" where
  "load_close_all w = load_close (lw_ep w) (fold load_close (filter (\<lambda>fd. fd \<ge> 0) (map lc_fd (lw_conns w))) w)"

definition load_turn :: "LoadWorker \<Rightarrow> (LoadWorker, LoadWorker + LoadWorker) Step option" where
  "load_turn w =
     (let (t, w) = read_steady w in
      if t < lw_deadline w then
        let (events, rs, ss) = polls w (polls_made w);
            w = w\<lparr>polls_made := Suc (polls_made w), lw_kernel := arrive rs ss [] (lw_kernel w)\<rparr>
        in map_option (\<lambda>r. case r of Inl w \<Rightarrow> Stop (Inl w) | Inr w \<Rightarrow> Again w) (load_events w events)
      else Some (Stop (Inr (load_close_all w))))"

definition load_run :: "LoadWorker \<Rightarrow> (LoadWorker + LoadWorker) option" where
  "load_run w = iterate load_turn (fold load_open [0..<length (lw_conns w)] w)"

text \<open>A vector cannot have a negative number of connections: its constructor throws.\<close>

definition load_worker :: "LoadOptions \<Rightarrow> int \<Rightarrow> int \<Rightarrow> int \<Rightarrow> Kernel \<Rightarrow> (nat \<Rightarrow> int) \<Rightarrow> nat \<Rightarrow>
    (nat \<Rightarrow> nat option \<times> RecvResult list \<times> SendResult list) \<Rightarrow> (nat \<Rightarrow> Poll) \<Rightarrow> LoadWorker option" where
  "load_worker opt n deadline ep k clock reads socks ps =
     (if n < 0 then None
      else Some
        \<lparr>lw_opt = opt, lw_deadline = deadline, lw_conns = replicate (nat n) new_conn, lw_request = request_text opt,
         lw_stats = no_stats, lw_ep = ep, lw_kernel = k, steady = clock, steady_reads = reads, sockets = socks,
         sockets_made = 0, polls = ps, polls_made = 0, lw_closed = []\<rparr>)"

end
