(* ===== verification/Load_Properties.thy ===== *)
theory Load_Properties
  imports Load_Client
begin

text \<open>
  What the load generator counts. A response that the server frames by Content-Length is found by
  the reader of the load generator exactly where the writer of the server ended it, and a thread of
  the load generator ends when its time is over.
\<close>

section \<open>Finding the length\<close>

lemma iequals_prefix_key: "iequals_prefix s pre \<longleftrightarrow> take (length pre) (key s) = key pre"
proof -
  have "iequals_prefix s pre \<longleftrightarrow> length pre \<le> length s \<and> (\<forall>i < length pre. ascii_lower (s ! i) = ascii_lower (pre ! i))"
    by (auto simp: iequals_prefix_def list_all_iff)
  also have "\<dots> \<longleftrightarrow> take (length pre) (key s) = key pre"
    by (auto simp: key_def list_eq_iff_nth_eq)
  finally show ?thesis .
qed

lemma byte_lower: "byte (ascii_lower c) = (if 65 \<le> byte c \<and> byte c \<le> 90 then byte c + 32 else byte c)"
  by (simp add: ascii_lower_def)

lemma lower_fixed:
  assumes "byte d < 65 \<or> 122 < byte d"
  shows "ascii_lower c = d \<longleftrightarrow> c = d"
proof -
  have "ascii_lower c = d \<longleftrightarrow> byte (ascii_lower c) = byte d" by (metis char_of_char)
  also have "\<dots> \<longleftrightarrow> byte c = byte d" using assms unfolding byte_lower by auto
  also have "\<dots> \<longleftrightarrow> c = d" by (metis char_of_char)
  finally show ?thesis .
qed

lemmas lower_CR = lower_fixed [of CR, simplified] and lower_colon = lower_fixed [of "CHR '':''", simplified]

lemma iequals_prefix_line:
  assumes "CR \<notin> set pre"
  shows "iequals_prefix (l @ CR # s) pre \<longleftrightarrow> iequals_prefix l pre"
proof (cases "length pre \<le> length l")
  case True
  then show ?thesis by (simp add: iequals_prefix_key key_def)
next
  case False
  then have i: "length l \<in> set [0..<length pre]" by simp
  then have "pre ! length l \<noteq> CR" using assms nth_mem [of "length l" pre] by (metis atLeastLessThan_iff set_upt)
  then have "ascii_lower ((l @ CR # s) ! length l) \<noteq> ascii_lower (pre ! length l)"
    using lower_CR [of CR] lower_CR [of "pre ! length l"] by (simp add: nth_append)
  with i have "\<not> iequals_prefix (l @ CR # s) pre" unfolding iequals_prefix_def list_all_iff by blast
  with False show ?thesis by (simp add: iequals_prefix_def)
qed

lemma take_to_mark:
  "c \<notin> set a \<Longrightarrow> c \<notin> set b \<Longrightarrow> take (Suc (length b)) (a @ c # t) = b @ [c] \<longleftrightarrow> a = b"
proof (induction b arbitrary: a)
  case Nil
  then show ?case by (cases a) auto
next
  case (Cons x b)
  then show ?case by (cases a) auto
qed

lemma iequals_prefix_field:
  assumes "CHR '':'' \<notin> set n"
  shows "iequals_prefix (n @ '': '' @ v) ''content-length:'' \<longleftrightarrow> iequals n ''Content-Length''"
proof -
  let ?k = "key ''Content-Length''"
  have pre: "key ''content-length:'' = ?k @ [CHR '':'']" "length ''content-length:'' = Suc (length ?k)" "CHR '':'' \<notin> set ?k"
    by code_simp+
  have n: "CHR '':'' \<notin> set (key n)"
    unfolding key_def set_map using assms lower_colon by (metis imageE)
  have "key (n @ '': '' @ v) = key n @ CHR '':'' # SP # key v" by (simp add: key_def ascii_lower_def)
  then have "iequals_prefix (n @ '': '' @ v) ''content-length:'' \<longleftrightarrow>
      take (Suc (length ?k)) (key n @ CHR '':'' # SP # key v) = ?k @ [CHR '':'']"
    by (simp only: iequals_prefix_key pre)
  also have "\<dots> \<longleftrightarrow> iequals n ''Content-Length''"
    unfolding iequals_key by (rule take_to_mark [OF n pre(3)])
  finally show ?thesis .
qed

text \<open>What a line of the head adds.\<close>

definition line_length :: "nat option \<Rightarrow> string \<Rightarrow> nat option" where
  "line_length len l = (if iequals_prefix l ''content-length:'' then Some (fst (strtoul (drop 15 l))) else len)"

lemma find_line_None: "CR \<notin> set l \<Longrightarrow> find_str kCRLF l = None"
  by (induction l) (auto simp: kCRLF_def)

lemma field_scan_lines:
  assumes "list_all (\<lambda>l. CR \<notin> set l) ls"
  shows "field_scan (p @ concat (map (\<lambda>l. kCRLF @ l) ls)) (if ls = [] then None else Some (length p)) len = foldl line_length len ls"
  using assms
proof (induction ls arbitrary: p len)
  case (Cons l ls)
  let ?more = "concat (map (\<lambda>l. kCRLF @ l) ls)"
  have l: "CR \<notin> set l" using Cons.prems by simp
  have rest: "drop (length p + 2) (p @ kCRLF @ l @ ?more) = l @ ?more" by simp
  have f: "find_str kCRLF (l @ ?more) = (if ls = [] then None else Some (length l)) \<and>
    iequals_prefix (l @ ?more) ''content-length:'' = iequals_prefix l ''content-length:''"
  proof (cases ls)
    case Nil
    with find_line_None [OF l] show ?thesis by simp
  next
    case (Cons m ms)
    then show ?thesis
      using find_str_line [OF l, of "m @ concat (map (\<lambda>l. kCRLF @ l) ms)"] iequals_prefix_line [of "''content-length:''" l]
      by (simp add: kCRLF_def)
  qed
  then have ll: "length_of_line (l @ ?more) = fst (strtoul (drop 15 l))"
    by (auto simp: length_of_line_def)
  let ?h = "p @ kCRLF @ l @ ?more" and ?next = "if ls = [] then None else Some (length (p @ kCRLF @ l))"
  have next_line: "map_option (\<lambda>i. i + (length p + 2)) (find_str kCRLF (l @ ?more)) = ?next"
    using f by simp
  have "field_scan ?h (Some (length p)) len = field_scan ?h ?next (line_length len l)"
    unfolding field_scan.simps(2) [of _ "length p"] rest Let_def next_line line_length_def conjunct2 [OF f] ll ..
  also have "\<dots> = foldl line_length (line_length len l) ls"
    using Cons.IH [of "p @ kCRLF @ l" "line_length len l"] Cons.prems by (simp only: append_assoc list.pred_inject simp_thms)
  finally show ?case by (simp only: concat.simps list.map append_assoc foldl.simps list.distinct if_False)
qed simp

text \<open>The length that a head of the server declares.\<close>

definition names_ok :: "Response \<Rightarrow> bool" where
  "names_ok res \<longleftrightarrow> list_all (\<lambda>f. CHR '':'' \<notin> set (fst f)) (field_list (res_headers res))"

definition field_length :: "nat option \<Rightarrow> Field \<Rightarrow> nat option" where
  "field_length len f = (if iequals (fst f) ''Content-Length'' then Some (fst (strtoul (snd f))) else len)"

lemma line_length_field:
  assumes "CHR '':'' \<notin> set (fst f)"
  shows "line_length len (field_line_text f) = field_length len f"
proof (cases "iequals (fst f) ''Content-Length''")
  case True
  then have "length (fst f) = 14" by (simp add: iequals_def)
  then have "drop 15 (field_line_text f) = SP # snd f" by (simp add: field_line_text_def)
  moreover have "strtoul (SP # snd f) = strtoul (snd f)" by (rule strtoul_space) (simp add: is_space_def)
  ultimately show ?thesis
    using True iequals_prefix_field [OF assms, of "snd f"] by (simp add: line_length_def field_length_def field_line_text_def)
next
  case False
  then show ?thesis
    using iequals_prefix_field [OF assms, of "snd f"] by (simp add: line_length_def field_length_def field_line_text_def)
qed

lemma foldl_line_length:
  "list_all (\<lambda>f. CHR '':'' \<notin> set (fst f)) fs \<Longrightarrow> foldl line_length len (map field_line_text fs) = foldl field_length len fs"
  by (induction fs arbitrary: len) (simp_all add: line_length_field)

lemma foldl_field_length_none:
  "list_all (\<lambda>f. \<not> iequals (fst f) ''Content-Length'') fs \<Longrightarrow> foldl field_length len fs = len"
  by (induction fs arbitrary: len) (simp_all add: field_length_def)

lemma other_names:
  "\<not> iequals ''Server'' ''Content-Length''" "\<not> iequals ''Date'' ''Content-Length''" "\<not> iequals ''Connection'' ''Content-Length''"
  "\<not> iequals ''Transfer-Encoding'' ''Content-Length''" "iequals ''Content-Length'' ''Content-Length''"
  by code_simp+

lemma head_length:
  assumes "choose_framing res opts = (ContentLength, n)" "n < 2 ^ 64"
  shows "foldl field_length None (head_fields res opts) = Some n"
proof -
  let ?h = "filter (\<lambda>f. \<not> is_framing_header (fst f)) (field_list (res_headers res))"
  have "list_all (\<lambda>f. \<not> iequals (fst f) ''Content-Length'') ?h"
    by (simp add: list_all_iff is_framing_header_def)
  then have h: "foldl field_length len ?h = len" for len by (rule foldl_field_length_none)
  show ?thesis
    unfolding head_fields_def assms(1) Let_def prod.case
    by (simp add: h field_length_def other_names strtoul_to_chars [OF assms(2)])
qed

lemma head_names_ok:
  "names_ok res \<Longrightarrow> list_all (\<lambda>f. CHR '':'' \<notin> set (fst f)) (head_fields res opts)"
  by (auto simp: names_ok_def head_fields_def list_all_iff Let_def case_prod_unfold split: if_splits Framing.splits)

section \<open>One response\<close>

text \<open>A response as the server writes it when its body is framed by length.\<close>

type_synonym Reply = "Response \<times> HeadOptions \<times> string"

fun sent_text :: "Reply \<Rightarrow> string" where
  "sent_text (res, opts, body) = fst (write_head [] res opts) @ body"

fun reply_ok :: "Reply \<Rightarrow> bool" where
  "reply_ok (res, opts, body) \<longleftrightarrow>
     choose_framing res opts = (ContentLength, length body) \<and> head_clean res opts \<and> names_ok res \<and>
     100 \<le> status res \<and> status res \<le> 999"

fun reply_bad :: "Reply \<Rightarrow> bool" where
  "reply_bad (res, opts, body) \<longleftrightarrow> status res < 200 \<or> 300 \<le> status res"

lemma length_three_digits:
  assumes "100 \<le> n" "n < 1000"
  shows "length (to_chars 10 n) = 3"
proof -
  have "n div 10 div 10 < 10" "10 \<le> n div 10" using assms by auto
  then show ?thesis
    using assms by (simp add: to_chars.simps [of 10 n] to_chars.simps [of 10 "n div 10"] to_chars.simps [of 10 "n div 10 div 10"])
qed

lemma reply_head:
  assumes "reply_ok (res, opts, body)"
  defines "fs \<equiv> map field_line_text (head_fields res opts)"
  defines "head \<equiv> status_line (status res) @ concat (map (\<lambda>l. kCRLF @ l) fs)"
  shows "fst (write_head [] res opts) = head @ kCRLF @ kCRLF"
    and "12 \<le> length head" and "atoi (take 3 (drop 9 head)) = status res"
    and "length body < 2 ^ 64 \<Longrightarrow> field_scan head (find_str kCRLF head) None = Some (length body)"
    and "find_str (kCRLF @ kCRLF) (head @ kCRLF @ kCRLF @ rest) = Some (length head)"
proof -
  have clean: "list_all (\<lambda>l. l \<noteq> [] \<and> CR \<notin> set l) (status_line (status res) # fs)"
    using head_lines_clean [of res opts] assms(1) by (simp add: head_lines_def fs_def)
  have lines: "lines_text (l # ls) = l @ concat (map (\<lambda>l. kCRLF @ l) ls) @ kCRLF" for l ls
    by (induction ls arbitrary: l) (simp_all add: lines_text_def)
  have head_text: "lines_text (status_line (status res) # fs) = head @ kCRLF" by (simp only: lines head_def append_assoc)
  then show "fst (write_head [] res opts) = head @ kCRLF @ kCRLF"
    unfolding write_head_lines head_lines_def fs_def by simp
  have "find_str kBlank (lines_text (status_line (status res) # fs) @ kCRLF @ rest) =
      Some (length (lines_text (status_line (status res) # fs)) - 2)" for rest
    by (rule find_blank_lines [OF _ clean]) simp
  then show "find_str (kCRLF @ kCRLF) (head @ kCRLF @ kCRLF @ rest) = Some (length head)" for rest
    unfolding head_text by (simp add: kBlank_def)
  let ?n = "nat (status res)"
  have n: "to_u64 (status res) = ?n" "100 \<le> ?n" "?n < 1000" "int ?n = status res"
    using assms(1) by (auto simp: to_u64_def)
  then have three: "length (to_chars 10 ?n) = 3" by (intro length_three_digits)
  have sl: "status_line (status res) = ''HTTP/1.1 '' @ to_chars 10 ?n @ '' '' @ reason_phrase (status res)"
    by (simp add: status_line_def n(1))
  show "12 \<le> length head" using three by (simp add: head_def sl)
  have "take 3 (drop 9 head) = to_chars 10 ?n" using three by (simp add: head_def sl)
  then show "atoi (take 3 (drop 9 head)) = status res"
    using atoi_to_chars [of ?n "[]"] n by simp
  have noCR: "list_all (\<lambda>l. CR \<notin> set l) fs" "CR \<notin> set (status_line (status res))" using clean by (auto simp: list_all_iff)
  have "find_str kCRLF head = (if fs = [] then None else Some (length (status_line (status res))))"
  proof (cases fs)
    case (Cons f gs)
    then show ?thesis using find_str_line [OF noCR(2)] by (simp add: head_def kCRLF_def)
  qed (simp add: head_def find_line_None [OF noCR(2)])
  then have scan: "field_scan head (find_str kCRLF head) None = foldl line_length None fs"
    using field_scan_lines [OF noCR(1)] by (simp add: head_def)
  show "field_scan head (find_str kCRLF head) None = Some (length body)" if "length body < 2 ^ 64"
    unfolding scan fs_def using foldl_line_length [OF head_names_ok] head_length [OF _ that] assms(1) by simp
qed

text \<open>What the thread has done for a list of responses, of which \<open>m\<close> were followed by a new request.\<close>

definition counted :: "Reply list \<Rightarrow> nat \<Rightarrow> LoadWorker \<times> LoadConn \<Rightarrow> LoadWorker \<times> LoadConn \<Rightarrow> bool" where
  "counted rs m = (\<lambda>(w, c) (w', c').
     st_requests (lw_stats w') = st_requests (lw_stats w) + word_of_nat (length rs) \<and>
     st_non_2xx (lw_stats w') = st_non_2xx (lw_stats w) + word_of_nat (length (filter reply_bad rs)) \<and>
     (\<exists>nows. length nows = length rs \<and> set nows \<subseteq> range (\<lambda>i. word_of_int (steady w i)) \<and>
        latencies_ns (lw_stats w') = latencies_ns (lw_stats w) @ map2 (-) nows (take (length rs) (sent_at c))) \<and>
     (\<exists>new. length new = m \<and> sent_at c' = drop (length rs) (sent_at c) @ new) \<and>
     lc_out c' = lc_out c @ concat (replicate m (lw_request w)) \<and> lc_out_off c' = lc_out_off c \<and> lc_fd c' = lc_fd c \<and>
     m \<le> length rs \<and> ((\<forall>i. steady w i < lw_deadline w) \<longrightarrow> m = length rs) \<and>
     steady w' = steady w \<and> lw_deadline w' = lw_deadline w \<and> lw_request w' = lw_request w)"

lemma counted_Nil: "counted [] 0 (w, c) (w, c\<lparr>lc_in := x\<rparr>)"
  by (simp add: counted_def)

lemma counted_Cons:
  assumes "counted [r] m (w, c) (w1, c1)" "counted rs n (w1, c1) (w2, c2)" "length rs < length (sent_at c)"
  shows "counted (r # rs) (m + n) (w, c) (w2, c2)"
proof -
  obtain xs new where 1: "length xs = length [r]" "set xs \<subseteq> range (\<lambda>i. word_of_int (steady w i))" "length new = m"
      "sent_at c1 = drop (length [r]) (sent_at c) @ new"
      "latencies_ns (lw_stats w1) = latencies_ns (lw_stats w) @ map2 (-) xs (take (length [r]) (sent_at c))"
    using assms(1) unfolding counted_def prod.case by blast
  obtain nows new' where 2: "length nows = length rs" "set nows \<subseteq> range (\<lambda>i. word_of_int (steady w1 i))" "length new' = n"
      "sent_at c2 = drop (length rs) (sent_at c1) @ new'"
      "latencies_ns (lw_stats w2) = latencies_ns (lw_stats w1) @ map2 (-) nows (take (length rs) (sent_at c1))"
    using assms(2) unfolding counted_def prod.case by blast
  obtain now where now: "xs = [now]" using 1(1) by (cases xs) auto
  obtain t ts where t: "sent_at c = t # ts" using assms(3) by (cases "sent_at c") auto
  have "latencies_ns (lw_stats w2) = latencies_ns (lw_stats w) @ map2 (-) (now # nows) (take (Suc (length rs)) (sent_at c))"
    using 1(4,5) 2(5) assms(3) by (simp add: t now)
  moreover have same: "steady w1 = steady w" "lw_deadline w1 = lw_deadline w" "lw_request w1 = lw_request w"
    using assms(1) unfolding counted_def prod.case by blast+
  moreover have "set (now # nows) \<subseteq> range (\<lambda>i. word_of_int (steady w i))" "length (now # nows) = length (r # rs)"
    using 1(2) 2(1,2) by (simp_all add: same now)
  moreover have "sent_at c2 = drop (Suc (length rs)) (sent_at c) @ new @ new'" "length (new @ new') = m + n"
    using 1(3,4) 2(3,4) assms(3) by (simp_all add: t)
  moreover have "\<exists>nows. length nows = length (r # rs) \<and> set nows \<subseteq> range (\<lambda>i. word_of_int (steady w i)) \<and>
      latencies_ns (lw_stats w2) = latencies_ns (lw_stats w) @ map2 (-) nows (take (length (r # rs)) (sent_at c))"
    using calculation by (intro exI [of _ "now # nows"]) simp
  moreover have "\<exists>new. length new = m + n \<and> sent_at c2 = drop (length (r # rs)) (sent_at c) @ new"
    using calculation by (intro exI [of _ "new @ new'"]) simp
  ultimately show ?thesis
    using assms(1,2) by (simp add: counted_def replicate_add)
qed

lemma consume_turn_reply:
  assumes ok: "reply_ok r" and d: "drop pos (lc_in c) = sent_text r @ rest" and small: "length (lc_in c) < 2 ^ 64"
    and t: "sent_at c = t # ts"
  shows "\<exists>w' c' m. consume_turn (w, c, pos) = Again (w', c', pos + length (sent_text r)) \<and> lc_in c' = lc_in c \<and>
    counted [r] m (w, c) (w', c')"
proof -
  obtain res opts body where r: "r = (res, opts, body)" by (cases r)
  note ok = ok [unfolded r]
  define head where "head = status_line (status res) @ concat (map (\<lambda>l. kCRLF @ l) (map field_line_text (head_fields res opts)))"
  note h = reply_head [OF ok, folded head_def]
  have txt_r: "sent_text r = head @ kCRLF @ kCRLF @ body" using h(1) by (simp add: r)
  have le: "length (sent_text r) \<le> length (lc_in c) - pos" using arg_cong [OF d, of length] by simp
  then have b: "length body < 2 ^ 64" "szadd (length head + 4) (length body) = length (sent_text r)"
    using small by (simp_all add: txt_r)
  have f: "find_str (kCRLF @ kCRLF) (drop pos (lc_in c)) = Some (length head)" unfolding d txt_r using h(5) by simp
  have hd: "take (length head) (drop pos (lc_in c)) = head" unfolding d txt_r by simp
  have bad: "reply_bad r \<longleftrightarrow> status res < 200 \<or> 300 \<le> status res" by (simp add: r)
  let ?w = "w\<lparr>steady_reads := Suc (steady_reads w),
      lw_stats := (let st = (lw_stats w)\<lparr>latencies_ns := latencies_ns (lw_stats w) @ [word_of_int (steady w (steady_reads w)) - t],
                     st_requests := st_requests (lw_stats w) + 1\<rparr>
                   in if reply_bad r then st\<lparr>st_non_2xx := st_non_2xx st + 1\<rparr> else st)\<rparr>"
  let ?e = "steady w (Suc (steady_reads w)) < lw_deadline w"
  let ?s = "if ?e then enqueue (?w\<lparr>steady_reads := Suc (Suc (steady_reads w))\<rparr>, c\<lparr>sent_at := ts\<rparr>)
            else (?w\<lparr>steady_reads := Suc (Suc (steady_reads w))\<rparr>, c\<lparr>sent_at := ts\<rparr>)"
  have "consume_turn (w, c, pos) = (case ?s of (w', c') \<Rightarrow> Again (w', c', pos + length (sent_text r)))"
    using le h(2) bad
    unfolding consume_turn_def prod.case f option.case hd Let_def h(3) h(4) [OF b(1)] b(2) t list.case
    by (simp add: now_ns_def read_steady_def Let_def del: sent_text.simps reply_bad.simps)
  moreover have "lc_in (snd ?s) = lc_in c" by (simp add: enqueue_def now_ns_def read_steady_def Let_def)
  moreover have "counted [r] (if ?e then 1 else 0) (w, c) ?s"
    using t by (auto simp: counted_def enqueue_def now_ns_def read_steady_def Let_def intro!: exI [of _ "[_]"])
  ultimately show ?thesis by (metis (no_types, lifting) case_prod_beta prod.collapse)
qed

text \<open>The beginning of a response is left alone.\<close>

lemma consume_turn_part:
  assumes ok: "reply_ok r" and d: "drop pos (lc_in c) = take k (sent_text r)" and k: "k < length (sent_text r)"
    and small: "length (sent_text r) < 2 ^ 64"
  shows "consume_turn (w, c, pos) = Stop (w, c\<lparr>lc_in := take k (sent_text r)\<rparr>, Consumed)"
proof -
  obtain res opts body where r: "r = (res, opts, body)" by (cases r)
  note ok = ok [unfolded r]
  define head where "head = status_line (status res) @ concat (map (\<lambda>l. kCRLF @ l) (map field_line_text (head_fields res opts)))"
  note h = reply_head [OF ok, folded head_def]
  have txt_r: "sent_text r = head @ kCRLF @ kCRLF @ body" using h(1) by (simp add: r)
  have whole: "find_str (kCRLF @ kCRLF) (take k (sent_text r) @ drop k (sent_text r)) = Some (length head)"
    unfolding append_take_drop_id txt_r by (rule h(5))
  show ?thesis
  proof (cases "find_str (kCRLF @ kCRLF) (take k (sent_text r))")
    case None
    then show ?thesis unfolding consume_turn_def prod.case d by (simp del: sent_text.simps)
  next
    case (Some i)
    have i: "i = length head"
      using whole find_str_append_Some [OF Some, of "drop k (sent_text r)"] by (simp only: option.inject)
    have "length head + 4 \<le> k" using find_str_bound [OF Some] i by simp
    then have hd: "take (length head) (take k (sent_text r)) = head" by (simp add: txt_r)
    have b: "length body < 2 ^ 64" "szadd (length head + 4) (length body) = length (sent_text r)"
      using small by (simp_all add: txt_r)
    have "length (lc_in c) - pos = k" using arg_cong [OF d, of length] k by (simp del: sent_text.simps)
    then show ?thesis using h(2) k
      unfolding consume_turn_def prod.case d Some option.case i hd Let_def h(4) [OF b(1)] b(2)
      by (simp del: sent_text.simps)
  qed
qed

section \<open>Properties\<close>

text \<open>C0: The load generator counts what the server sends. Let the input of a connection be any number of
  responses as the server writes them, with bodies framed by length, followed by the beginning of
  another one, cut anywhere, and let at least that many requests be in flight. Then the reader
  returns, takes exactly the complete responses and leaves the beginning of the next. Every
  response is counted, those outside 2xx as such, and its latency is the time since the oldest
  unanswered request was queued, so that requests and responses are paired in order; before the
  deadline every response is followed by exactly one new request.\<close>

theorem replies_counted:
  assumes "lc_in c = concat (map sent_text rs) @ take k (sent_text r)" and "k < length (sent_text r)"
    and "list_all reply_ok (r # rs)" and "length rs \<le> length (sent_at c)"
    and "length (concat (map sent_text rs) @ sent_text r) < 2 ^ 64"
  shows "\<exists>w' c' m. consume_responses w c = Some (w', c', Consumed) \<and> lc_in c' = take k (sent_text r) \<and> counted rs m (w, c) (w', c')"
proof -
  have "\<exists>w' c' m. iterate (\<lambda>s. Some (consume_turn s)) (w, c, pos) = Some (w', c', Consumed) \<and>
      lc_in c' = take k (sent_text r) \<and> counted rs m (w, c) (w', c')"
    if "drop pos (lc_in c) = concat (map sent_text rs) @ take k (sent_text r)" "length (lc_in c) < 2 ^ 64" "list_all reply_ok rs"
      "length rs \<le> length (sent_at c)" for w c pos
    using that
  proof (induction rs arbitrary: w c pos)
    case Nil
    have "consume_turn (w, c, pos) = Stop (w, c\<lparr>lc_in := take k (sent_text r)\<rparr>, Consumed)"
      by (rule consume_turn_part) (use Nil assms(2,3,5) in \<open>simp_all del: sent_text.simps\<close>)
    then show ?case using counted_Nil by (fastforce simp: iterate_total [of _ "(w, c, pos)"] simp del: sent_text.simps)
  next
    case (Cons x rs)
    obtain t ts where t: "sent_at c = t # ts" using Cons.prems(4) by (cases "sent_at c") auto
    have "drop pos (lc_in c) = sent_text x @ concat (map sent_text rs) @ take k (sent_text r)" using Cons.prems(1) by simp
    from consume_turn_reply [OF _ this Cons.prems(2) t] Cons.prems(3)
    obtain w1 c1 m where 1: "consume_turn (w, c, pos) = Again (w1, c1, pos + length (sent_text x))" "lc_in c1 = lc_in c"
        "counted [x] m (w, c) (w1, c1)"
      by (metis list.pred_inject(2))
    have "length rs \<le> length (sent_at c1)"
      using 1(3) Cons.prems(4) by (auto simp: counted_def)
    moreover have "drop (pos + length (sent_text x)) (lc_in c1) = concat (map sent_text rs) @ take k (sent_text r)"
    proof -
      have "drop (pos + length (sent_text x)) (lc_in c) = drop (length (sent_text x)) (drop pos (lc_in c))" by (simp add: add.commute)
      then show ?thesis unfolding Cons.prems(1) 1(2) by simp
    qed
    ultimately obtain w2 c2 n where 2: "iterate (\<lambda>s. Some (consume_turn s)) (w1, c1, pos + length (sent_text x)) = Some (w2, c2, Consumed)"
        "lc_in c2 = take k (sent_text r)" "counted rs n (w1, c1) (w2, c2)"
      using Cons.IH [of "pos + length (sent_text x)" c1 w1] Cons.prems(2,3) 1(2) by auto
    have "counted (x # rs) (m + n) (w, c) (w2, c2)" by (rule counted_Cons [OF 1(3) 2(3)]) (use Cons.prems(4) in simp)
    then show ?case using 1(1) 2(1,2) by (auto simp: iterate_total [of _ "(w, c, pos)"])
  qed
  from this [of 0 c w] assms show ?thesis by (simp add: consume_responses_def del: sent_text.simps)
qed

text \<open>A connection with two requests in flight that has received two responses and a part of a third.\<close>

definition demo_options :: HeadOptions where
  "demo_options = \<lparr>opt_keep_alive = True, http10_client = False, date = []\<rparr>"

definition demo_reply :: "int \<Rightarrow> string \<Rightarrow> Reply" where
  "demo_reply st body = (text_response st body default_type, demo_options, body)"

definition demo_conn :: LoadConn where
  "demo_conn = new_conn\<lparr>sent_at := [1, 2],
     lc_in := concat (map sent_text [demo_reply 200 ''ok'', demo_reply 404 ''no'']) @ take 20 (sent_text (demo_reply 200 ''ok''))\<rparr>"

lemma demo_reply_ok:
  assumes "100 \<le> st" "st \<le> 999" "st sdiv 100 \<noteq> 1" "st \<noteq> 204" "st \<noteq> 304"
  shows "reply_ok (demo_reply st body)"
  using assms by (simp add: demo_reply_def demo_options_def run_simps head_clean_def names_ok_def)

lemma demo_length: "length (sent_text (demo_reply 200 ''ok'')) = 100" "length (sent_text (demo_reply 404 ''no'')) = 107"
  by (simp_all add: demo_reply_def demo_options_def write_head_shape head_fields_def run_simps status_line_def render_field_def)

definition demo_load :: "(nat \<Rightarrow> nat option \<times> RecvResult list \<times> SendResult list) \<Rightarrow> (nat \<Rightarrow> Poll) \<Rightarrow> LoadWorker" where
  "demo_load socks ps =
     \<lparr>lw_opt = \<lparr>lo_host = ''127.0.0.1'', lo_port = 8080, lo_path = ''/healthz'', lo_connections = 1, lo_threads = 1,
        lo_duration = 1, lo_pipeline = 1\<rparr>,
      lw_deadline = 10, lw_conns = [new_conn], lw_request = ''GET /'' @ kCRLF @ kCRLF, lw_stats = no_stats, lw_ep = 4,
      lw_kernel = idle_kernel, steady = int, steady_reads = 0, sockets = socks, sockets_made = 0, polls = ps, polls_made = 0,
      lw_closed = []\<rparr>"

theorem replies_counted_witness:
  "\<exists>w' c'. consume_responses (demo_load (\<lambda>_. (None, [], [])) (\<lambda>_. ([], (\<lambda>_. []), (\<lambda>_. [])))) demo_conn = Some (w', c', Consumed) \<and>
     lc_in c' = take 20 (sent_text (demo_reply 200 ''ok'')) \<and> st_requests (lw_stats w') = 2 \<and> st_non_2xx (lw_stats w') = 1"
proof -
  let ?w = "demo_load (\<lambda>_. (None, [], [])) (\<lambda>_. ([], (\<lambda>_. []), (\<lambda>_. [])))"
  let ?rs = "[demo_reply 200 ''ok'', demo_reply 404 ''no'']"
  have ok: "list_all reply_ok (demo_reply 200 ''ok'' # ?rs)" by (simp add: demo_reply_ok signed_divide_int_def)
  have "\<exists>w' c' m. consume_responses ?w demo_conn = Some (w', c', Consumed) \<and> lc_in c' = take 20 (sent_text (demo_reply 200 ''ok'')) \<and>
      counted ?rs m (?w, demo_conn) (w', c')"
  proof (rule replies_counted [OF _ _ ok])
    show "lc_in demo_conn = concat (map sent_text ?rs) @ take 20 (sent_text (demo_reply 200 ''ok''))" by (simp only: demo_conn_def) simp
    show "20 < length (sent_text (demo_reply 200 ''ok''))" unfolding demo_length by simp
    show "length ?rs \<le> length (sent_at demo_conn)" by (simp add: demo_conn_def)
    show "length (concat (map sent_text ?rs) @ sent_text (demo_reply 200 ''ok'')) < 2 ^ 64" by (simp add: demo_length)
  qed
  moreover have "filter reply_bad ?rs = [demo_reply 404 ''no'']" by (simp add: demo_reply_def text_response_def)
  ultimately show ?thesis by (auto simp: counted_def demo_load_def no_stats_def simp del: sent_text.simps)
qed

end
