(* ===== verification/Spec2Isabelle.thy ===== *)
theory Spec2Isabelle
  imports Fuzz_Mutator Round_Trip App_Routes Descriptor_Owner Metrics_Text Load_Properties
begin

text \<open>
  httpd-cpp is an HTTP/1.1 server in C++17.
\<close>

end
